(* ===== verification/Neqo_Prelude.thy ===== *)
theory Neqo_Prelude
  imports Main "HOL-Library.Word"
begin

text \<open>
  The notions every component of the development shares.

  \<^item> \<open>res\<close>: what a Rust function of the library returns: \<open>Ok\<close> a value, \<open>Err\<close> an error value
    (the \<open>Result\<close> types of the crates), or \<open>Panic\<close>. \<open>Panic\<close> covers \<open>panic!\<close>, \<open>unreachable!\<close>,
    \<open>expect\<close>/\<open>unwrap\<close> on nothing, slice indices out of range, \<open>assert!\<close> and also
    \<open>debug_assert!\<close>: a theorem that an operation does not return \<open>Panic\<close> is therefore a theorem
    about both the debug and the release build.
  \<^item> \<open>u64_add\<close>, \<open>u64_sub\<close>, \<open>u64_mul\<close>: the wrap-around of a release build on counters kept as
    natural numbers. They rewrite to the plain operation under the collection \<open>u64\<close> as soon
    as the bound is known.
  \<^item> big-endian conversion between numbers and byte strings (\<open>to_be_bytes\<close>, \<open>from_be_bytes\<close>).
\<close>

named_theorems u64 \<open>rewrites of wrapping 64-bit arithmetic to plain arithmetic\<close>
named_theorems res_simps \<open>computation rules of results\<close>

subsection \<open>Bytes and machine integers\<close>

type_synonym u8 = "8 word"
type_synonym u16 = "16 word"
type_synonym u32 = "32 word"
type_synonym u64 = "64 word"
type_synonym bytes = "u8 list"

abbreviation U64_SIZE :: nat where "U64_SIZE \<equiv> 2 ^ 64"
abbreviation USIZE_MAX :: nat where "USIZE_MAX \<equiv> 2 ^ 64 - 1"

definition u64_add :: "nat \<Rightarrow> nat \<Rightarrow> nat" where
  "u64_add a b = (a + b) mod 2 ^ 64"

definition u64_sub :: "nat \<Rightarrow> nat \<Rightarrow> nat" where
  "u64_sub a b = (a + (2 ^ 64 - b mod 2 ^ 64)) mod 2 ^ 64"

definition u64_mul :: "nat \<Rightarrow> nat \<Rightarrow> nat" where
  "u64_mul a b = (a * b) mod 2 ^ 64"

lemma u64_add_eq [u64]: "a + b < 2 ^ 64 \<Longrightarrow> u64_add a b = a + b"
  by (simp add: u64_add_def)

lemma u64_sub_eq [u64]:
  assumes "b \<le> a" "a < 2 ^ 64"
  shows "u64_sub a b = a - b"
proof -
  have "a + (2 ^ 64 - b mod 2 ^ 64) = (a - b) + 2 ^ 64"
    using assms by simp
  then show ?thesis
    using assms unfolding u64_sub_def by (simp only: mod_add_self2) simp
qed

lemma u64_mul_eq [u64]: "a * b < 2 ^ 64 \<Longrightarrow> u64_mul a b = a * b"
  by (simp add: u64_mul_def)

lemma u64_bounds [simp]:
  "u64_add a b < 18446744073709551616" "u64_sub a b < 18446744073709551616"
  "u64_mul a b < 18446744073709551616"
  by (simp_all add: u64_add_def u64_sub_def u64_mul_def)

subsection \<open>Results\<close>

text \<open>
  The error enums of the crates, in one type: the variants of \<open>neqo_transport::Error\<close>, and those of
  \<open>neqo_qpack::Error\<close> under \<open>Qpack\<close>. The variant \<open>None\<close> is \<open>NoError\<close>; the payload of \<open>Crypto\<close> belongs to
  the TLS library and is an opaque number.
\<close>

datatype epoch = Epoch_Initial | Epoch_ZeroRtt | Epoch_Handshake | Epoch_ApplicationData

datatype qpack_error =
    Decompression | EncoderStream | DecoderStream | ClosedCriticalStream | QpackInternal
  | NeedMoreData | HeaderLookup | HuffmanDecompression | BadUtf8 | ChangeCapacity | DynamicTableFull
  | IncrementAck | QpackIntegerOverflow | WrongStreamCount | Decoding | EncoderStreamBlocked
  | QpackQlog

datatype (plugins only: code size) error =
    NoError | Internal | ConnectionRefused | FlowControl | StreamLimit | StreamState | FinalSize
  | FrameEncoding | TransportParameter | ProtocolViolation | InvalidToken | Application
  | CryptoBufferExceeded | Crypto nat | Qlog | CryptoAlert u8 | EchRetry bytes
  | AckedUnsentPacket | ConnectionIdLimitExceeded | ConnectionIdsExhausted | ConnectionState
  | Decrypt | DisabledVersion | IdleTimeout | IntegerOverflow | InvalidInput | InvalidMigration
  | InvalidPacket | InvalidResumptionToken | InvalidRetry | InvalidStreamId | KeysDiscarded epoch
  | KeysExhausted | KeysPending epoch | KeyUpdateBlocked | NoAvailablePath | NoMoreData
  | NotAvailable | NotConnected | PacketNumberOverlap | PeerApplication nat | Peer nat
  | StatelessReset | TooManyPtos | TooMuchData | UnexpectedMessage | UnknownConnectionId
  | UnknownFrameType | VersionNegotiation | WrongRole | UnknownTransportParameter
  | Qpack qpack_error

datatype 'a res = Ok 'a | Err error | Panic

fun bind_res :: "'a res \<Rightarrow> ('a \<Rightarrow> 'b res) \<Rightarrow> 'b res" where
  "bind_res (Ok x) f = f x"
| "bind_res (Err e) f = Err e"
| "bind_res Panic f = Panic"

definition assert_res :: "bool \<Rightarrow> 'a res \<Rightarrow> 'a res" where
  "assert_res b r = (if b then r else Panic)"

lemma assert_res_simps [simp, res_simps]:
  "assert_res True r = r" "assert_res False r = Panic"
  by (simp_all add: assert_res_def)

lemma assert_res_Ok_iff [simp]: "assert_res b r = Ok x \<longleftrightarrow> b \<and> r = Ok x"
  by (simp add: assert_res_def)

lemma bind_res_Ok_iff: "bind_res r f = Ok y \<longleftrightarrow> (\<exists>x. r = Ok x \<and> f x = Ok y)"
  by (cases r) auto

lemma bind_res_Panic_iff: "bind_res r f = Panic \<longleftrightarrow> r = Panic \<or> (\<exists>x. r = Ok x \<and> f x = Panic)"
  by (cases r) auto

lemma assert_res_Panic_iff [simp]: "assert_res b r = Panic \<longleftrightarrow> b \<longrightarrow> r = Panic"
  by (simp add: assert_res_def)

lemma bind_res_Err_iff: "bind_res r f = Err e \<longleftrightarrow> r = Err e \<or> (\<exists>x. r = Ok x \<and> f x = Err e)"
  by (cases r) auto

lemma bind_res_OkE [elim]:
  assumes "bind_res r f = Ok y"
  obtains x where "r = Ok x" "f x = Ok y"
  using assms by (auto simp: bind_res_Ok_iff)

lemma bind_res_assoc: "bind_res (bind_res r f) g = bind_res r (\<lambda>x. bind_res (f x) g)"
  by (cases r) auto

subsection \<open>Big-endian byte strings\<close>

fun to_be :: "nat \<Rightarrow> nat \<Rightarrow> bytes" where
  "to_be 0 v = []"
| "to_be (Suc n) v = to_be n (v div 256) @ [word_of_nat v]"

definition be_val :: "bytes \<Rightarrow> nat" where
  "be_val bs = foldl (\<lambda>a b. a * 256 + unat b) 0 bs"

definition to_be_bytes :: "'a::len word \<Rightarrow> bytes" where
  "to_be_bytes w = to_be (LENGTH('a) div 8) (unat w)"

definition from_be_bytes :: "bytes \<Rightarrow> 'a::len word" where
  "from_be_bytes bs = word_of_nat (be_val bs)"

lemma length_to_be [simp]: "length (to_be n v) = n"
  by (induction n arbitrary: v) auto

lemma to_be_numeral:
  "to_be (numeral k) v = to_be (pred_numeral k) (v div 256) @ [word_of_nat v]"
  by (simp only: numeral_eq_Suc to_be.simps)

lemma be_val_Nil [simp]: "be_val [] = 0"
  by (simp add: be_val_def)

lemma be_val_snoc [simp]: "be_val (bs @ [b]) = be_val bs * 256 + unat b"
  by (simp add: be_val_def)

lemma be_val_append: "be_val (xs @ ys) = be_val xs * 256 ^ length ys + be_val ys"
proof (induction ys rule: rev_induct)
  case Nil
  then show ?case by simp
next
  case (snoc y ys)
  then have "be_val ((xs @ ys) @ [y]) = (be_val xs * 256 ^ length ys + be_val ys) * 256 + unat y"
    by (simp only: be_val_snoc)
  then show ?case by (simp add: algebra_simps)
qed

lemma unat_u8_less [simp]: "unat (b :: u8) < 256"
  using unsigned_less [of b] by simp

lemma unat_u8_of_nat [simp]: "unat (word_of_nat v :: u8) = v mod 256"
  by (simp add: unat_of_nat)

lemma be_val_to_be: "be_val (to_be n v) = v mod 256 ^ n"
proof (induction n arbitrary: v)
  case 0
  then show ?case by simp
next
  case (Suc n)
  have "v mod 256 ^ Suc n = 256 * (v div 256 mod 256 ^ n) + v mod 256"
    using mod_mult2_eq [of v 256 "256 ^ n"] by simp
  then show ?case
    using Suc by simp
qed

lemma be_val_less: "be_val bs < 256 ^ length bs"
proof (induction bs rule: rev_induct)
  case Nil
  then show ?case by simp
next
  case (snoc b bs)
  have "be_val bs * 256 + unat b < (be_val bs + 1) * 256"
    using unat_u8_less [of b] by simp
  also have "\<dots> \<le> 256 ^ length bs * 256"
    using snoc by (intro mult_right_mono) simp_all
  finally show ?case by simp
qed

lemma to_be_be_val: "to_be (length bs) (be_val bs) = bs"
proof (induction bs rule: rev_induct)
  case Nil
  then show ?case by simp
next
  case (snoc b bs)
  have "(be_val bs * 256 + unat b) div 256 = be_val bs"
    using unat_u8_less [of b] by simp
  moreover have "(word_of_nat (be_val bs * 256 + unat b) :: u8) = b"
  proof -
    have "unat (word_of_nat (be_val bs * 256 + unat b) :: u8) = (be_val bs * 256 + unat b) mod 256"
      by (rule unat_u8_of_nat)
    also have "\<dots> = unat b"
      using unat_u8_less [of b] by simp
    finally have "unat (word_of_nat (be_val bs * 256 + unat b) :: u8) = unat b" .
    then show ?thesis by (simp only: word_unat_eq_iff)
  qed
  ultimately show ?case
    using snoc by simp
qed

lemma hd_to_be: "0 < n \<Longrightarrow> v < 256 ^ n \<Longrightarrow> unat (hd (to_be n v)) = v div 256 ^ (n - 1)"
proof (induction n arbitrary: v)
  case 0
  then show ?case by simp
next
  case (Suc n)
  show ?case
  proof (cases n)
    case 0
    with Suc.prems show ?thesis by simp
  next
    case (Suc m)
    with Suc.prems have "v div 256 < 256 ^ n"
      by (simp add: less_mult_imp_div_less mult.commute)
    then have "unat (hd (to_be n (v div 256))) = v div 256 div 256 ^ (n - 1)"
      using Suc.IH Suc by blast
    moreover have "hd (to_be (Suc n) v) = hd (to_be n (v div 256))"
      using Suc by (simp add: hd_append)
    ultimately show ?thesis
      using Suc by (simp only: div_mult2_eq power_Suc diff_Suc_1)
  qed
qed

lemma length_to_be_bytes [simp]: "length (to_be_bytes (w :: 'a::len word)) = LENGTH('a) div 8"
  by (simp add: to_be_bytes_def)

lemma from_to_be_bytes:
  assumes "8 dvd LENGTH('a::len)"
  shows "from_be_bytes (to_be_bytes (w :: 'a word)) = w"
proof -
  have "(256::nat) ^ (LENGTH('a) div 8) = 2 ^ LENGTH('a)"
    using assms power_mult [of "2::nat" 8 "LENGTH('a) div 8"] by simp
  then have "be_val (to_be_bytes w) = unat w"
    using unsigned_less [of w] by (simp add: to_be_bytes_def be_val_to_be)
  then show ?thesis
    by (simp add: from_be_bytes_def)
qed

lemma from_to_be_bytes_u64 [simp]: "from_be_bytes (to_be_bytes (w :: u64)) = w"
  by (rule from_to_be_bytes) simp

lemma word_eq_of_nat: "unat (w :: 'a::len word) = n \<Longrightarrow> w = word_of_nat n"
  by auto

subsection \<open>Lists\<close>

lemma take_drop_append [simp]: "take (length ys) (drop (length xs) (xs @ ys @ zs)) = ys"
  by simp

lemma drop_takeWhile_length:
  "drop (length (takeWhile P xs)) xs = dropWhile P xs"
  by (metis dropWhile_eq_drop)

end
