(* ===== verification/Codec.thy ===== *)
theory Codec
  imports Neqo_Prelude
begin

unbundle bit_operations_syntax

text \<open>
  \<open>neqo-common/src/codec.rs\<close>: the \<open>Decoder\<close> (a cursor over a byte slice), the \<open>Buffer\<close> trait with
  its implementations for \<open>Vec<u8>\<close> and \<open>Cursor<&mut [u8]>\<close>, and the \<open>Encoder\<close> written over that
  trait.

  The trait is a record of functions, so that the encoder is one set of definitions for
  every buffer, as it is in the source. What the encoder relies on is the locale
  \<open>lawful_buffer\<close>; both implementations interpret it, and the encoder's lemmas are proved
  once inside the locale. A closure argument (\<open>FnOnce(&mut Self)\<close>) is a function from encoder to
  result. \<open>usize\<close> is 64 bits wide.
\<close>

definition MAX_VARINT :: nat where
  "MAX_VARINT = 2 ^ 62 - 1"

subsection \<open>Decoder\<close>

record decoder =
  dbuf :: bytes
  doffset :: nat

definition decoder_new :: "bytes \<Rightarrow> decoder" where
  "decoder_new b = \<lparr>dbuf = b, doffset = 0\<rparr>"

definition remaining :: "decoder \<Rightarrow> nat" where
  "remaining d = length (dbuf d) - doffset d"

definition decoder_as_ref :: "decoder \<Rightarrow> bytes" where
  "decoder_as_ref d = drop (doffset d) (dbuf d)"

definition decoder_skip :: "decoder \<Rightarrow> nat \<Rightarrow> decoder res" where
  "decoder_skip d n = assert_res (n \<le> remaining d) (Ok (d\<lparr>doffset := doffset d + n\<rparr>))"

text \<open>\<open>iter().position(..)\<close>.\<close>

fun find_pos :: "('a \<Rightarrow> bool) \<Rightarrow> 'a list \<Rightarrow> nat option" where
  "find_pos P [] = None"
| "find_pos P (x # xs) = (if P x then Some 0 else map_option Suc (find_pos P xs))"

text \<open>\<open>as_chunks::<N>().0\<close>: the complete chunks of \<open>n\<close> elements.\<close>

fun as_chunks :: "nat \<Rightarrow> nat \<Rightarrow> 'a list \<Rightarrow> 'a list list" where
  "as_chunks 0 n xs = []"
| "as_chunks (Suc k) n xs = take n xs # as_chunks k n (drop n xs)"

definition CHUNK :: nat where
  "CHUNK = 16"

text \<open>
  \<open>align\<close> stands for \<open>buf.as_ptr().align_offset(CHUNK)\<close>, which depends on the address of the
  buffer and may be any number.
\<close>

definition skip_while :: "nat \<Rightarrow> decoder \<Rightarrow> u8 \<Rightarrow> (nat \<times> decoder) res" where
  "skip_while align d predicate =
     (let buf = decoder_as_ref d;
          head = min align (length buf)
      in case find_pos (\<lambda>v. v \<noteq> predicate) (take head buf) of
           Some i \<Rightarrow> bind_res (decoder_skip d i) (\<lambda>d'. Ok (i, d'))
         | None \<Rightarrow>
             (let chunks = as_chunks (length (drop head buf) div CHUNK) CHUNK (drop head buf);
                  start = head + (case find_pos (\<lambda>c. c \<noteq> replicate CHUNK predicate) chunks of
                                    None \<Rightarrow> length chunks | Some k \<Rightarrow> k) * CHUNK;
                  until = (case find_pos (\<lambda>v. v \<noteq> predicate) (drop start buf) of
                             None \<Rightarrow> length buf | Some i \<Rightarrow> start + i)
              in bind_res (decoder_skip d until) (\<lambda>d'. Ok (until, d'))))"

definition peek_byte :: "decoder \<Rightarrow> u8 option" where
  "peek_byte d = (if remaining d < 1 then None else Some (dbuf d ! doffset d))"

definition decode :: "decoder \<Rightarrow> nat \<Rightarrow> bytes option \<times> decoder" where
  "decode d n =
     (if remaining d < n then (None, d)
      else (Some (take n (drop (doffset d) (dbuf d))), d\<lparr>doffset := doffset d + n\<rparr>))"

definition decode_n :: "decoder \<Rightarrow> nat \<Rightarrow> (u64 option \<times> decoder) res" where
  "decode_n d n =
     assert_res (0 < n \<and> n \<le> 8)
       (Ok (if remaining d < n then (None, d)
            else if n = 1 then
              (Some (ucast (dbuf d ! doffset d)), d\<lparr>doffset := doffset d + 1\<rparr>)
            else
              (let buf = replicate (8 - n) 0 @ take n (drop (doffset d) (dbuf d))
               in (Some (from_be_bytes buf), d\<lparr>doffset := doffset d + n\<rparr>))))"

text \<open>
  \<open>decode_uint::<T>\<close> for the unsigned type of \<open>size\<close> bytes; \<open>T::try_from\<close> fails when the
  value does not fit.
\<close>

definition decode_uint :: "nat \<Rightarrow> decoder \<Rightarrow> (u64 option \<times> decoder) res" where
  "decode_uint sz d =
     bind_res (decode_n d sz) (\<lambda>(v, d').
       Ok (case v of None \<Rightarrow> None | Some x \<Rightarrow> if unat x < 256 ^ sz then Some x else None, d'))"

text \<open>\<open>buf.get(offset..)?.first_chunk::<N>()?\<close>.\<close>

definition first_chunk :: "nat \<Rightarrow> decoder \<Rightarrow> bytes option" where
  "first_chunk n d =
     (if length (dbuf d) < doffset d \<or> length (drop (doffset d) (dbuf d)) < n then None
      else Some (take n (drop (doffset d) (dbuf d))))"

definition decode_varint :: "decoder \<Rightarrow> u64 option \<times> decoder" where
  "decode_varint d =
     (if length (dbuf d) \<le> doffset d then (None, d)
      else
        (let first = dbuf d ! doffset d
         in if first < 0x40 then (Some (ucast first), d\<lparr>doffset := doffset d + 1\<rparr>)
            else if first < 0x80 then
              (case first_chunk 2 d of
                 None \<Rightarrow> (None, d)
               | Some c \<Rightarrow>
                   (Some (ucast (from_be_bytes c :: u16) AND 0x3fff), d\<lparr>doffset := doffset d + 2\<rparr>))
            else if first < 0xc0 then
              (case first_chunk 4 d of
                 None \<Rightarrow> (None, d)
               | Some c \<Rightarrow>
                   (Some (ucast (from_be_bytes c :: u32) AND 0x3fffffff),
                    d\<lparr>doffset := doffset d + 4\<rparr>))
            else
              (case first_chunk 8 d of
                 None \<Rightarrow> (None, d)
               | Some c \<Rightarrow>
                   (Some (from_be_bytes c AND word_of_nat MAX_VARINT),
                    d\<lparr>doffset := doffset d + 8\<rparr>))))"

definition decode_remainder :: "decoder \<Rightarrow> bytes \<times> decoder" where
  "decode_remainder d = (drop (doffset d) (dbuf d), d\<lparr>doffset := length (dbuf d)\<rparr>)"

definition decode_checked :: "u64 option \<Rightarrow> decoder \<Rightarrow> bytes option \<times> decoder" where
  "decode_checked n d =
     (case n of
        None \<Rightarrow> (None, d)
      | Some l \<Rightarrow>
          if unat l \<le> USIZE_MAX then decode d (unat l)
          else (None, d\<lparr>doffset := length (dbuf d)\<rparr>))"

definition decode_vec :: "decoder \<Rightarrow> nat \<Rightarrow> (bytes option \<times> decoder) res" where
  "decode_vec d n = bind_res (decode_n d n) (\<lambda>(len, d'). Ok (decode_checked len d'))"

definition decode_vvec :: "decoder \<Rightarrow> bytes option \<times> decoder" where
  "decode_vvec d = (case decode_varint d of (len, d') \<Rightarrow> decode_checked len d')"

subsection \<open>Buffers\<close>

text \<open>
  The trait \<open>Buffer\<close> with its supertrait \<open>io::Write\<close>. \<open>copy_into b i data\<close> is the effect of
  \<open>b.as_mut()[i..i + data.len()].copy_from_slice(data)\<close>.
\<close>

record 'b Buffer =
  position :: "'b \<Rightarrow> nat"
  as_slice :: "'b \<Rightarrow> bytes"
  copy_into :: "'b \<Rightarrow> nat \<Rightarrow> bytes \<Rightarrow> 'b res"
  write_all :: "'b \<Rightarrow> bytes \<Rightarrow> 'b res"
  buf_truncate :: "'b \<Rightarrow> nat \<Rightarrow> 'b"
  buf_pad_to :: "'b \<Rightarrow> nat \<Rightarrow> u8 \<Rightarrow> 'b res"
  write_at :: "'b \<Rightarrow> nat \<Rightarrow> u8 \<Rightarrow> 'b res"
  buf_rotate_right :: "'b \<Rightarrow> nat \<Rightarrow> nat \<Rightarrow> 'b res"

definition copy_slice :: "bytes \<Rightarrow> nat \<Rightarrow> bytes \<Rightarrow> bytes" where
  "copy_slice xs i data = take i xs @ data @ drop (i + length data) xs"

definition slice_rotate_right :: "nat \<Rightarrow> 'a list \<Rightarrow> 'a list" where
  "slice_rotate_right k xs = drop (length xs - k) xs @ take (length xs - k) xs"

definition vec_resize :: "bytes \<Rightarrow> nat \<Rightarrow> u8 \<Rightarrow> bytes" where
  "vec_resize b n v = (if n \<le> length b then take n b else b @ replicate (n - length b) v)"

definition vec_buffer :: "bytes Buffer" where
  "vec_buffer = \<lparr>
     position = length,
     as_slice = (\<lambda>b. b),
     copy_into = (\<lambda>b i data. assert_res (i + length data \<le> length b) (Ok (copy_slice b i data))),
     write_all = (\<lambda>b data. Ok (b @ data)),
     buf_truncate = (\<lambda>b n. take n b),
     buf_pad_to = (\<lambda>b n v. Ok (vec_resize b n v)),
     write_at = (\<lambda>b pos x. assert_res (pos < length b) (Ok (b[pos := x]))),
     buf_rotate_right = (\<lambda>b start count.
       assert_res (start \<le> length b \<and> count \<le> length (drop start b))
         (Ok (take start b @ slice_rotate_right count (drop start b))))\<rparr>"

record cursor =
  cur_mem :: bytes
  cur_pos :: nat

definition cursor_truncate :: "cursor \<Rightarrow> nat \<Rightarrow> cursor" where
  "cursor_truncate c len =
     (if len < cur_pos c then
        \<lparr>cur_mem = take len (cur_mem c) @ replicate (cur_pos c - len) 0 @ drop (cur_pos c) (cur_mem c),
         cur_pos = len\<rparr>
      else c)"

definition cursor_pad_to :: "cursor \<Rightarrow> nat \<Rightarrow> u8 \<Rightarrow> cursor res" where
  "cursor_pad_to c n v =
     assert_res (cur_pos c \<le> n \<and> n \<le> length (cur_mem c))
       (Ok \<lparr>cur_mem = take (cur_pos c) (cur_mem c) @ replicate (n - cur_pos c) v @ drop n (cur_mem c),
            cur_pos = n\<rparr>)"

definition cursor_write_all :: "cursor \<Rightarrow> bytes \<Rightarrow> cursor res" where
  "cursor_write_all c data =
     (if data = [] then Ok c
      else assert_res (cur_pos c + length data \<le> length (cur_mem c))
        (Ok \<lparr>cur_mem = copy_slice (cur_mem c) (cur_pos c) data, cur_pos = cur_pos c + length data\<rparr>))"

definition cursor_rotate_right :: "cursor \<Rightarrow> nat \<Rightarrow> nat \<Rightarrow> cursor res" where
  "cursor_rotate_right c start count =
     assert_res (start \<le> cur_pos c \<and> cur_pos c \<le> length (cur_mem c) \<and> count \<le> cur_pos c - start)
       (Ok (c\<lparr>cur_mem := take start (cur_mem c)
               @ slice_rotate_right count (drop start (take (cur_pos c) (cur_mem c)))
               @ drop (cur_pos c) (cur_mem c)\<rparr>))"

definition cursor_buffer :: "cursor Buffer" where
  "cursor_buffer = \<lparr>
     position = cur_pos,
     as_slice = (\<lambda>c. take (cur_pos c) (cur_mem c)),
     copy_into = (\<lambda>c i data. assert_res (i + length data \<le> cur_pos c)
       (Ok (c\<lparr>cur_mem := copy_slice (cur_mem c) i data\<rparr>))),
     write_all = cursor_write_all,
     buf_truncate = cursor_truncate,
     buf_pad_to = cursor_pad_to,
     write_at = (\<lambda>c pos x. assert_res (pos < length (cur_mem c))
       (Ok (c\<lparr>cur_mem := (cur_mem c)[pos := x]\<rparr>))),
     buf_rotate_right = cursor_rotate_right\<rparr>"

subsection \<open>Encoder\<close>

record 'b encoder =
  ebuf :: 'b
  estart :: nat

type_synonym reservation = nat

definition enc_len :: "'b Buffer \<Rightarrow> 'b encoder \<Rightarrow> nat" where
  "enc_len B e = position B (ebuf e) - estart e"

definition enc_is_empty :: "'b Buffer \<Rightarrow> 'b encoder \<Rightarrow> bool" where
  "enc_is_empty B e \<longleftrightarrow> enc_len B e = 0"

definition enc_as_ref :: "'b Buffer \<Rightarrow> 'b encoder \<Rightarrow> bytes" where
  "enc_as_ref B e = drop (estart e) (as_slice B (ebuf e))"

definition as_decoder :: "'b Buffer \<Rightarrow> 'b encoder \<Rightarrow> decoder" where
  "as_decoder B e = decoder_new (enc_as_ref B e)"

definition encode :: "'b Buffer \<Rightarrow> 'b encoder \<Rightarrow> bytes \<Rightarrow> ('b encoder) res" where
  "encode B e data = bind_res (write_all B (ebuf e) data) (\<lambda>b. Ok (e\<lparr>ebuf := b\<rparr>))"

definition encode_byte :: "'b Buffer \<Rightarrow> 'b encoder \<Rightarrow> u8 \<Rightarrow> ('b encoder) res" where
  "encode_byte B e data = bind_res (write_all B (ebuf e) [data]) (\<lambda>b. Ok (e\<lparr>ebuf := b\<rparr>))"

definition encode_uint :: "'b Buffer \<Rightarrow> 'b encoder \<Rightarrow> nat \<Rightarrow> u64 \<Rightarrow> ('b encoder) res" where
  "encode_uint B e n v = assert_res (0 < n \<and> n \<le> 8) (encode B e (drop (8 - n) (to_be_bytes v)))"

definition encode_varint :: "'b Buffer \<Rightarrow> 'b encoder \<Rightarrow> u64 \<Rightarrow> ('b encoder) res" where
  "encode_varint B e v =
     (if v < push_bit 6 1 then encode_byte B e (ucast v)
      else if v < push_bit 14 1 then encode B e (to_be_bytes ((ucast v :: u16) OR push_bit 14 1))
      else if v < push_bit 30 1 then encode B e (to_be_bytes ((ucast v :: u32) OR push_bit 30 2))
      else if v < push_bit 62 1 then encode B e (to_be_bytes (v OR push_bit 62 3))
      else Panic)"

definition enc_pad_to :: "'b Buffer \<Rightarrow> 'b encoder \<Rightarrow> nat \<Rightarrow> u8 \<Rightarrow> ('b encoder) res" where
  "enc_pad_to B e len v =
     (let buffer_len = estart e + len
      in if position B (ebuf e) < buffer_len
         then bind_res (buf_pad_to B (ebuf e) buffer_len v) (\<lambda>b. Ok (e\<lparr>ebuf := b\<rparr>))
         else Ok e)"

definition reserve ::
    "'b Buffer \<Rightarrow> 'b encoder \<Rightarrow> nat \<Rightarrow> (reservation \<times> 'b encoder) res" where
  "reserve B e N =
     (let pos = position B (ebuf e)
      in bind_res (enc_pad_to B e (enc_len B e + N) 0) (\<lambda>e'. Ok (pos, e')))"

definition overwrite ::
    "'b Buffer \<Rightarrow> 'b encoder \<Rightarrow> reservation \<Rightarrow> bytes \<Rightarrow> ('b encoder) res" where
  "overwrite B e rsv data =
     assert_res (estart e \<le> rsv)
       (let offset = rsv - estart e;
            end = offset + length data
        in assert_res (end \<le> enc_len B e)
             (bind_res (copy_into B (ebuf e) (estart e + offset) data) (\<lambda>b. Ok (e\<lparr>ebuf := b\<rparr>))))"

definition encode_len :: "'b Buffer \<Rightarrow> 'b encoder \<Rightarrow> nat \<Rightarrow> ('b encoder) res" where
  "encode_len B e v = encode_varint B e (word_of_nat v)"

definition encode_vec :: "'b Buffer \<Rightarrow> 'b encoder \<Rightarrow> nat \<Rightarrow> bytes \<Rightarrow> ('b encoder) res" where
  "encode_vec B e n v =
     bind_res (encode_uint B e n (word_of_nat (length v))) (\<lambda>e'. encode B e' v)"

text \<open>The loop \<open>for i in 0..n\<close> of \<open>encode_vec_with\<close>.\<close>

fun write_len_at ::
    "'b Buffer \<Rightarrow> 'b \<Rightarrow> nat \<Rightarrow> nat \<Rightarrow> nat \<Rightarrow> nat list \<Rightarrow> 'b res" where
  "write_len_at B b start n len [] = Ok b"
| "write_len_at B b start n len (i # is) =
     bind_res (write_at B b (start + i) (word_of_nat (len div 2 ^ (8 * (n - i - 1)) mod 256)))
       (\<lambda>b'. write_len_at B b' start n len is)"

definition encode_vec_with ::
    "'b Buffer \<Rightarrow> 'b encoder \<Rightarrow> nat \<Rightarrow> ('b encoder \<Rightarrow> ('b encoder) res)
      \<Rightarrow> ('b encoder) res" where
  "encode_vec_with B e n f =
     (let start = position B (ebuf e)
      in bind_res (enc_pad_to B e n 0) (\<lambda>e1.
         bind_res (f e1) (\<lambda>e2.
           assert_res (start + n \<le> position B (ebuf e2))
             (let len = position B (ebuf e2) - start - n
              in assert_res (len < 2 ^ (n * 8))
                   (bind_res (write_len_at B (ebuf e2) start n len [0..<n])
                      (\<lambda>b. Ok (e2\<lparr>ebuf := b\<rparr>)))))))"

definition encode_vvec :: "'b Buffer \<Rightarrow> 'b encoder \<Rightarrow> bytes \<Rightarrow> ('b encoder) res" where
  "encode_vvec B e v = bind_res (encode_len B e (length v)) (\<lambda>e'. encode B e' v)"

text \<open>
  The match of \<open>encode_vvec_with\<close> on a length that needs more than one byte: the number of
  bytes to add and the tag bits of the first; \<open>None\<close> is the panic of its last arm.
\<close>

definition vvec_high_bits :: "u64 \<Rightarrow> (nat \<times> u64) option" where
  "vvec_high_bits v =
     (if v < push_bit 14 1 then Some (1, push_bit 6 1)
      else if v < push_bit 30 1 then Some (3, push_bit 22 2)
      else if v < push_bit 62 1 then Some (7, push_bit 54 3)
      else None)"

definition encode_vvec_with ::
    "'b Buffer \<Rightarrow> 'b encoder \<Rightarrow> ('b encoder \<Rightarrow> ('b encoder) res)
      \<Rightarrow> ('b encoder) res" where
  "encode_vvec_with B e f =
     (let start = position B (ebuf e)
      in bind_res (write_all B (ebuf e) [0]) (\<lambda>b1.
         bind_res (f (e\<lparr>ebuf := b1\<rparr>)) (\<lambda>e2.
           assert_res (start + 1 \<le> position B (ebuf e2))
             (let v = (word_of_nat (position B (ebuf e2) - start - 1) :: u64)
              in bind_res (write_at B (ebuf e2) start (ucast (v AND 0xff))) (\<lambda>b3.
                 if v < push_bit 6 1 then Ok (e2\<lparr>ebuf := b3\<rparr>)
                 else case vvec_high_bits v of
                     None \<Rightarrow> Panic
                   | Some (count, bits) \<Rightarrow>
                       bind_res (encode_uint B (e2\<lparr>ebuf := b3\<rparr>) count (drop_bit 8 v OR bits)) (\<lambda>e4.
                       bind_res (buf_rotate_right B (ebuf e4) start count) (\<lambda>b5.
                         Ok (e4\<lparr>ebuf := b5\<rparr>))))))))"

definition enc_truncate :: "'b Buffer \<Rightarrow> 'b encoder \<Rightarrow> nat \<Rightarrow> 'b encoder" where
  "enc_truncate B e len = e\<lparr>ebuf := buf_truncate B (ebuf e) (len + estart e)\<rparr>"

definition enc_skip :: "bytes encoder \<Rightarrow> nat \<Rightarrow> (bytes encoder) res" where
  "enc_skip e n =
     assert_res (n \<le> enc_len vec_buffer e) (Ok (e\<lparr>estart := estart e + n\<rparr>))"

definition varint_len :: "nat \<Rightarrow> nat res" where
  "varint_len v =
     (if v < 2 ^ 6 then Ok 1
      else if v < 2 ^ 14 then Ok 2
      else if v < 2 ^ 30 then Ok 4
      else if v < 2 ^ 62 then Ok 8
      else Panic)"

definition vvec_len :: "nat \<Rightarrow> nat res" where
  "vvec_len len = bind_res (varint_len len) (\<lambda>n. Ok (n + len))"

definition encoder_default :: "bytes encoder" where
  "encoder_default = \<lparr>ebuf = [], estart = 0\<rparr>"

definition new_borrowed_slice :: "bytes \<Rightarrow> cursor encoder" where
  "new_borrowed_slice buf = \<lparr>ebuf = \<lparr>cur_mem = buf, cur_pos = 0\<rparr>, estart = 0\<rparr>"

definition new_borrowed_vec :: "bytes \<Rightarrow> bytes encoder" where
  "new_borrowed_vec buf = \<lparr>ebuf = buf, estart = length buf\<rparr>"

definition encoder_into_vec :: "bytes encoder \<Rightarrow> bytes" where
  "encoder_into_vec e = (if 0 < estart e then drop (estart e) (ebuf e) else ebuf e)"

definition encoder_clone :: "'b Buffer \<Rightarrow> 'b encoder \<Rightarrow> bytes encoder" where
  "encoder_clone B e = \<lparr>ebuf = enc_as_ref B e, estart = 0\<rparr>"

subsection \<open>Decoder lemmas\<close>

text \<open>The reference for \<open>skip_while\<close> is the length of the longest prefix; the reference for
  \<open>decode_varint\<close> reads the length from the two top bits of the first byte and takes the value
  modulo \<open>2 ^ (8 n - 2)\<close>.\<close>

definition wf_decoder :: "decoder \<Rightarrow> bool" where
  "wf_decoder d \<longleftrightarrow> doffset d \<le> length (dbuf d)"

lemma length_as_ref [simp]: "length (decoder_as_ref d) = remaining d"
  by (simp add: decoder_as_ref_def remaining_def)

lemma find_pos_neq:
  "find_pos (\<lambda>v. v \<noteq> p) xs =
     (if list_all (\<lambda>v. v = p) xs then None else Some (length (takeWhile (\<lambda>v. v = p) xs)))"
  by (induction xs) auto

lemma as_chunks_prefix:
  assumes "n * k \<le> length xs"
    and "j = (case find_pos (\<lambda>c. c \<noteq> replicate n p) (as_chunks k n xs) of None \<Rightarrow> k | Some j \<Rightarrow> j)"
  shows "j \<le> k \<and> list_all (\<lambda>v. v = p) (take (j * n) xs)"
  using assms
proof (induction k arbitrary: xs j)
  case 0
  then show ?case by simp
next
  case (Suc k)
  show ?case
  proof (cases "take n xs = replicate n p")
    case False
    with Suc.prems show ?thesis by simp
  next
    case True
    define i where
      "i = (case find_pos (\<lambda>c. c \<noteq> replicate n p) (as_chunks k n (drop n xs)) of None \<Rightarrow> k | Some i \<Rightarrow> i)"
    have "i \<le> k \<and> list_all (\<lambda>v. v = p) (take (i * n) (drop n xs))"
      unfolding i_def using Suc.prems(1) by (intro Suc.IH) simp_all
    moreover have "j = Suc i"
      unfolding Suc.prems(2) i_def using True by (simp split: option.split)
    moreover have "take (n + i * n) xs = replicate n p @ take (i * n) (drop n xs)"
      using True by (simp add: take_add)
    ultimately show ?thesis
      by (auto simp: list_all_iff)
  qed
qed

lemma takeWhile_prefix:
  "list_all P (take n xs) \<Longrightarrow> n \<le> length xs \<Longrightarrow>
     length (takeWhile P xs) = n + length (takeWhile P (drop n xs))"
  by (induction xs arbitrary: n) (auto split: nat.splits simp: take_Cons drop_Cons)

definition skip_while_ref :: "decoder \<Rightarrow> u8 \<Rightarrow> nat \<times> decoder" where
  "skip_while_ref d p =
     (let n = length (takeWhile (\<lambda>v. v = p) (decoder_as_ref d))
      in (n, d\<lparr>doffset := doffset d + n\<rparr>))"

lemma skip_while_count:
  fixes buf :: bytes and p :: u8
  assumes "head \<le> length buf"
  defines "rest \<equiv> drop head buf"
  defines "chunks \<equiv> as_chunks (length rest div CHUNK) CHUNK rest"
  defines "start \<equiv> head + (case find_pos (\<lambda>c. c \<noteq> replicate CHUNK p) chunks of
             None \<Rightarrow> length chunks | Some k \<Rightarrow> k) * CHUNK"
  assumes "list_all (\<lambda>v. v = p) (take head buf)"
  shows "(case find_pos (\<lambda>v. v \<noteq> p) (drop start buf) of None \<Rightarrow> length buf | Some i \<Rightarrow> start + i)
         = length (takeWhile (\<lambda>v. v = p) buf)"
proof -
  have len: "length (as_chunks k n xs) = k" for k n and xs :: bytes
    by (induction k arbitrary: xs) auto
  define j where "j = (case find_pos (\<lambda>c. c \<noteq> replicate CHUNK p) chunks of
             None \<Rightarrow> length rest div CHUNK | Some k \<Rightarrow> k)"
  have j: "j \<le> length rest div CHUNK" "list_all (\<lambda>v. v = p) (take (j * CHUNK) rest)"
    unfolding j_def chunks_def
    using as_chunks_prefix [where n = CHUNK and k = "length rest div CHUNK" and xs = rest and p = p, OF _ refl]
    by simp_all
  have start: "start = head + j * CHUNK"
    unfolding start_def j_def chunks_def by (simp add: len split: option.split)
  have "j * CHUNK \<le> length rest"
    using j(1) by (metis div_times_less_eq_dividend mult_le_mono1 order.trans)
  then have le: "start \<le> length buf"
    using assms(1) start by (simp add: rest_def)
  have "take start buf = take head buf @ take (j * CHUNK) rest"
    using start by (simp add: take_add rest_def)
  then have "list_all (\<lambda>v. v = p) (take start buf)"
    using assms(5) j(2) by simp
  then have eq: "length (takeWhile (\<lambda>v. v = p) buf)
      = start + length (takeWhile (\<lambda>v. v = p) (drop start buf))"
    using le by (rule takeWhile_prefix)
  show ?thesis
  proof (cases "list_all (\<lambda>v. v = p) (drop start buf)")
    case True
    then have "length (takeWhile (\<lambda>v. v = p) (drop start buf)) = length (drop start buf)"
      by (metis list_all_iff takeWhile_eq_all_conv)
    then have "length (takeWhile (\<lambda>v. v = p) buf) = length buf"
      using eq le by simp
    then show ?thesis
      using True by (simp add: find_pos_neq)
  next
    case False
    then show ?thesis
      using eq by (simp add: find_pos_neq)
  qed
qed

lemma skip_while_eq: "skip_while align d p = Ok (skip_while_ref d p)"
proof -
  define buf where "buf = decoder_as_ref d"
  define head where "head = min align (length buf)"
  have fits: "length (takeWhile (\<lambda>v. v = p) buf) \<le> remaining d"
    using length_takeWhile_le [of _ buf] by (simp add: buf_def)
  show ?thesis
  proof (cases "list_all (\<lambda>v. v = p) (take head buf)")
    case True
    then have none: "find_pos (\<lambda>v. v \<noteq> p) (take head buf) = None"
      by (simp add: find_pos_neq)
    have "head \<le> length buf"
      by (simp add: head_def)
    note count = skip_while_count [OF this True]
    show ?thesis
      unfolding skip_while_def Let_def buf_def [symmetric] head_def [symmetric] none option.case count
      using fits by (simp add: skip_while_ref_def decoder_skip_def Let_def flip: buf_def)
  next
    case False
    then obtain x where "x \<in> set (take head buf)" "x \<noteq> p"
      by (auto simp: list_all_iff)
    then have "takeWhile (\<lambda>v. v = p) (take head buf @ drop head buf) = takeWhile (\<lambda>v. v = p) (take head buf)"
      by (rule takeWhile_append1)
    then have "takeWhile (\<lambda>v. v = p) buf = takeWhile (\<lambda>v. v = p) (take head buf)"
      by (simp only: append_take_drop_id)
    then have some: "find_pos (\<lambda>v. v \<noteq> p) (take head buf) = Some (length (takeWhile (\<lambda>v. v = p) buf))"
      using False by (simp add: find_pos_neq)
    show ?thesis
      unfolding skip_while_def Let_def buf_def [symmetric] head_def [symmetric] some option.case
      using fits by (simp add: skip_while_ref_def decoder_skip_def Let_def flip: buf_def)
  qed
qed

definition varint_spec :: "bytes \<Rightarrow> (nat \<times> nat) option" where
  "varint_spec bs =
     (case bs of
        [] \<Rightarrow> None
      | b # _ \<Rightarrow>
          (let n = 2 ^ (unat b div 64)
           in if length bs < n then None else Some (be_val (take n bs) mod 2 ^ (8 * n - 2), n)))"

lemma mask_consts:
  "(0x3fff :: u64) = mask 14" "(0x3fffffff :: u64) = mask 30" "(word_of_nat MAX_VARINT :: u64) = mask 62"
  by (simp_all add: mask_eq_exp_minus_1 MAX_VARINT_def)

lemma unat_and_mask: "unat (w AND mask n) = unat w mod 2 ^ n"
  by (simp add: unsigned_take_bit_eq flip: take_bit_eq_mask) (simp add: take_bit_eq_mod)

lemma be_val_take_less: "be_val (take n bs) < 256 ^ n"
  using be_val_less [of "take n bs"] power_increasing [of "length (take n bs)" n "256::nat"]
  by (simp add: order_less_le_trans)

lemma unat_from_be_bytes:
  assumes "length bs * 8 \<le> LENGTH('a::len)"
  shows "unat (from_be_bytes bs :: 'a word) = be_val bs"
proof -
  have "(256::nat) ^ length bs = 2 ^ (8 * length bs)"
    by (simp add: power_mult)
  also have "\<dots> \<le> 2 ^ LENGTH('a)"
    using assms by (intro power_increasing) (simp_all add: mult.commute)
  finally have "be_val bs < 2 ^ LENGTH('a)"
    using be_val_less [of bs] by simp
  then show ?thesis
    by (simp add: from_be_bytes_def unat_of_nat)
qed

lemma varint_spec_bounds:
  assumes "varint_spec bs = Some (v, n)"
  shows "v \<le> MAX_VARINT" "n \<in> {1, 2, 4, 8}" "n \<le> length bs"
proof -
  obtain b where n: "n = 2 ^ (unat (b :: u8) div 64)" and le: "n \<le> length bs"
    and v: "v = be_val (take n bs) mod 2 ^ (8 * n - 2)"
    using assms by (auto simp: varint_spec_def Let_def split: list.splits if_splits)
  have "unat b div 64 < 4"
    using unat_u8_less [of b] by linarith
  then have "unat b div 64 \<in> {0, 1, 2, 3}"
    by auto
  then show n_in: "n \<in> {1, 2, 4, 8}"
    unfolding n by auto
  then have "v < 2 ^ 62"
    using v mod_less_divisor [of "2 ^ (8 * n - 2)" "be_val (take n bs)"]
      power_increasing [of "8 * n - 2" 62 "2::nat"] by fastforce
  then show "v \<le> MAX_VARINT"
    by (simp add: MAX_VARINT_def)
  show "n \<le> length bs" by (rule le)
qed

lemma decode_varint_spec:
  assumes "wf_decoder d"
  shows "decode_varint d =
    (case varint_spec (decoder_as_ref d) of
       None \<Rightarrow> (None, d)
     | Some (v, n) \<Rightarrow> (Some (word_of_nat v), d\<lparr>doffset := doffset d + n\<rparr>))"
proof (cases "decoder_as_ref d")
  case Nil
  then show ?thesis
    by (simp add: decode_varint_def varint_spec_def decoder_as_ref_def)
next
  case (Cons b bs)
  then have lt: "doffset d < length (dbuf d)" and b: "dbuf d ! doffset d = b"
    by (auto simp: decoder_as_ref_def nth_via_drop not_le [symmetric])
  define rest where "rest = decoder_as_ref d"
  have chunk: "first_chunk n d = (if length rest < n then None else Some (take n rest))" for n
    using lt by (auto simp: first_chunk_def rest_def decoder_as_ref_def)
  have b256: "unat b < 256" by simp
  consider (1) "unat b < 64" | (2) "64 \<le> unat b" "unat b < 128"
    | (4) "128 \<le> unat b" "unat b < 192" | (8) "192 \<le> unat b"
    by linarith
  then show ?thesis
  proof cases
    case 1
    then have "b < 0x40" by (simp add: word_less_nat_alt)
    moreover have "unat b div 64 = 0" using 1 by simp
    moreover have "be_val [b] = unat b" by (simp add: be_val_def)
    ultimately show ?thesis
      using lt b Cons 1 by (simp add: decode_varint_def varint_spec_def)
  next
    case 2
    then have "\<not> b < 0x40" "b < 0x80" by (simp_all add: word_less_nat_alt)
    moreover have "unat b div 64 = 1" using 2 by simp
    moreover have "ucast (from_be_bytes (take 2 rest) :: u16) AND 0x3fff
        = (word_of_nat (be_val (take 2 rest) mod 2 ^ 14) :: u64)"
      unfolding mask_consts word_unat_eq_iff unat_and_mask
      by (simp add: unsigned_ucast_eq unat_from_be_bytes take_bit_eq_mod mod_mod_cancel unat_of_nat)
    ultimately show ?thesis
      using lt b Cons by (simp add: decode_varint_def varint_spec_def chunk rest_def)
  next
    case 4
    then have "\<not> b < 0x40" "\<not> b < 0x80" "b < 0xc0" by (simp_all add: word_less_nat_alt)
    moreover have "unat b div 64 = 2" using 4 by simp
    moreover have "ucast (from_be_bytes (take 4 rest) :: u32) AND 0x3fffffff
        = (word_of_nat (be_val (take 4 rest) mod 2 ^ 30) :: u64)"
      unfolding mask_consts word_unat_eq_iff unat_and_mask
      by (simp add: unsigned_ucast_eq unat_from_be_bytes take_bit_eq_mod mod_mod_cancel unat_of_nat)
    ultimately show ?thesis
      using lt b Cons by (simp add: decode_varint_def varint_spec_def chunk rest_def)
  next
    case 8
    then have "\<not> b < 0x40" "\<not> b < 0x80" "\<not> b < 0xc0" by (simp_all add: word_less_nat_alt)
    moreover have "unat b div 64 = 3" using 8 b256 by linarith
    moreover have "from_be_bytes (take 8 rest) AND word_of_nat MAX_VARINT
        = (word_of_nat (be_val (take 8 rest) mod 2 ^ 62) :: u64)"
      unfolding mask_consts word_unat_eq_iff unat_and_mask
      by (simp add: unat_from_be_bytes unat_of_nat)
    ultimately show ?thesis
      using lt b Cons by (simp add: decode_varint_def varint_spec_def chunk rest_def)
  qed
qed

subsection \<open>What the encoder relies on\<close>

locale lawful_buffer =
  fixes B :: "'b Buffer"
    and invar :: "'b \<Rightarrow> bool"
    and room :: "'b \<Rightarrow> nat \<Rightarrow> bool"
  assumes position_eq: "invar b \<Longrightarrow> position B b = length (as_slice B b)"
    and room_mono: "room b n \<Longrightarrow> m \<le> n \<Longrightarrow> room b m"
    and room_0: "room b 0"
    and write_all_ok: "invar b \<Longrightarrow> room b (length data) \<Longrightarrow>
      \<exists>b'. write_all B b data = Ok b' \<and> invar b' \<and> as_slice B b' = as_slice B b @ data
        \<and> (\<forall>n. room b' n \<longleftrightarrow> room b (length data + n))"
    and write_all_full: "invar b \<Longrightarrow> \<not> room b (length data) \<Longrightarrow> write_all B b data = Panic"
    and pad_to_ok: "invar b \<Longrightarrow> room b n \<Longrightarrow>
      \<exists>b'. buf_pad_to B b (position B b + n) v = Ok b' \<and> invar b'
        \<and> as_slice B b' = as_slice B b @ replicate n v \<and> (\<forall>m. room b' m \<longleftrightarrow> room b (n + m))"
    and write_at_ok: "invar b \<Longrightarrow> i < position B b \<Longrightarrow>
      \<exists>b'. write_at B b i x = Ok b' \<and> invar b' \<and> as_slice B b' = (as_slice B b)[i := x]
        \<and> room b' = room b"
    and rotate_right_ok: "invar b \<Longrightarrow> start + count \<le> position B b \<Longrightarrow>
      \<exists>b'. buf_rotate_right B b start count = Ok b' \<and> invar b' \<and> room b' = room b
        \<and> as_slice B b' = take start (as_slice B b) @ slice_rotate_right count (drop start (as_slice B b))"
    and copy_into_ok: "invar b \<Longrightarrow> i + length data \<le> position B b \<Longrightarrow>
      \<exists>b'. copy_into B b i data = Ok b' \<and> invar b' \<and> room b' = room b
        \<and> as_slice B b' = copy_slice (as_slice B b) i data"
    and truncate_ok: "invar b \<Longrightarrow>
      invar (buf_truncate B b n) \<and> as_slice B (buf_truncate B b n) = take n (as_slice B b)"
begin

text \<open>An encoder is well formed when its start lies within the bytes written.\<close>

definition wf_enc :: "'b encoder \<Rightarrow> bool" where
  "wf_enc e \<longleftrightarrow> invar (ebuf e) \<and> estart e \<le> position B (ebuf e)"

text \<open>\<open>e'\<close> is \<open>e\<close> with \<open>data\<close> appended.\<close>

definition appended :: "'b encoder \<Rightarrow> bytes \<Rightarrow> 'b encoder \<Rightarrow> bool" where
  "appended e data e' \<longleftrightarrow> wf_enc e' \<and> estart e' = estart e
     \<and> as_slice B (ebuf e') = as_slice B (ebuf e) @ data
     \<and> (\<forall>n. room (ebuf e') n \<longleftrightarrow> room (ebuf e) (length data + n))"

lemma appended_as_ref:
  "wf_enc e \<Longrightarrow> appended e data e' \<Longrightarrow> enc_as_ref B e' = enc_as_ref B e @ data"
  by (auto simp: appended_def enc_as_ref_def wf_enc_def position_eq)

lemma appended_trans:
  "appended e xs e' \<Longrightarrow> appended e' ys e'' \<Longrightarrow> appended e (xs @ ys) e''"
  by (simp add: appended_def add.assoc)

lemma appended_wf: "appended e data e' \<Longrightarrow> wf_enc e'"
  by (simp add: appended_def)

lemma encode_ok:
  assumes "wf_enc e" "room (ebuf e) (length data)"
  shows "\<exists>e'. encode B e data = Ok e' \<and> appended e data e'"
proof -
  obtain b' where "write_all B (ebuf e) data = Ok b'" "invar b'"
    "as_slice B b' = as_slice B (ebuf e) @ data" "\<forall>n. room b' n \<longleftrightarrow> room (ebuf e) (length data + n)"
    using assms write_all_ok by (metis wf_enc_def)
  then show ?thesis
    using assms by (auto simp: encode_def appended_def wf_enc_def position_eq)
qed

lemma encode_full: "wf_enc e \<Longrightarrow> \<not> room (ebuf e) (length data) \<Longrightarrow> encode B e data = Panic"
  by (simp add: encode_def wf_enc_def write_all_full)

lemma encode_byte_eq: "encode_byte B e x = encode B e [x]"
  by (simp add: encode_byte_def encode_def)

lemma enc_pad_to_ok:
  assumes "wf_enc e" "room (ebuf e) (len - enc_len B e)"
  shows "\<exists>e'. enc_pad_to B e len v = Ok e' \<and> appended e (replicate (len - enc_len B e) v) e'"
proof (cases "position B (ebuf e) < estart e + len")
  case True
  then have eq: "position B (ebuf e) + (len - enc_len B e) = estart e + len"
    using assms(1) by (simp add: enc_len_def wf_enc_def)
  obtain b' where "buf_pad_to B (ebuf e) (estart e + len) v = Ok b'" "invar b'"
    "as_slice B b' = as_slice B (ebuf e) @ replicate (len - enc_len B e) v"
    "\<forall>n. room b' n \<longleftrightarrow> room (ebuf e) (len - enc_len B e + n)"
    using assms pad_to_ok [of "ebuf e" "len - enc_len B e" v] unfolding wf_enc_def eq by blast
  then show ?thesis
    using True assms(1) by (auto simp: enc_pad_to_def appended_def wf_enc_def position_eq)
next
  case False
  then have "len - enc_len B e = 0"
    using assms(1) by (simp add: enc_len_def wf_enc_def)
  then show ?thesis
    using False assms(1) by (simp add: enc_pad_to_def appended_def)
qed

lemma reserve_ok:
  assumes "wf_enc e" "room (ebuf e) n"
  shows "\<exists>e'. reserve B e n = Ok (position B (ebuf e), e') \<and> appended e (replicate n 0) e'"
  using enc_pad_to_ok [of e "enc_len B e + n" 0] assms by (auto simp: reserve_def Let_def)

lemma overwrite_ok:
  assumes "wf_enc e" "estart e \<le> rsv" "rsv + length data \<le> position B (ebuf e)"
  shows "\<exists>e'. overwrite B e rsv data = Ok e' \<and> wf_enc e' \<and> estart e' = estart e
    \<and> room (ebuf e') = room (ebuf e)
    \<and> as_slice B (ebuf e') = copy_slice (as_slice B (ebuf e)) rsv data"
proof -
  obtain b' where b': "copy_into B (ebuf e) rsv data = Ok b'" "invar b'" "room b' = room (ebuf e)"
    "as_slice B b' = copy_slice (as_slice B (ebuf e)) rsv data"
    using assms copy_into_ok [of "ebuf e" rsv data] by (auto simp: wf_enc_def)
  moreover have "length (copy_slice (as_slice B (ebuf e)) rsv data) = position B (ebuf e)"
    using assms by (simp add: copy_slice_def wf_enc_def position_eq)
  ultimately show ?thesis
    using assms by (auto simp: overwrite_def Let_def enc_len_def wf_enc_def position_eq)
qed

end

interpretation vec: lawful_buffer "vec_buffer :: bytes Buffer" "\<lambda>_. True" "\<lambda>_ _. True"
  by unfold_locales
    (auto simp: vec_buffer_def vec_resize_def copy_slice_def slice_rotate_right_def)

definition cursor_invar :: "cursor \<Rightarrow> bool" where
  "cursor_invar c \<longleftrightarrow> cur_pos c \<le> length (cur_mem c)"

definition cursor_room :: "cursor \<Rightarrow> nat \<Rightarrow> bool" where
  "cursor_room c n \<longleftrightarrow> n = 0 \<or> cur_pos c + n \<le> length (cur_mem c)"

interpretation cur: lawful_buffer "cursor_buffer :: cursor Buffer" cursor_invar cursor_room
proof (unfold_locales, goal_cases)
  case (1 b)
  then show ?case by (simp add: cursor_buffer_def cursor_invar_def)
next
  case (2 b n m)
  then show ?case by (auto simp: cursor_room_def)
next
  case (3 b)
  then show ?case by (simp add: cursor_room_def)
next
  case (4 b data)
  then show ?case
    by (auto simp: cursor_buffer_def cursor_invar_def cursor_room_def cursor_write_all_def copy_slice_def)
next
  case (5 b data)
  then show ?case
    by (auto simp: cursor_buffer_def cursor_invar_def cursor_room_def cursor_write_all_def)
next
  case (6 b n v)
  then show ?case
    by (auto simp: cursor_buffer_def cursor_invar_def cursor_room_def cursor_pad_to_def)
next
  case (7 b i x)
  then show ?case
    by (auto simp: cursor_buffer_def cursor_invar_def cursor_room_def take_update_swap fun_eq_iff)
next
  case (8 b start count)
  then show ?case
    by (auto simp: cursor_buffer_def cursor_invar_def cursor_room_def cursor_rotate_right_def
        slice_rotate_right_def fun_eq_iff)
next
  case (9 b i data)
  then show ?case
    by (auto simp: cursor_buffer_def cursor_invar_def cursor_room_def copy_slice_def fun_eq_iff take_drop)
next
  case (10 b n)
  then show ?case
    by (auto simp: cursor_buffer_def cursor_invar_def cursor_truncate_def)
qed

subsection \<open>Variable-length integers\<close>

definition varint_size :: "nat \<Rightarrow> nat" where
  "varint_size v = (if v < 2 ^ 6 then 1 else if v < 2 ^ 14 then 2 else if v < 2 ^ 30 then 4 else 8)"

definition varint_bytes :: "nat \<Rightarrow> bytes" where
  "varint_bytes v =
     (if v < 2 ^ 6 then to_be 1 v
      else if v < 2 ^ 14 then to_be 2 (v + 2 ^ 14)
      else if v < 2 ^ 30 then to_be 4 (v + 2 * 2 ^ 30)
      else to_be 8 (v + 3 * 2 ^ 62))"

lemma length_varint_bytes [simp]: "length (varint_bytes v) = varint_size v"
  by (simp add: varint_bytes_def varint_size_def)

lemma or_shifted:
  assumes "x < 2 ^ n"
  shows "x OR push_bit n k = x + push_bit n (k :: nat)"
proof -
  have "take_bit n x AND push_bit n k = 0"
    by (rule bit_eqI) (auto simp: bit_simps)
  then show ?thesis
    using assms by (simp add: take_bit_nat_eq_self disjunctive_add_eq_or)
qed

lemma varint_tags:
  fixes v :: u64
  shows "unat v < 2 ^ 14 \<Longrightarrow> unat ((ucast v :: u16) OR push_bit 14 1) = unat v + 2 ^ 14"
    and "unat v < 2 ^ 30 \<Longrightarrow> unat ((ucast v :: u32) OR push_bit 30 2) = unat v + 2 * 2 ^ 30"
    and "unat v < 2 ^ 62 \<Longrightarrow> unat (v OR push_bit 62 3) = unat v + 3 * 2 ^ 62"
proof -
  show "unat ((ucast v :: u16) OR push_bit 14 1) = unat v + 2 ^ 14" if "unat v < 2 ^ 14"
    using or_shifted [of "unat v" 14 1] that
    by (simp add: unsigned_or_eq unsigned_ucast_eq take_bit_nat_eq_self)
  show "unat ((ucast v :: u32) OR push_bit 30 2) = unat v + 2 * 2 ^ 30" if "unat v < 2 ^ 30"
    using or_shifted [of "unat v" 30 2] that
    by (simp add: unsigned_or_eq unsigned_ucast_eq take_bit_nat_eq_self)
  show "unat (v OR push_bit 62 3) = unat v + 3 * 2 ^ 62" if "unat v < 2 ^ 62"
    using or_shifted [of "unat v" 62 3] that
    by (simp add: unsigned_or_eq)
qed

lemma encode_varint_eq:
  "encode_varint B e v = (if unat v < 2 ^ 62 then encode B e (varint_bytes (unat v)) else Panic)"
proof -
  have lt: "v < push_bit 6 1 \<longleftrightarrow> unat v < 2 ^ 6" "v < push_bit 14 1 \<longleftrightarrow> unat v < 2 ^ 14"
    "v < push_bit 30 1 \<longleftrightarrow> unat v < 2 ^ 30" "v < push_bit 62 1 \<longleftrightarrow> unat v < 2 ^ 62"
    by (simp_all add: word_less_nat_alt)
  have "to_be 1 (unat v) = [ucast v]"
    by simp
  moreover have "encode_byte B e (ucast v) = encode B e [ucast v]"
    by (simp add: encode_byte_def encode_def)
  ultimately show ?thesis
    unfolding encode_varint_def lt varint_bytes_def to_be_bytes_def
    using varint_tags [of v] by (simp del: to_be.simps)
qed

lemma take_append_exact: "length xs = n \<Longrightarrow> take n (xs @ ys) = xs"
  by simp

lemma varint_spec_tagged:
  assumes m: "m = 256 ^ (n - 1) * 64" and n: "n = 2 ^ t" and v: "v < m" and t: "t < 4"
  shows "varint_spec (to_be n (v + t * m) @ rest) = Some (v, n)"
proof -
  let ?w = "v + t * m"
  have n0: "0 < n" using n by simp
  then obtain b bs where bs: "to_be n ?w = b # bs"
    by (metis length_to_be list.exhaust list.size(3) neq0_conv)
  have "?w < (t + 1) * m"
    using v by simp
  also have "\<dots> \<le> 4 * m"
    using t by (intro mult_right_mono) simp_all
  also have "\<dots> = 256 ^ n"
    using n0 by (simp add: m power_eq_if)
  finally have w: "?w < 256 ^ n" .
  have "unat b = ?w div 256 ^ (n - 1)"
    using hd_to_be [OF n0 w] bs by simp
  then have "unat b div 64 = ?w div m"
    by (simp only: m div_mult2_eq)
  also have "\<dots> = t"
    using v by simp
  finally have tag: "unat b div 64 = t" .
  have "(2::nat) ^ (8 * n - 2) = 2 ^ (8 * (n - 1) + 6)"
    using n0 by (intro arg_cong [where f = "power 2"]) simp
  also have "\<dots> = m"
    by (simp add: m power_add power_mult)
  finally have "be_val (to_be n ?w) mod 2 ^ (8 * n - 2) = v"
    using w v by (simp add: be_val_to_be)
  moreover have "take n (b # bs @ rest) = b # bs"
    using bs take_append_exact [OF length_to_be, of n ?w rest] by simp
  moreover have "length (b # bs) = n"
    using bs length_to_be [of n ?w] by simp
  ultimately show ?thesis
    using tag n unfolding varint_spec_def bs by (simp add: Let_def)
qed

lemma varint_spec_bytes:
  assumes "v < 2 ^ 62"
  shows "varint_spec (varint_bytes v @ rest) = Some (v, varint_size v)"
proof -
  have 1: "varint_spec (to_be 1 (v + 0 * 2 ^ 6) @ rest) = Some (v, 1)" if "v < 2 ^ 6"
    using that by (intro varint_spec_tagged) simp_all
  have 2: "varint_spec (to_be 2 (v + 1 * 2 ^ 14) @ rest) = Some (v, 2)" if "v < 2 ^ 14"
    using that by (intro varint_spec_tagged) simp_all
  have 4: "varint_spec (to_be 4 (v + 2 * 2 ^ 30) @ rest) = Some (v, 4)" if "v < 2 ^ 30"
    using that by (intro varint_spec_tagged) simp_all
  have 8: "varint_spec (to_be 8 (v + 3 * 2 ^ 62) @ rest) = Some (v, 8)"
    using assms by (intro varint_spec_tagged) simp_all
  show ?thesis
    using 1 2 4 8 by (simp only: varint_bytes_def varint_size_def mult_0 mult_1 add_0_right split: if_split) blast
qed

lemma drop_to_be: "drop m (to_be (m + n) v) = to_be n v"
  by (induction n arbitrary: v) auto

lemma drop_to_be_bytes: "n \<le> 8 \<Longrightarrow> drop (8 - n) (to_be_bytes (w :: u64)) = to_be n (unat w)"
  using drop_to_be [of "8 - n" n "unat w"] by (simp add: to_be_bytes_def)

lemma nth_to_be: "i < n \<Longrightarrow> to_be n v ! i = word_of_nat (v div 256 ^ (n - 1 - i))"
proof (induction n arbitrary: v)
  case 0
  then show ?case by simp
next
  case (Suc n)
  show ?case
  proof (cases "i < n")
    case True
    then have "n - i = Suc (n - 1 - i)" by simp
    then show ?thesis
      using Suc.IH [OF True, of "v div 256"] True
      by (simp add: nth_append div_mult2_eq)
  next
    case False
    with Suc.prems have "i = n" by simp
    then show ?thesis by (simp add: nth_append)
  qed
qed

lemma encode_uint_eq:
  "encode_uint B e n v = (if 0 < n \<and> n \<le> 8 then encode B e (to_be n (unat v)) else Panic)"
  by (simp add: encode_uint_def assert_res_def drop_to_be_bytes)

context lawful_buffer
begin

lemma encode_varint_ok:
  assumes "wf_enc e" "unat v < 2 ^ 62" "room (ebuf e) (varint_size (unat v))"
  shows "\<exists>e'. encode_varint B e v = Ok e' \<and> appended e (varint_bytes (unat v)) e'"
  using encode_ok [of e "varint_bytes (unat v)"] assms by (simp add: encode_varint_eq)

lemma encode_uint_ok:
  assumes "wf_enc e" "0 < n" "n \<le> 8" "room (ebuf e) n"
  shows "\<exists>e'. encode_uint B e n v = Ok e' \<and> appended e (to_be n (unat v)) e'"
  using encode_ok [of e "to_be n (unat v)"] assms by (simp add: encode_uint_eq)

lemma bind_encode_ok:
  assumes "\<exists>e'. r = Ok e' \<and> appended e xs e'" "wf_enc e" "room (ebuf e) (length xs + length data)"
  shows "\<exists>e'. bind_res r (\<lambda>e'. encode B e' data) = Ok e' \<and> appended e (xs @ data) e'"
proof -
  obtain e1 where e1: "r = Ok e1" "appended e xs e1"
    using assms(1) by blast
  then have "room (ebuf e1) (length data)"
    using assms(3) by (simp add: appended_def)
  then obtain e2 where "encode B e1 data = Ok e2" "appended e1 data e2"
    using encode_ok [OF appended_wf [OF e1(2)]] by blast
  then show ?thesis
    using e1 appended_trans by auto
qed

lemma encode_vec_ok:
  assumes "wf_enc e" "0 < n" "n \<le> 8" "length v < 2 ^ 64" "room (ebuf e) (n + length v)"
  shows "\<exists>e'. encode_vec B e n v = Ok e' \<and> appended e (to_be n (length v) @ v) e'"
proof -
  have "unat (word_of_nat (length v) :: u64) = length v"
    using assms(4) by (simp add: unat_of_nat)
  moreover have "room (ebuf e) n"
    using assms(5) room_mono by (metis le_add1)
  ultimately have "\<exists>e'. encode_uint B e n (word_of_nat (length v)) = Ok e'
      \<and> appended e (to_be n (length v)) e'"
    using encode_uint_ok [of e n "word_of_nat (length v)"] assms by simp
  then show ?thesis
    unfolding encode_vec_def using assms by (intro bind_encode_ok) simp_all
qed

lemma encode_vvec_ok:
  assumes "wf_enc e" "length v < 2 ^ 62" "room (ebuf e) (varint_size (length v) + length v)"
  shows "\<exists>e'. encode_vvec B e v = Ok e' \<and> appended e (varint_bytes (length v) @ v) e'"
proof -
  have "unat (word_of_nat (length v) :: u64) = length v"
    using assms(2) by (simp add: unat_of_nat)
  moreover have "room (ebuf e) (varint_size (length v))"
    using assms(3) room_mono by (metis le_add1)
  ultimately have "\<exists>e'. encode_len B e (length v) = Ok e' \<and> appended e (varint_bytes (length v)) e'"
    using encode_varint_ok [of e "word_of_nat (length v)"] assms by (simp add: encode_len_def)
  then show ?thesis
    unfolding encode_vvec_def using assms by (intro bind_encode_ok) simp_all
qed

end

subsection \<open>Length-prefixed blocks written by a closure\<close>

text \<open>The high part of a varint of more than one byte, as \<open>encode_vvec_with\<close> computes it.\<close>

lemma varint_high_low:
  assumes "unat (v :: u64) < 2 ^ 62" "2 ^ 6 \<le> unat v"
  shows "\<exists>count bits. vvec_high_bits v = Some (count, bits) \<and> 0 < count \<and> count \<le> 8
    \<and> to_be count (unat (drop_bit 8 v OR bits)) @ [ucast (v AND 0xff)] = varint_bytes (unat v)
    \<and> varint_size (unat v) = Suc count"
proof -
  have lt: "v < push_bit 14 1 \<longleftrightarrow> unat v < 2 ^ 14" "v < push_bit 30 1 \<longleftrightarrow> unat v < 2 ^ 30"
    "v < push_bit 62 1 \<longleftrightarrow> unat v < 2 ^ 62"
    by (simp_all add: word_less_nat_alt)
  have ff: "(0xff :: u64) = mask 8"
    by (simp add: mask_eq_exp_minus_1)
  have low: "(ucast (v AND 0xff) :: u8) = word_of_nat (unat v + k * 256)" for k
  proof -
    have "unat (ucast (v AND 0xff) :: u8) = unat v mod 256"
      by (simp only: ff unsigned_ucast_eq unat_and_mask) (simp add: take_bit_eq_mod)
    then show ?thesis
      unfolding word_unat_eq_iff unat_u8_of_nat by simp
  qed
  have high: "unat (drop_bit 8 v OR push_bit n k) = (unat v + k' * 256) div 256"
    if "unat v < 2 ^ (n + 8)" "unat (push_bit n k :: u64) = push_bit n (unat k)" "k' = push_bit n (unat k)" for n k k'
  proof -
    have "unat v div 256 < 2 ^ n"
      using that(1) by (simp add: power_add less_mult_imp_div_less)
    moreover have "unat (drop_bit 8 v) = unat v div 256"
      by (simp add: unat_drop_bit_eq) (simp add: drop_bit_eq_div)
    ultimately show ?thesis
      using that(2,3) by (simp add: unsigned_or_eq or_shifted)
  qed
  have step: "to_be (Suc n) (unat v + k * 256) =
      to_be n ((unat v + k * 256) div 256) @ [ucast (v AND 0xff)]" for n k
    by (simp add: low [of k])
  consider (2) "unat v < 2 ^ 14" | (4) "2 ^ 14 \<le> unat v" "unat v < 2 ^ 30" | (8) "2 ^ 30 \<le> unat v"
    by linarith
  then show ?thesis
  proof cases
    case 2
    have "unat (drop_bit 8 v OR push_bit 6 1) = (unat v + 64 * 256) div 256"
      using 2 by (intro high) simp_all
    moreover have "vvec_high_bits v = Some (1, push_bit 6 1)"
      using 2 assms(1) unfolding vvec_high_bits_def lt by simp
    moreover have "varint_bytes (unat v) = to_be (Suc 1) (unat v + 64 * 256)"
      using 2 assms(2) by (simp only: varint_bytes_def Suc_1) simp
    moreover have "varint_size (unat v) = Suc 1"
      using 2 assms(2) by (simp add: varint_size_def)
    ultimately show ?thesis
      by (intro exI [where x = "1::nat"] exI [where x = "push_bit 6 1"])
        (simp only: step zero_less_one one_le_numeral simp_thms)
  next
    case 4
    have "unat (drop_bit 8 v OR push_bit 22 2) = (unat v + 8388608 * 256) div 256"
      using 4 by (intro high) simp_all
    moreover have "vvec_high_bits v = Some (3, push_bit 22 2)"
      using 4 assms(1) unfolding vvec_high_bits_def lt by simp
    moreover have "varint_bytes (unat v) = to_be (Suc 3) (unat v + 8388608 * 256)"
      using 4 assms(2) by (simp add: varint_bytes_def del: to_be.simps)
    moreover have "varint_size (unat v) = Suc 3"
      using 4 assms(2) by (simp add: varint_size_def)
    moreover have "(0::nat) < 3" "(3::nat) \<le> 8"
      by simp_all
    ultimately show ?thesis
      by (intro exI [where x = "3::nat"] exI [where x = "push_bit 22 2"]) (simp only: step simp_thms)
  next
    case 8
    have "unat (drop_bit 8 v OR push_bit 54 3) = (unat v + 54043195528445952 * 256) div 256"
      using 8 assms(1) by (intro high) simp_all
    moreover have "vvec_high_bits v = Some (7, push_bit 54 3)"
      using 8 assms(1) unfolding vvec_high_bits_def lt by simp
    moreover have "varint_bytes (unat v) = to_be (Suc 7) (unat v + 54043195528445952 * 256)"
      using 8 assms(2) by (simp add: varint_bytes_def del: to_be.simps)
    moreover have "varint_size (unat v) = Suc 7"
      using 8 assms(2) by (simp add: varint_size_def)
    moreover have "(0::nat) < 7" "(7::nat) \<le> 8"
      by simp_all
    ultimately show ?thesis
      by (intro exI [where x = "7::nat"] exI [where x = "push_bit 54 3"]) (simp only: step simp_thms)
  qed
qed

text \<open>The slice after \<open>write_len_at\<close>: \<open>n\<close> length bytes at \<open>start\<close>.\<close>

lemma copy_slice_nth:
  assumes "i + length data \<le> length xs" "j < length xs"
  shows "copy_slice xs i data ! j = (if i \<le> j \<and> j < i + length data then data ! (j - i) else xs ! j)"
  using assms by (auto simp: copy_slice_def nth_append)

lemma length_copy_slice [simp]:
  "i + length data \<le> length xs \<Longrightarrow> length (copy_slice xs i data) = length xs"
  by (simp add: copy_slice_def)

lemma copy_slice_append:
  "copy_slice (xs @ ys @ zs) (length xs) data = xs @ data @ drop (length data) (ys @ zs)"
  by (simp add: copy_slice_def)

context lawful_buffer
begin

lemma write_len_at_ok:
  assumes "invar b" "start + n \<le> position B b" "set is \<subseteq> {..<n}" "n \<le> k"
  shows "\<exists>b'. write_len_at B b start k len is = Ok b' \<and> invar b' \<and> room b' = room b
    \<and> length (as_slice B b') = length (as_slice B b)
    \<and> (\<forall>j < length (as_slice B b). as_slice B b' ! j =
        (if start \<le> j \<and> j - start \<in> set is
         then word_of_nat (len div 2 ^ (8 * (k - (j - start) - 1)) mod 256)
         else as_slice B b ! j))"
  using assms
proof (induction "is" arbitrary: b)
  case Nil
  then show ?case by simp
next
  case (Cons i "is")
  let ?x = "word_of_nat (len div 2 ^ (8 * (k - i - 1)) mod 256) :: u8"
  have i: "start + i < position B b"
    using Cons.prems by simp
  then obtain b1 where b1: "write_at B b (start + i) ?x = Ok b1" "invar b1"
    "as_slice B b1 = (as_slice B b)[start + i := ?x]" "room b1 = room b"
    using write_at_ok Cons.prems(1) by blast
  then have "start + n \<le> position B b1"
    using Cons.prems by (simp add: position_eq)
  then obtain b2 where b2: "write_len_at B b1 start k len is = Ok b2" "invar b2" "room b2 = room b1"
    "length (as_slice B b2) = length (as_slice B b1)"
    "\<forall>j < length (as_slice B b1). as_slice B b2 ! j =
        (if start \<le> j \<and> j - start \<in> set is
         then word_of_nat (len div 2 ^ (8 * (k - (j - start) - 1)) mod 256)
         else as_slice B b1 ! j)"
    using Cons.IH [of b1] b1 Cons.prems by auto
  have "as_slice B b2 ! j =
        (if start \<le> j \<and> j - start \<in> set (i # is)
         then word_of_nat (len div 2 ^ (8 * (k - (j - start) - 1)) mod 256)
         else as_slice B b ! j)" if "j < length (as_slice B b)" for j
    using b2(5) b1(3) that by (auto simp: nth_list_update)
  then show ?case
    using b1 b2 by simp
qed

lemma write_len_at_slice:
  assumes "invar b" "start + n \<le> position B b"
  shows "\<exists>b'. write_len_at B b start n len [0..<n] = Ok b' \<and> invar b' \<and> room b' = room b
    \<and> as_slice B b' = copy_slice (as_slice B b) start (to_be n len)"
proof -
  obtain b' where b': "write_len_at B b start n len [0..<n] = Ok b'" "invar b'" "room b' = room b"
    "length (as_slice B b') = length (as_slice B b)"
    "\<forall>j < length (as_slice B b). as_slice B b' ! j =
        (if start \<le> j \<and> j - start \<in> set [0..<n]
         then word_of_nat (len div 2 ^ (8 * (n - (j - start) - 1)) mod 256)
         else as_slice B b ! j)"
    using write_len_at_ok [OF assms _ order_refl, of "[0..<n]" len]
    by (metis atLeast_upt order_refl)
  have byte: "(word_of_nat (len div 2 ^ (8 * (n - i - 1)) mod 256) :: u8) = to_be n len ! i" if "i < n" for i
  proof -
    have "(2::nat) ^ (8 * (n - i - 1)) = 256 ^ (n - 1 - i)"
      by (simp add: power_mult)
    then show ?thesis
      using that by (simp add: nth_to_be word_unat_eq_iff unat_of_nat del: of_nat_mod)
  qed
  have "as_slice B b' = copy_slice (as_slice B b) start (to_be n len)"
  proof (rule nth_equalityI)
    show "length (as_slice B b') = length (copy_slice (as_slice B b) start (to_be n len))"
      using b'(4) assms by (simp add: position_eq)
    fix j assume "j < length (as_slice B b')"
    then have j: "j < length (as_slice B b)" using b'(4) by simp
    then have "as_slice B b' ! j = (if start \<le> j \<and> j - start < n
        then word_of_nat (len div 2 ^ (8 * (n - (j - start) - 1)) mod 256) else as_slice B b ! j)"
      using b'(5) by simp
    also have "\<dots> = (if start \<le> j \<and> j - start < n then to_be n len ! (j - start) else as_slice B b ! j)"
      by (intro if_cong refl byte) blast
    finally have "as_slice B b' ! j = (if start \<le> j \<and> j - start < n then to_be n len ! (j - start) else as_slice B b ! j)" .
    moreover have "start \<le> j \<and> j - start < n \<longleftrightarrow> start \<le> j \<and> j < start + n"
      by auto
    ultimately show "as_slice B b' ! j = copy_slice (as_slice B b) start (to_be n len) ! j"
      using j assms by (simp add: copy_slice_nth position_eq)
  qed
  then show ?thesis
    using b' by blast
qed

text \<open>
  A closure that appends \<open>content\<close>. (\<open>FnOnce(&mut Self)\<close> can do other things to the encoder;
  all uses in the library append.)
\<close>

definition appends :: "('b encoder \<Rightarrow> ('b encoder) res) \<Rightarrow> bytes \<Rightarrow> bool" where
  "appends f content \<longleftrightarrow> (\<forall>e. wf_enc e \<longrightarrow> room (ebuf e) (length content) \<longrightarrow>
     (\<exists>e'. f e = Ok e' \<and> appended e content e'))"

lemma appends_encode: "appends (\<lambda>e. encode B e content) content"
  by (simp add: appends_def encode_ok)

lemma encode_vvec_with_ok:
  assumes e: "wf_enc e" and len: "length content < 2 ^ 62"
    and rm: "room (ebuf e) (varint_size (length content) + length content)"
    and f: "appends f content"
  shows "\<exists>e'. encode_vvec_with B e f = Ok e' \<and> appended e (varint_bytes (length content) @ content) e'"
proof -
  let ?v = "word_of_nat (length content) :: u64"
  let ?start = "position B (ebuf e)"
  have v: "unat ?v = length content"
    using len by (simp add: unat_of_nat)
  have start: "?start = length (as_slice B (ebuf e))"
    using e by (simp add: wf_enc_def position_eq)
  have "1 \<le> varint_size (length content)"
    by (simp add: varint_size_def)
  then have rm1: "room (ebuf e) (1 + length content)"
    using rm room_mono by (metis add_le_mono1)
  then have "room (ebuf e) (length [0 :: u8])"
    using room_mono [of "ebuf e" "1 + length content" 1] by simp
  then obtain e1 where "encode B e [0] = Ok e1" and e1: "appended e [0] e1"
    using encode_ok [OF e] by blast
  then have w: "write_all B (ebuf e) [0] = Ok (ebuf e1)" "e\<lparr>ebuf := ebuf e1\<rparr> = e1"
    by (auto simp: encode_def)
  have "room (ebuf e1) (length content)"
    using e1 rm1 by (simp add: appended_def)
  then obtain e2 where f2: "f e1 = Ok e2" and e2: "appended e1 content e2"
    using f appended_wf [OF e1] unfolding appends_def by blast
  have e2': "appended e ([0] @ content) e2"
    using e1 e2 by (rule appended_trans)
  then have s2: "as_slice B (ebuf e2) = as_slice B (ebuf e) @ 0 # content" "invar (ebuf e2)"
    and r2: "\<forall>n. room (ebuf e2) n = room (ebuf e) (1 + length content + n)"
    by (auto simp: appended_def wf_enc_def)
  have p2: "position B (ebuf e2) = ?start + 1 + length content"
    using s2 start by (simp add: position_eq)
  then obtain b3 where b3: "write_at B (ebuf e2) ?start (ucast (?v AND 0xff)) = Ok b3" "invar b3"
    "as_slice B b3 = (as_slice B (ebuf e2))[?start := ucast (?v AND 0xff)]" "room b3 = room (ebuf e2)"
    using write_at_ok [OF s2(2), of ?start] by force
  have s3: "as_slice B b3 = as_slice B (ebuf e) @ ucast (?v AND 0xff) # content"
    using b3(3) s2(1) start by simp
  have start_le: "estart e2 = estart e" "estart e \<le> ?start"
    using e e2' by (simp_all add: wf_enc_def appended_def)
  note run = encode_vvec_with_def Let_def w f2 p2 b3(1)
  show ?thesis
  proof (cases "?v < push_bit 6 1")
    case True
    then have small: "length content < 2 ^ 6"
      using v by (simp add: word_less_nat_alt)
    have "ucast (?v AND 0xff) = (word_of_nat (length content) :: u8)"
    proof -
      have "(0xff :: u64) = mask 8" by (simp add: mask_eq_exp_minus_1)
      then have "unat (ucast (?v AND 0xff) :: u8) = length content mod 256"
        by (simp only: unsigned_ucast_eq unat_and_mask v) (simp add: take_bit_eq_mod)
      then show ?thesis
        unfolding word_unat_eq_iff unat_u8_of_nat .
    qed
    then have "varint_bytes (length content) = [ucast (?v AND 0xff)]"
      using small by (simp add: varint_bytes_def)
    then show ?thesis
      using True small b3(1,2,4) s3 r2 start_le start by (simp add: run appended_def wf_enc_def position_eq varint_size_def)
  next
    case False
    then have big: "2 ^ 6 \<le> length content"
      using v by (simp add: word_less_nat_alt)
    obtain count bits where hb: "vvec_high_bits ?v = Some (count, bits)" and cb: "0 < count" "count \<le> 8"
      and hl: "to_be count (unat (drop_bit 8 ?v OR bits)) @ [ucast (?v AND 0xff)] = varint_bytes (length content)"
        "varint_size (length content) = Suc count"
      using varint_high_low [of ?v] len big unfolding v by blast
    let ?high = "to_be count (unat (drop_bit 8 ?v OR bits))"
    let ?e3 = "e2\<lparr>ebuf := b3\<rparr>"
    have wf3: "wf_enc ?e3"
      using b3(2) s3 start_le start by (simp add: wf_enc_def position_eq)
    have "room (ebuf ?e3) (count)"
      using b3(4) r2 rm hl(2) by (simp add: add.commute add.left_commute)
    then obtain e4 where e4: "encode_uint B ?e3 (count) (drop_bit 8 ?v OR bits) = Ok e4"
        "appended ?e3 ?high e4"
      using encode_uint_ok [OF wf3 cb] by blast
    have s4: "as_slice B (ebuf e4) = as_slice B (ebuf e) @ ucast (?v AND 0xff) # content @ ?high" "invar (ebuf e4)"
      using e4(2) s3 by (simp_all add: appended_def wf_enc_def)
    have "?start + count \<le> position B (ebuf e4)"
      using s4 start by (simp add: position_eq)
    then obtain b5 where b5: "buf_rotate_right B (ebuf e4) ?start (count) = Ok b5" "invar b5"
      "room b5 = room (ebuf e4)"
      "as_slice B b5 = take ?start (as_slice B (ebuf e4)) @ slice_rotate_right (count) (drop ?start (as_slice B (ebuf e4)))"
      using rotate_right_ok [OF s4(2)] by blast
    have "as_slice B b5 = as_slice B (ebuf e) @ ?high @ [ucast (?v AND 0xff)] @ content"
      using b5(4) s4(1) start by (simp add: slice_rotate_right_def)
    then have s5: "as_slice B b5 = as_slice B (ebuf e) @ varint_bytes (length content) @ content"
      using hl(1) by (metis append.assoc)
    have "encode_vvec_with B e f = Ok (e4\<lparr>ebuf := b5\<rparr>)"
      using False e4(1) b5(1) hb by (simp add: run)
    moreover have "appended e (varint_bytes (length content) @ content) (e4\<lparr>ebuf := b5\<rparr>)"
    proof -
      have "room b5 n \<longleftrightarrow> room (ebuf e) (varint_size (length content) + length content + n)" for n
      proof -
        have "room b5 n \<longleftrightarrow> room b3 (count + n)"
          using b5(3) e4(2) by (simp add: appended_def)
        also have "\<dots> \<longleftrightarrow> room (ebuf e) (1 + length content + (count + n))"
          using b3(4) r2 by simp
        finally show ?thesis
          using hl(2) by (simp add: add.commute add.left_commute)
      qed
      then show ?thesis
        using e4(2) b5(2) s5 start_le start by (simp add: appended_def wf_enc_def position_eq)
    qed
    ultimately show ?thesis by blast
  qed
qed

end

context lawful_buffer
begin

lemma encode_vec_with_run:
  assumes e: "wf_enc e" and f: "appends f content"
    and rm: "room (ebuf e) (n - enc_len B e + length content)"
    and fits: "n \<le> n - enc_len B e + length content"
    and len: "n - enc_len B e + length content - n < 2 ^ (n * 8)"
  shows "\<exists>e'. encode_vec_with B e n f = Ok e' \<and> wf_enc e' \<and> estart e' = estart e
    \<and> as_slice B (ebuf e') = as_slice B (ebuf e)
        @ to_be n (n - enc_len B e + length content - n)
        @ drop n (replicate (n - enc_len B e) 0 @ content)"
proof -
  let ?pad = "n - enc_len B e"
  let ?start = "position B (ebuf e)"
  let ?len = "?pad + length content - n"
  have start: "?start = length (as_slice B (ebuf e))"
    using e by (simp add: wf_enc_def position_eq)
  have "room (ebuf e) ?pad"
    using rm room_mono by (metis le_add1)
  then obtain e1 where e1: "enc_pad_to B e n 0 = Ok e1" "appended e (replicate ?pad 0) e1"
    using enc_pad_to_ok [OF e] by blast
  have "room (ebuf e1) (length content)"
    using e1(2) rm by (simp add: appended_def)
  then obtain e2 where e2: "f e1 = Ok e2" "appended e1 content e2"
    using f appended_wf [OF e1(2)] unfolding appends_def by blast
  have a2: "appended e (replicate ?pad 0 @ content) e2"
    using e1(2) e2(2) by (rule appended_trans)
  then have inv2: "invar (ebuf e2)" and start2: "estart e2 = estart e"
    and s2: "as_slice B (ebuf e2) = as_slice B (ebuf e) @ replicate ?pad 0 @ content"
    by (simp_all add: appended_def wf_enc_def)
  have p2: "position B (ebuf e2) = ?start + (?pad + length content)"
    using inv2 s2 start by (simp add: position_eq)
  then have "?start + n \<le> position B (ebuf e2)"
    using fits by simp
  then obtain b3 where b3: "write_len_at B (ebuf e2) ?start n ?len [0..<n] = Ok b3" "invar b3"
    "as_slice B b3 = copy_slice (as_slice B (ebuf e2)) ?start (to_be n ?len)"
    using write_len_at_slice [OF inv2] by blast
  have s3: "as_slice B b3 = as_slice B (ebuf e) @ to_be n ?len @ drop n (replicate ?pad 0 @ content)"
    using b3(3) copy_slice_append [of "as_slice B (ebuf e)" "replicate ?pad 0" content "to_be n ?len"]
    unfolding s2 start by simp
  have "encode_vec_with B e n f = Ok (e2\<lparr>ebuf := b3\<rparr>)"
    using e1(1) e2(1) p2 b3(1) len fits by (simp add: encode_vec_with_def Let_def)
  moreover have "wf_enc (e2\<lparr>ebuf := b3\<rparr>)"
    using b3(2) s3 start2 start e by (simp add: wf_enc_def position_eq)
  ultimately show ?thesis
    using s3 start2 by simp
qed

lemma encode_vec_with_short:
  assumes e: "wf_enc e" and f: "appends f content"
    and rm: "room (ebuf e) (n - enc_len B e + length content)"
    and short: "n - enc_len B e + length content < n"
  shows "encode_vec_with B e n f = Panic"
proof -
  have start: "position B (ebuf e) = length (as_slice B (ebuf e))"
    using e by (simp add: wf_enc_def position_eq)
  have "room (ebuf e) (n - enc_len B e)"
    using rm room_mono by (metis le_add1)
  then obtain e1 where e1: "enc_pad_to B e n 0 = Ok e1" "appended e (replicate (n - enc_len B e) 0) e1"
    using enc_pad_to_ok [OF e] by blast
  have "room (ebuf e1) (length content)"
    using e1(2) rm by (simp add: appended_def)
  then obtain e2 where e2: "f e1 = Ok e2" "appended e1 content e2"
    using f appended_wf [OF e1(2)] unfolding appends_def by blast
  have "position B (ebuf e2) = position B (ebuf e) + (n - enc_len B e + length content)"
    using appended_trans [OF e1(2) e2(2)] start by (simp add: appended_def wf_enc_def position_eq)
  then show ?thesis
    using e1(1) e2(1) short by (simp add: encode_vec_with_def Let_def)
qed

end

lemma vec_simps [simp]:
  "position vec_buffer b = length b" "as_slice vec_buffer b = b"
  "write_all vec_buffer b data = Ok (b @ data)"
  "buf_truncate vec_buffer b n = take n b"
  by (simp_all add: vec_buffer_def)

lemma encode_vec_buffer [simp]: "encode vec_buffer e data = Ok (e\<lparr>ebuf := ebuf e @ data\<rparr>)"
  by (simp add: encode_def)

lemma vec_enc_simps:
  "enc_len vec_buffer e = length (ebuf e) - estart e" "enc_as_ref vec_buffer e = drop (estart e) (ebuf e)"
  by (simp_all add: enc_len_def enc_as_ref_def)

lemma decode_take:
  "n \<le> length rest \<Longrightarrow>
   decode \<lparr>dbuf = pre @ rest, doffset = length pre\<rparr> n
     = (Some (take n rest), \<lparr>dbuf = pre @ rest, doffset = length pre + n\<rparr>)"
  by (simp add: decode_def remaining_def)

lemma decode_varint_bytes:
  assumes "v < 2 ^ 62"
  shows "decode_varint \<lparr>dbuf = pre @ varint_bytes v @ rest, doffset = length pre\<rparr>
    = (Some (word_of_nat v),
       \<lparr>dbuf = pre @ varint_bytes v @ rest, doffset = length pre + varint_size v\<rparr>)"
proof -
  let ?d = "\<lparr>dbuf = pre @ varint_bytes v @ rest, doffset = length pre\<rparr>"
  have "wf_decoder ?d"
    by (simp add: wf_decoder_def)
  then show ?thesis
    using varint_spec_bytes [OF assms, of rest] decode_varint_spec [of ?d]
    by (simp add: decoder_as_ref_def)
qed

lemma decode_vvec_bytes:
  assumes "length v < 2 ^ 62"
  shows "decode_vvec \<lparr>dbuf = pre @ varint_bytes (length v) @ v @ rest, doffset = length pre\<rparr>
    = (Some v, \<lparr>dbuf = pre @ varint_bytes (length v) @ v @ rest,
                doffset = length pre + varint_size (length v) + length v\<rparr>)"
proof -
  have "unat (word_of_nat (length v) :: u64) = length v"
    using assms by (simp add: unat_of_nat)
  moreover have "length v \<le> USIZE_MAX"
    using assms by simp
  ultimately show ?thesis
    using decode_varint_bytes [OF assms, of pre "v @ rest"]
      decode_take [of "length v" "v @ rest" "pre @ varint_bytes (length v)"]
    by (simp add: decode_vvec_def decode_checked_def)
qed

lemma decode_n_bytes:
  assumes "0 < n" "n \<le> 8" "v < 256 ^ n"
  shows "decode_n \<lparr>dbuf = pre @ to_be n v @ rest, doffset = length pre\<rparr> n
    = Ok (Some (word_of_nat v), \<lparr>dbuf = pre @ to_be n v @ rest, doffset = length pre + n\<rparr>)"
proof (cases "n = 1")
  case True
  then have "(ucast (word_of_nat v :: u8) :: u64) = word_of_nat v"
    using assms(3) by (simp add: word_unat_eq_iff unsigned_ucast_eq take_bit_nat_eq_self unat_of_nat)
  then show ?thesis
    using True by (simp add: decode_n_def remaining_def nth_append)
next
  case False
  have "be_val (replicate k 0 @ bs) = be_val bs" for k bs
    by (induction bs rule: rev_induct) (simp_all flip: append_assoc, induction k, simp_all add: be_val_def)
  then have "(from_be_bytes (replicate (8 - n) 0 @ to_be n v) :: u64) = word_of_nat v"
    using assms(3) by (simp add: from_be_bytes_def be_val_to_be)
  then show ?thesis
    using assms False by (simp add: decode_n_def remaining_def Let_def)
qed

lemma decode_vec_bytes:
  assumes "0 < n" "n \<le> 8" "length v < 256 ^ n" "length v < 2 ^ 64"
  shows "decode_vec \<lparr>dbuf = pre @ to_be n (length v) @ v @ rest, doffset = length pre\<rparr> n
    = Ok (Some v, \<lparr>dbuf = pre @ to_be n (length v) @ v @ rest, doffset = length pre + n + length v\<rparr>)"
proof -
  have "unat (word_of_nat (length v) :: u64) = length v"
    using assms(4) by (simp add: unat_of_nat)
  moreover have "length v \<le> USIZE_MAX"
    using assms(4) by simp
  ultimately show ?thesis
    using assms decode_take [of "length v" "v @ rest" "pre @ to_be n (length v)"]
    by (simp add: decode_vec_def decode_checked_def decode_n_bytes)
qed

subsection \<open>Properties\<close>

text \<open>
  C16: Encoding any \<open>u64\<close> below \<open>2^62\<close> as a varint succeeds, takes \<open>varint_len\<close> bytes, and decoding at
  the position where it was written gives the value back and leaves the cursor right after
  it, whatever follows.
\<close>

theorem varint_roundtrip:
  assumes "unat v < 2 ^ 62" and "estart e \<le> length (ebuf e)"
  shows "\<exists>e'. encode_varint vec_buffer e v = Ok e'
    \<and> varint_len (unat v) = Ok (enc_len vec_buffer e' - enc_len vec_buffer e)
    \<and> (\<forall>rest. decode_varint \<lparr>dbuf = enc_as_ref vec_buffer e' @ rest, doffset = enc_len vec_buffer e\<rparr>
        = (Some v, \<lparr>dbuf = enc_as_ref vec_buffer e' @ rest, doffset = enc_len vec_buffer e'\<rparr>))"
proof -
  let ?bs = "varint_bytes (unat v)"
  have "encode_varint vec_buffer e v = Ok (e\<lparr>ebuf := ebuf e @ ?bs\<rparr>)"
    using assms(1) by (simp add: encode_varint_eq)
  moreover have "varint_len (unat v) = Ok (varint_size (unat v))"
    using assms(1) by (simp add: varint_len_def varint_size_def)
  ultimately show ?thesis
    using assms decode_varint_bytes [OF assms(1), of "drop (estart e) (ebuf e)"]
    by (simp add: vec_enc_simps)
qed

theorem varint_roundtrip_witness:
  "\<exists>e'. encode_varint vec_buffer \<lparr>ebuf = [7, 8], estart = 1\<rparr> 15293 = Ok e'
    \<and> varint_len 15293 = Ok (enc_len vec_buffer e' - 1)
    \<and> (\<forall>rest. decode_varint \<lparr>dbuf = enc_as_ref vec_buffer e' @ rest, doffset = 1\<rparr>
        = (Some 15293, \<lparr>dbuf = enc_as_ref vec_buffer e' @ rest, doffset = enc_len vec_buffer e'\<rparr>))"
proof -
  have "enc_len vec_buffer \<lparr>ebuf = [7, 8 :: u8], estart = 1\<rparr> = 1" "unat (15293 :: u64) = 15293"
    by (simp_all add: enc_len_def)
  with varint_roundtrip [of 15293 "\<lparr>ebuf = [7, 8], estart = 1\<rparr>"] show ?thesis
    by simp
qed

text \<open>
  C17: \<open>decode_varint\<close> is the RFC 9000 varint on every input: it fails, leaving the decoder
  unchanged, exactly when the bytes announced by the two top bits of the first byte are not
  all there; otherwise the value is the big-endian value of those bytes without the two
  bits, is at most \<open>MAX_VARINT\<close>, and the cursor moves by that many bytes and stays inside the
  buffer.
\<close>

theorem decode_varint_reference:
  assumes "wf_decoder d"
  shows "case varint_spec (decoder_as_ref d) of
       None \<Rightarrow> decode_varint d = (None, d)
     | Some (v, n) \<Rightarrow>
         decode_varint d = (Some (word_of_nat v), d\<lparr>doffset := doffset d + n\<rparr>)
         \<and> v \<le> MAX_VARINT \<and> n \<in> {1, 2, 4, 8} \<and> wf_decoder (d\<lparr>doffset := doffset d + n\<rparr>)"
proof (cases "varint_spec (decoder_as_ref d)")
  case None
  then show ?thesis
    using decode_varint_spec [OF assms] by simp
next
  case (Some vn)
  then obtain v n where vn: "varint_spec (decoder_as_ref d) = Some (v, n)" by (cases vn) auto
  then show ?thesis
    using decode_varint_spec [OF assms] varint_spec_bounds [OF vn] assms
    by (simp add: wf_decoder_def remaining_def)
qed

theorem decode_varint_reference_witness:
  "decode_varint (decoder_new [0x7b, 0xbd, 0xff])
     = (Some 15293, (decoder_new [0x7b, 0xbd, 0xff])\<lparr>doffset := 2\<rparr>)"
proof -
  have "wf_decoder (decoder_new [0x7b, 0xbd, 0xff])"
    by (simp add: wf_decoder_def decoder_new_def)
  moreover have "varint_spec (decoder_as_ref (decoder_new [0x7b, 0xbd, 0xff])) = Some (15293, 2)"
    by (simp add: varint_spec_def decoder_as_ref_def decoder_new_def be_val_def)
  ultimately show ?thesis
    using decode_varint_reference [of "decoder_new [0x7b, 0xbd, 0xff]"] by (simp add: decoder_new_def)
qed

text \<open>
  C15: The in-place length insertion of \<open>encode_vvec_with\<close> (spare byte, high bytes appended,
  rotation) gives the same buffer as encoding the finished block with \<open>encode_vvec\<close>.
\<close>

theorem encode_vvec_with_eq:
  assumes "length content < 2 ^ 62" and "estart e \<le> length (ebuf e)"
    and "\<forall>e. f e = Ok (e\<lparr>ebuf := ebuf e @ content\<rparr>)"
  shows "encode_vvec_with vec_buffer e f = encode_vvec vec_buffer e content"
proof -
  have "vec.appends f content"
    using assms(3) by (simp add: vec.appends_def vec.appended_def vec.wf_enc_def)
  moreover have wf: "vec.wf_enc e"
    using assms(2) by (simp add: vec.wf_enc_def)
  ultimately obtain e1 where e1: "encode_vvec_with vec_buffer e f = Ok e1"
    "vec.appended e (varint_bytes (length content) @ content) e1"
    using vec.encode_vvec_with_ok assms(1) by blast
  obtain e2 where e2: "encode_vvec vec_buffer e content = Ok e2"
    "vec.appended e (varint_bytes (length content) @ content) e2"
    using vec.encode_vvec_ok [OF wf assms(1)] by blast
  have "e1 = e2"
    using e1(2) e2(2) by (simp add: vec.appended_def)
  then show ?thesis
    using e1 e2 by simp
qed

theorem encode_vvec_with_eq_witness:
  "encode_vvec_with vec_buffer \<lparr>ebuf = [9], estart = 0\<rparr> (\<lambda>e. Ok (e\<lparr>ebuf := ebuf e @ replicate 70 5\<rparr>))
    = Ok \<lparr>ebuf = 9 # 0x40 # 70 # replicate 70 5, estart = 0\<rparr>"
proof -
  have "encode_vvec_with vec_buffer \<lparr>ebuf = [9], estart = 0\<rparr> (\<lambda>e. Ok (e\<lparr>ebuf := ebuf e @ replicate 70 5\<rparr>))
      = encode_vvec vec_buffer \<lparr>ebuf = [9], estart = 0\<rparr> (replicate 70 5)"
    by (rule encode_vvec_with_eq) simp_all
  moreover have "varint_bytes 70 = [0x40, 70]"
    by (simp add: varint_bytes_def to_be_numeral)
  ultimately show ?thesis
    by (simp add: encode_vvec_def encode_len_def encode_varint_eq)
qed



text \<open>
  C19: The chunked \<open>skip_while\<close> skips exactly the longest run of the given byte and never
  panics, whatever the alignment of the buffer.
\<close>

theorem skip_while_reference:
  "skip_while align d p =
     (let n = length (takeWhile (\<lambda>v. v = p) (decoder_as_ref d))
      in Ok (n, d\<lparr>doffset := doffset d + n\<rparr>))"
  by (simp add: skip_while_eq skip_while_ref_def Let_def)

end
