(* ===== verification/Incr_Decoder.thy ===== *)
theory Incr_Decoder
  imports Codec
begin

unbundle bit_operations_syntax

text \<open>
  \<open>neqo-common/src/incrdecoder.rs\<close>: decoders that are fed a value in pieces as they arrive.
  Each \<open>consume\<close> returns its result, the decoder after the call and the input after the call.
\<close>

subsection \<open>Incremental varint\<close>

record incr_uint =
  iu_v :: u64
  iu_remaining :: "nat option"

definition incr_uint_default :: incr_uint where
  "incr_uint_default = \<lparr>iu_v = 0, iu_remaining = None\<rparr>"

definition uint_min_remaining :: "incr_uint \<Rightarrow> nat" where
  "uint_min_remaining s = (case iu_remaining s of None \<Rightarrow> 1 | Some r \<Rightarrow> r)"

definition uint_consume ::
    "incr_uint \<Rightarrow> decoder \<Rightarrow> (u64 option \<times> incr_uint \<times> decoder) res" where
  "uint_consume s dv =
     (case iu_remaining s of
        Some r \<Rightarrow>
          (let amount = min r (remaining dv);
               v = (if amount < 8 then push_bit (amount * 8) (iu_v s) else iu_v s)
           in bind_res (decode_n dv amount) (\<lambda>(n, dv').
                case n of
                  None \<Rightarrow> Ok (None, s\<lparr>iu_v := v\<rparr>, dv')
                | Some x \<Rightarrow>
                    (let s' = \<lparr>iu_v = v OR x, iu_remaining = Some (r - amount)\<rparr>
                     in Ok (if r - amount = 0 then Some (iu_v s') else None, s', dv'))))
      | None \<Rightarrow>
          bind_res (decode_uint 1 dv) (\<lambda>(b, dv').
            case b of
              None \<Rightarrow> Panic
            | Some x \<Rightarrow>
                (let b = (ucast x :: u8);
                     v = ucast (b AND 0x3f);
                     top = unat (drop_bit 6 b)
                 in if 3 < top then Panic
                    else (let rem = [0, 1, 3, 7] ! top
                          in Ok (if rem = 0 then Some v else None,
                                 \<lparr>iu_v = v, iu_remaining = Some rem\<rparr>, dv')))))"

definition decoding_in_progress :: "incr_uint \<Rightarrow> bool" where
  "decoding_in_progress s \<longleftrightarrow> iu_remaining s \<noteq> None"

subsection \<open>Incremental buffer\<close>

record incr_buffer =
  ib_v :: bytes
  ib_remaining :: nat

definition incr_buffer_new :: "nat \<Rightarrow> incr_buffer" where
  "incr_buffer_new n = \<lparr>ib_v = [], ib_remaining = n\<rparr>"

definition buffer_min_remaining :: "incr_buffer \<Rightarrow> nat" where
  "buffer_min_remaining s = ib_remaining s"

definition buffer_consume ::
    "incr_buffer \<Rightarrow> decoder \<Rightarrow> bytes option \<times> incr_buffer \<times> decoder" where
  "buffer_consume s dv =
     (let amount = min (ib_remaining s) (remaining dv)
      in case decode dv amount of
           (None, dv') \<Rightarrow> (None, s, dv')
         | (Some b, dv') \<Rightarrow>
             (let v = ib_v s @ b; rem = ib_remaining s - amount
              in if rem = 0 then (Some v, \<lparr>ib_v = [], ib_remaining = rem\<rparr>, dv')
                 else (None, \<lparr>ib_v = v, ib_remaining = rem\<rparr>, dv')))"

subsection \<open>Ignoring input\<close>

record incr_ignore =
  ig_remaining :: nat

definition incr_ignore_new :: "nat \<Rightarrow> incr_ignore res" where
  "incr_ignore_new n = assert_res (n \<noteq> 0) (Ok \<lparr>ig_remaining = n\<rparr>)"

definition ignore_min_remaining :: "incr_ignore \<Rightarrow> nat" where
  "ignore_min_remaining s = ig_remaining s"

definition ignore_consume :: "incr_ignore \<Rightarrow> decoder \<Rightarrow> bool \<times> incr_ignore \<times> decoder" where
  "ignore_consume s dv =
     (let amount = min (ig_remaining s) (remaining dv);
          dv' = snd (decode dv amount);
          rem = ig_remaining s - amount
      in (rem = 0, \<lparr>ig_remaining = rem\<rparr>, dv'))"

subsection \<open>Feeding pieces\<close>

text \<open>The reader's loop: one \<open>consume\<close> per piece that arrives, until there is a value.\<close>

fun uint_feed :: "incr_uint \<Rightarrow> bytes list \<Rightarrow> (u64 option \<times> incr_uint \<times> bytes list) res" where
  "uint_feed s [] = Ok (None, s, [])"
| "uint_feed s (c # cs) =
     bind_res (uint_consume s (decoder_new c)) (\<lambda>(r, s', d').
       case r of
         None \<Rightarrow> uint_feed s' cs
       | Some v \<Rightarrow> Ok (Some v, s', decoder_as_ref d' # cs))"

fun buffer_feed :: "incr_buffer \<Rightarrow> bytes list \<Rightarrow> bytes option \<times> incr_buffer \<times> bytes list" where
  "buffer_feed s [] = (None, s, [])"
| "buffer_feed s (c # cs) =
     (case buffer_consume s (decoder_new c) of
        (None, s', d') \<Rightarrow> buffer_feed s' cs
      | (Some v, s', d') \<Rightarrow> (Some v, s', decoder_as_ref d' # cs))"

subsection \<open>Lemmas\<close>

lemma decode_n_prefix:
  assumes "0 < n" "n \<le> 8" "n \<le> length c"
  shows "decode_n (decoder_new c) n
    = Ok (Some (word_of_nat (be_val (take n c))), \<lparr>dbuf = c, doffset = n\<rparr>)"
proof -
  have "to_be n (be_val (take n c)) = take n c"
    using to_be_be_val [of "take n c"] assms(3) by simp
  moreover have "be_val (take n c) < 256 ^ n"
    by (rule be_val_take_less)
  ultimately show ?thesis
    using decode_n_bytes [OF assms(1,2), of "be_val (take n c)" "[]" "drop n c"]
    by (simp add: decoder_new_def)
qed

text \<open>Joining the value so far with the bytes of a piece.\<close>

lemma shift_or:
  assumes "x < 2 ^ (8 * k - 2)" "0 < k" "k + n \<le> 8" "y < 256 ^ n"
  shows "unat (push_bit (n * 8) (word_of_nat x :: u64) OR word_of_nat y) = x * 256 ^ n + y"
proof -
  have p: "(256::nat) ^ n = 2 ^ (n * 8)"
    using power_mult [of "2::nat" 8 n] by (simp add: mult.commute)
  have "x * 2 ^ (n * 8) < 2 ^ (8 * k - 2) * 2 ^ (n * 8)"
    using assms(1) by simp
  also have "\<dots> = 2 ^ (8 * k - 2 + n * 8)"
    by (simp add: power_add)
  also have "\<dots> \<le> 2 ^ 62"
    using assms(2,3) by (intro power_increasing) simp_all
  finally have xs: "x * 2 ^ (n * 8) < 2 ^ 62" .
  have "x \<le> x * 2 ^ (n * 8)"
    by simp
  then have x: "x < 2 ^ 62"
    using xs by (rule le_less_trans)
  have y: "y < 2 ^ 64"
  proof -
    have "(2::nat) ^ (n * 8) \<le> 2 ^ 64"
      using assms(3) by (intro power_increasing) simp_all
    then show ?thesis
      using assms(4) p by simp
  qed
  have "unat (push_bit (n * 8) (word_of_nat x :: u64)) = x * 2 ^ (n * 8)"
    unfolding unsigned_push_bit_eq using x xs
    by (simp add: unat_of_nat push_bit_eq_mult take_bit_nat_eq_self)
  then have "unat (push_bit (n * 8) (word_of_nat x :: u64) OR word_of_nat y) = push_bit (n * 8) x OR y"
    using y by (simp add: unsigned_or_eq unat_of_nat push_bit_eq_mult)
  also have "\<dots> = y OR push_bit (n * 8) x"
    by (simp add: or.commute)
  also have "\<dots> = x * 256 ^ n + y"
    using or_shifted [of y "n * 8" x] assms(4) p by (simp add: push_bit_eq_mult)
  finally show ?thesis .
qed

text \<open>The state after the bytes \<open>p\<close> of a varint of \<open>n\<close> bytes.\<close>

definition uint_after :: "nat \<Rightarrow> bytes \<Rightarrow> incr_uint \<Rightarrow> bool" where
  "uint_after n p s \<longleftrightarrow> s = \<lparr>iu_v = word_of_nat (be_val p mod 2 ^ (8 * length p - 2)),
     iu_remaining = Some (n - length p)\<rparr>"

lemma mod_append:
  assumes "0 < length p"
  shows "be_val p mod 2 ^ (8 * length p - 2) * 256 ^ length c + be_val c
    = be_val (p @ c) mod 2 ^ (8 * length (p @ c) - 2)"
proof -
  let ?M = "(2::nat) ^ (8 * length p - 2)"
  have "?M * 256 ^ length c = 2 ^ (8 * length p - 2 + 8 * length c)"
    by (simp add: power_add power_mult)
  also have "8 * length p - 2 + 8 * length c = 8 * length (p @ c) - 2"
    unfolding length_append using assms by arith
  finally have M: "2 ^ (8 * length (p @ c) - 2) = ?M * 256 ^ length c" ..
  have c: "be_val c < 256 ^ length c"
    by (rule be_val_less)
  have "be_val (p @ c) mod (?M * 256 ^ length c)
      = 256 ^ length c * (be_val (p @ c) div 256 ^ length c mod ?M) + be_val (p @ c) mod 256 ^ length c"
    by (simp add: mod_mult2_eq mult.commute [of ?M])
  also have "be_val (p @ c) div 256 ^ length c = be_val p"
    using c by (simp add: be_val_append)
  also have "be_val (p @ c) mod 256 ^ length c = be_val c"
    using c by (simp add: be_val_append)
  finally show ?thesis
    unfolding M by (simp add: mult.commute)
qed

lemma uint_consume_next:
  assumes s: "uint_after n p s" and p: "p \<noteq> []" and c: "c \<noteq> []" and n: "length p + length c \<le> n" "n \<le> 8"
  shows "\<exists>s'. uint_after n (p @ c) s' \<and> uint_consume s (decoder_new c)
    = Ok (if length (p @ c) = n then Some (word_of_nat (be_val (p @ c) mod 2 ^ (8 * n - 2))) else None,
          s', \<lparr>dbuf = c, doffset = length c\<rparr>)"
proof -
  let ?x = "be_val p mod 2 ^ (8 * length p - 2)"
  let ?s' = "\<lparr>iu_v = word_of_nat (be_val (p @ c) mod 2 ^ (8 * length (p @ c) - 2)),
     iu_remaining = Some (n - length (p @ c))\<rparr>"
  have len: "0 < length c" "length c \<le> 8" "length c < 8" "0 < length p"
    using p c n by (simp_all flip: length_greater_0_conv)
  have "min (n - length p) (remaining (decoder_new c)) = length c"
    using n by (simp add: remaining_def decoder_new_def)
  moreover have "decode_n (decoder_new c) (length c)
      = Ok (Some (word_of_nat (be_val c)), \<lparr>dbuf = c, doffset = length c\<rparr>)"
    using decode_n_prefix [of "length c" c] len by simp
  moreover have "push_bit (length c * 8) (word_of_nat ?x :: u64) OR word_of_nat (be_val c)
      = word_of_nat (be_val (p @ c) mod 2 ^ (8 * length (p @ c) - 2))"
  proof -
    have "unat (push_bit (length c * 8) (word_of_nat ?x :: u64) OR word_of_nat (be_val c))
        = ?x * 256 ^ length c + be_val c"
      using len n by (intro shift_or [where k = "length p"]) (simp_all add: be_val_less)
    then show ?thesis
      unfolding mod_append [OF len(4)] by (rule word_eq_of_nat)
  qed
  moreover have "n - length p - length c = 0 \<longleftrightarrow> length (p @ c) = n"
    using n by auto
  ultimately have "uint_consume s (decoder_new c)
    = Ok (if length (p @ c) = n then Some (iu_v ?s') else None, ?s', \<lparr>dbuf = c, doffset = length c\<rparr>)"
    using s len(3) by (simp add: uint_consume_def uint_after_def Let_def) auto
  then show ?thesis
    by (auto simp: uint_after_def)
qed

lemma uint_consume_first:
  assumes "n = 2 ^ (unat b div 64)"
  shows "\<exists>s'. uint_after n [b] s' \<and> uint_consume incr_uint_default (decoder_new [b])
    = Ok (if n = 1 then Some (word_of_nat (unat b mod 64)) else None, s', \<lparr>dbuf = [b], doffset = 1\<rparr>)"
proof -
  let ?s' = "\<lparr>iu_v = word_of_nat (unat b mod 64), iu_remaining = Some (n - 1)\<rparr>"
  have b: "be_val [b] = unat b" by (simp add: be_val_def)
  have "(ucast (ucast b :: u64) :: u8) = b"
    by (rule ucast_up_ucast_id) (simp add: is_up)
  moreover have "(ucast (b AND 0x3f) :: u64) = word_of_nat (unat b mod 64)"
  proof -
    have mask: "(0x3f :: u8) = mask 6" by (simp add: mask_eq_exp_minus_1)
    show ?thesis
      unfolding mask word_unat_eq_iff unsigned_ucast_eq unat_and_mask
      by (simp add: take_bit_nat_eq_self unat_of_nat)
  qed
  moreover have top: "unat (drop_bit 6 b) = unat b div 64"
    by (simp add: unat_drop_bit_eq) (simp add: drop_bit_eq_div)
  moreover have "unat b div 64 < 4"
    using unat_u8_less [of b] by linarith
  moreover have "[0, 1, 3, 7] ! k = (2::nat) ^ k - 1" if "k < 4" for k
  proof -
    from that have "k \<in> {0, 1, 2, 3}" by auto
    then show ?thesis by auto
  qed
  ultimately have "uint_consume incr_uint_default (decoder_new [b])
      = Ok (if n - 1 = 0 then Some (iu_v ?s') else None, ?s', \<lparr>dbuf = [b], doffset = 1\<rparr>)"
    by (simp add: uint_consume_def incr_uint_default_def decode_uint_def decode_n_def remaining_def
        decoder_new_def Let_def unsigned_ucast_eq take_bit_nat_eq_self assms)
  moreover have "0 < n"
    using assms by simp
  then have "n - 1 = 0 \<longleftrightarrow> n = 1"
    by linarith
  ultimately show ?thesis
    by (auto simp: uint_after_def b)
qed

lemma uint_feed_rest:
  assumes "uint_after n p s" "p \<noteq> []" "[] \<notin> set cs" "length p < n"
    "length p + length (concat cs) = n" "n \<le> 8"
  shows "\<exists>s'. uint_feed s cs
    = Ok (Some (word_of_nat (be_val (p @ concat cs) mod 2 ^ (8 * n - 2))), s', [[]])"
  using assms
proof (induction cs arbitrary: p s)
  case Nil
  then show ?case by simp
next
  case (Cons c cs)
  obtain s1 where s1: "uint_after n (p @ c) s1" "uint_consume s (decoder_new c)
    = Ok (if length (p @ c) = n then Some (word_of_nat (be_val (p @ c) mod 2 ^ (8 * n - 2))) else None,
          s1, \<lparr>dbuf = c, doffset = length c\<rparr>)"
    using uint_consume_next [of n p s c] Cons.prems by auto
  show ?case
  proof (cases "length (p @ c) = n")
    case True
    then have "length (concat cs) = 0"
      using Cons.prems(5) unfolding concat.simps length_append by linarith
    then have "cs = []"
      using Cons.prems(3) by (cases cs) auto
    then show ?thesis
      using s1(2) True by (simp add: decoder_as_ref_def)
  next
    case False
    then show ?thesis
      using Cons.IH [OF s1(1)] Cons.prems s1(2) by simp
  qed
qed

lemma buffer_feed_rest:
  assumes "ib_remaining s = length (concat cs)" "[] \<notin> set cs" "cs \<noteq> []"
  shows "buffer_feed s cs = (Some (ib_v s @ concat cs), \<lparr>ib_v = [], ib_remaining = 0\<rparr>, [[]])"
  using assms
proof (induction cs arbitrary: s)
  case Nil
  then show ?case by simp
next
  case (Cons c cs)
  let ?s = "\<lparr>ib_v = ib_v s @ c, ib_remaining = length (concat cs)\<rparr>"
  have step: "buffer_consume s (decoder_new c) =
      (if concat cs = [] then (Some (ib_v s @ c), \<lparr>ib_v = [], ib_remaining = 0\<rparr>, \<lparr>dbuf = c, doffset = length c\<rparr>)
       else (None, ?s, \<lparr>dbuf = c, doffset = length c\<rparr>))"
    using Cons.prems(1)
    by (simp add: buffer_consume_def decode_def remaining_def decoder_new_def Let_def del: concat_eq_Nil_conv)
  show ?case
  proof (cases "concat cs = []")
    case True
    then have "cs = []"
      using Cons.prems(2) by (cases cs) auto
    then show ?thesis
      using step by (simp add: decoder_as_ref_def)
  next
    case False
    then have "cs \<noteq> []" by auto
    then show ?thesis
      using Cons.IH [of ?s] Cons.prems(2) step False by (simp del: concat_eq_Nil_conv)
  qed
qed

subsection \<open>Properties\<close>



end
