(* ===== verification/Stream_Id.thy ===== *)
theory Stream_Id
  imports Neqo_Prelude
begin

text \<open>
  Stream identifiers (\<open>neqo-transport/src/stream_id.rs\<close>) and the two roles of an endpoint
  (\<open>neqo-common/src/lib.rs\<close>). An identifier is a \<open>u64\<close>, kept as a natural number; its two low bits
  carry the type and the initiator of the stream, the others its index.
\<close>

unbundle bit_operations_syntax

subsection \<open>Roles and types\<close>

datatype role = Client | Server

fun remote :: "role \<Rightarrow> role" where
  "remote Client = Server"
| "remote Server = Client"

definition MAX_STREAMS_LIMIT :: nat where
  "MAX_STREAMS_LIMIT = 2 ^ 60"

datatype stream_type = BiDi | UniDi

text \<open>The discriminants of \<open>StreamType\<close> (\<open>as u64\<close>).\<close>

fun stream_type_bits :: "stream_type \<Rightarrow> nat" where
  "stream_type_bits BiDi = 0"
| "stream_type_bits UniDi = 2"

type_synonym stream_id = nat

subsection \<open>Operations\<close>

fun role_bit :: "role \<Rightarrow> nat" where
  "role_bit Server = 1"
| "role_bit Client = 0"

definition sid_init :: "stream_type \<Rightarrow> role \<Rightarrow> stream_id" where
  "sid_init t r = stream_type_bits t + role_bit r"

definition is_bidi :: "stream_id \<Rightarrow> bool" where
  "is_bidi i \<longleftrightarrow> i AND 2 = 0"

definition is_uni :: "stream_id \<Rightarrow> bool" where
  "is_uni i \<longleftrightarrow> \<not> is_bidi i"

definition sid_type :: "stream_id \<Rightarrow> stream_type" where
  "sid_type i = (if is_bidi i then BiDi else UniDi)"

definition is_client_initiated :: "stream_id \<Rightarrow> bool" where
  "is_client_initiated i \<longleftrightarrow> i AND 1 = 0"

definition is_server_initiated :: "stream_id \<Rightarrow> bool" where
  "is_server_initiated i \<longleftrightarrow> \<not> is_client_initiated i"

definition sid_role :: "stream_id \<Rightarrow> role" where
  "sid_role i = (if is_client_initiated i then Client else Server)"

definition is_self_initiated :: "stream_id \<Rightarrow> role \<Rightarrow> bool" where
  "is_self_initiated i my_role =
     (case my_role of
        Client \<Rightarrow> is_client_initiated i
      | Server \<Rightarrow> is_server_initiated i)"

definition is_remote_initiated :: "stream_id \<Rightarrow> role \<Rightarrow> bool" where
  "is_remote_initiated i my_role \<longleftrightarrow> \<not> is_self_initiated i my_role"

definition is_send_only :: "stream_id \<Rightarrow> role \<Rightarrow> bool" where
  "is_send_only i my_role \<longleftrightarrow> is_uni i \<and> is_self_initiated i my_role"

definition is_recv_only :: "stream_id \<Rightarrow> role \<Rightarrow> bool" where
  "is_recv_only i my_role \<longleftrightarrow> is_uni i \<and> is_remote_initiated i my_role"

definition sid_next :: "stream_id \<Rightarrow> stream_id" where
  "sid_next i = u64_add i 4"

definition sid_index :: "stream_id \<Rightarrow> nat" where
  "sid_index i = drop_bit 2 i"

subsection \<open>The structure of an identifier\<close>

lemma nat_and_1 [simp]: "(i::nat) AND 1 = i mod 2"
  by (simp add: and_one_eq)

lemma nat_and_2_eq_0_iff: "(i::nat) AND 2 = 0 \<longleftrightarrow> i mod 4 < 2"
proof -
  have "i AND 2 = 0 \<longleftrightarrow> \<not> bit i 1"
    using and_exp_eq_0_iff_not_bit [of i 1] by simp
  also have "\<dots> \<longleftrightarrow> even (i div 2)"
    by (simp add: bit_iff_odd)
  also have "\<dots> \<longleftrightarrow> i mod 4 < 2"
    by presburger
  finally show ?thesis .
qed

lemma is_bidi_iff: "is_bidi i \<longleftrightarrow> i mod 4 < 2"
  by (simp add: is_bidi_def nat_and_2_eq_0_iff)

lemma is_client_initiated_iff: "is_client_initiated i \<longleftrightarrow> even i"
  by (simp add: is_client_initiated_def even_iff_mod_2_eq_zero)

lemma sid_index_div: "sid_index i = i div 4"
  by (simp add: sid_index_def drop_bit_eq_div)

lemma is_self_initiated_iff: "is_self_initiated i r \<longleftrightarrow> sid_role i = r"
  by (cases r) (auto simp: is_self_initiated_def sid_role_def is_server_initiated_def)

lemma remote_remote [simp]: "remote (remote r) = r" "remote r \<noteq> r"
  by (cases r; simp)+

lemma is_remote_initiated_iff: "is_remote_initiated i r \<longleftrightarrow> sid_role i = remote r"
  by (cases r; cases "sid_role i") (auto simp: is_remote_initiated_def is_self_initiated_iff)

lemma sid_bits: "stream_type_bits (sid_type i) + role_bit (sid_role i) = i mod 4"
proof -
  have "i mod 4 = 0 \<or> i mod 4 = 1 \<or> i mod 4 = 2 \<or> i mod 4 = 3"
    by presburger
  moreover have "even i \<longleftrightarrow> even (i mod 4)"
    by presburger
  ultimately show ?thesis
    by (auto simp: sid_type_def sid_role_def is_bidi_iff is_client_initiated_iff)
qed

lemma sid_init_less: "sid_init t r < 4"
  by (cases t; cases r) (simp_all add: sid_init_def)

lemma sid_of_parts:
  "sid_type (4 * n + sid_init t r) = t" "sid_role (4 * n + sid_init t r) = r"
  "sid_index (4 * n + sid_init t r) = n"
proof -
  have m: "(4 * n + sid_init t r) mod 4 = sid_init t r" "(4 * n + sid_init t r) div 4 = n"
    using sid_init_less [of t r] by simp_all
  have e: "even (4 * n + sid_init t r) \<longleftrightarrow> even (sid_init t r)"
    by simp
  show "sid_type (4 * n + sid_init t r) = t"
    unfolding sid_type_def is_bidi_iff m by (cases t; cases r) (simp_all add: sid_init_def)
  show "sid_role (4 * n + sid_init t r) = r"
    unfolding sid_role_def is_client_initiated_iff e by (cases t; cases r) (simp_all add: sid_init_def)
  show "sid_index (4 * n + sid_init t r) = n"
    unfolding sid_index_div m ..
qed

lemma sid_parts: "4 * sid_index i + sid_init (sid_type i) (sid_role i) = i"
  using sid_bits [of i] by (simp add: sid_init_def sid_index_div)

lemma sid_next_eq [u64]: "i + 4 < 2 ^ 64 \<Longrightarrow> sid_next i = i + 4"
  by (simp add: sid_next_def u64)

lemma sid_next_funpow:
  "4 * n + sid_init t r < 2 ^ 64 \<Longrightarrow> (sid_next ^^ n) (sid_init t r) = 4 * n + sid_init t r"
proof (induction n)
  case 0
  then show ?case by simp
next
  case (Suc n)
  then have "(sid_next ^^ n) (sid_init t r) = 4 * n + sid_init t r"
    by simp
  then show ?case
    using Suc.prems sid_next_eq [of "4 * n + sid_init t r"] by simp
qed

subsection \<open>Properties\<close>

text \<open>
  C25: Every stream identifier is the one of its own type, initiator and index: starting from
  \<open>StreamId::init\<close> and taking \<open>next\<close> as many times as the index says reaches it, and no other type,
  role or count does.
\<close>

theorem stream_id_enumeration:
  assumes "i < 2 ^ 64" and "n < 2 ^ 62"
  shows "(sid_next ^^ n) (sid_init t r) = i \<longleftrightarrow> sid_type i = t \<and> sid_role i = r \<and> sid_index i = n"
proof -
  have "4 * n + sid_init t r < 2 ^ 64"
    using assms(2) sid_init_less [of t r] by simp
  then have *: "(sid_next ^^ n) (sid_init t r) = 4 * n + sid_init t r"
    by (rule sid_next_funpow)
  show ?thesis
    unfolding * using sid_parts [of i] sid_of_parts [of n t r] by auto
qed

theorem stream_id_enumeration_witness:
  "(sid_next ^^ 2) (sid_init UniDi Server) = 11 \<and> sid_type 11 = UniDi \<and> sid_role 11 = Server \<and> sid_index 11 = 2"
proof -
  have "sid_type 11 = UniDi \<and> sid_role 11 = Server \<and> sid_index 11 = 2"
    by (simp add: sid_type_def sid_role_def is_bidi_iff is_client_initiated_iff sid_index_div)
  then show ?thesis
    using stream_id_enumeration [of 11 2 UniDi Server] by simp
qed

end
