(* ===== verification/Recovery_Token.thy ===== *)
theory Recovery_Token
  imports Stream_Id
begin

text \<open>
  What a sent packet remembers of its content (\<open>neqo-transport/src/recovery/token.rs\<close>), so that each component
  can react to its acknowledgement or loss.
\<close>

record stream_token =
  rt_id :: stream_id
  rt_offset :: nat
  rt_length :: nat
  rt_fin :: bool

datatype stream_recovery_token =
    SRT_Stream stream_token
  | SRT_ResetStream stream_id
  | SRT_StopSending stream_id
  | SRT_MaxData nat
  | SRT_DataBlocked nat
  | SRT_MaxStreamData stream_id nat
  | SRT_StreamDataBlocked stream_id nat
  | SRT_MaxStreams stream_type nat
  | SRT_StreamsBlocked stream_type nat

record packet_range =
  pr_largest :: nat
  pr_smallest :: nat
  pr_ack_needed :: bool

record crypto_token =
  ct_offset :: nat
  ct_length :: nat

record cid_entry =
  cid_seqno :: nat
  cid_cid :: bytes
  cid_srt :: bytes

record ack_rate =
  ar_packets :: nat
  ar_delay :: nat

datatype datagram_tracking = DT_None | DT_Id nat

datatype token =
    Tok_Stream stream_recovery_token
  | Tok_Ack "packet_range list"
  | Tok_Crypto crypto_token
  | Tok_HandshakeDone
  | Tok_KeepAlive
  | Tok_NewToken nat
  | Tok_NewConnectionId cid_entry
  | Tok_RetireConnectionId nat
  | Tok_AckFrequency ack_rate
  | Tok_Datagram datagram_tracking
  | Tok_EcnEct0
  | Tok_PmtudProbe nat

type_synonym tokens = "token list"

end
