(* ===== verification/Packet_Types.thy ===== *)
theory Packet_Types
  imports Neqo_Prelude
begin

text \<open>
  The enumerations of the wire format: QUIC versions and the version configuration
  (\<open>neqo-transport/src/version.rs\<close>), packet types and their mapping to epochs
  (\<open>neqo-transport/src/packet/mod.rs\<close>), and the SCONE bitrate signal with its expiry
  (\<open>neqo-transport/src/scone.rs\<close>). The \<open>draft-29\<close> feature is off by default and not modelled; times are
  numbers of microseconds.
\<close>

unbundle bit_operations_syntax

subsection \<open>Versions\<close>

datatype version = Version2 | Version1

fun wire_version :: "version \<Rightarrow> u32" where
  "wire_version Version2 = 0x6b3343cf"
| "wire_version Version1 = 1"

definition SCONE1 :: u32 where "SCONE1 = 0x6f7dc0fd"
definition SCONE2 :: u32 where "SCONE2 = 0xef7dc0fd"

definition version_try_from :: "u32 \<Rightarrow> version res" where
  "version_try_from wire =
     (if wire = 1 then Ok Version1
      else if wire = 0x6b3343cf then Ok Version2
      else Err VersionNegotiation)"

definition is_compatible :: "version \<Rightarrow> version \<Rightarrow> bool" where
  "is_compatible a b \<longleftrightarrow>
     a = b \<or> (case (a, b) of (Version1, Version2) \<Rightarrow> True | (Version2, Version1) \<Rightarrow> True | _ \<Rightarrow> False)"

definition version_all :: "version list" where
  "version_all = [Version2, Version1]"

definition version_compatible :: "version \<Rightarrow> version list \<Rightarrow> version list" where
  "version_compatible v all = filter (is_compatible v) all"

record version_config =
  vc_initial :: version
  vc_all :: "version list"

definition version_config_new :: "version \<Rightarrow> version list \<Rightarrow> version_config res" where
  "version_config_new initial all =
     assert_res (initial \<in> set all) (Ok \<lparr>vc_initial = initial, vc_all = all\<rparr>)"

definition set_initial :: "version_config \<Rightarrow> version \<Rightarrow> version_config res" where
  "set_initial c initial = assert_res (initial \<in> set (vc_all c)) (Ok (c\<lparr>vc_initial := initial\<rparr>))"

fun find_preferred :: "version list \<Rightarrow> u32 list \<Rightarrow> version option" where
  "find_preferred [] vn = None"
| "find_preferred (v # vs) vn = (if wire_version v \<in> set vn then Some v else find_preferred vs vn)"

definition preferred :: "version_config \<Rightarrow> u32 list \<Rightarrow> version option" where
  "preferred c vn = find_preferred (vc_all c) vn"

definition preferred_compatible :: "version_config \<Rightarrow> u32 list \<Rightarrow> version option" where
  "preferred_compatible c vn = find_preferred (version_compatible (vc_initial c) (vc_all c)) vn"

lemma version_try_from_wire [simp]: "version_try_from (wire_version v) = Ok v"
  by (cases v) (simp_all add: version_try_from_def)

lemma version_try_from_Ok: "version_try_from w = Ok v \<Longrightarrow> w = wire_version v"
  by (auto simp: version_try_from_def split: if_splits)

lemma wire_version_not_special [simp]:
  "wire_version v \<noteq> 0" "wire_version v \<noteq> SCONE1" "wire_version v \<noteq> SCONE2"
  by (cases v; simp add: SCONE1_def SCONE2_def)+

lemma find_preferred_find: "find_preferred vs vn = List.find (\<lambda>v. wire_version v \<in> set vn) vs"
  by (induction vs) simp_all

lemma preferred_mutual:
  "preferred c vn = Some v \<Longrightarrow> v \<in> set (vc_all c) \<and> wire_version v \<in> set vn"
  by (auto simp: preferred_def find_preferred_find find_Some_iff)

subsection \<open>Packet types\<close>

datatype packet_type =
  PT_Initial | PT_ZeroRtt | PT_Handshake | PT_Retry | PT_Short | PT_OtherVersion | PT_VersionNegotiation

fun packet_type_from_repr :: "u8 \<Rightarrow> packet_type option" where
  "packet_type_from_repr t =
     (if t = 0 then Some PT_Initial else if t = 1 then Some PT_ZeroRtt
      else if t = 2 then Some PT_Handshake else if t = 3 then Some PT_Retry
      else if t = 4 then Some PT_Short else if t = 5 then Some PT_OtherVersion
      else if t = 6 then Some PT_VersionNegotiation else None)"

fun packet_type_repr :: "packet_type \<Rightarrow> u8" where
  "packet_type_repr PT_Initial = 0"
| "packet_type_repr PT_ZeroRtt = 1"
| "packet_type_repr PT_Handshake = 2"
| "packet_type_repr PT_Retry = 3"
| "packet_type_repr PT_Short = 4"
| "packet_type_repr PT_OtherVersion = 5"
| "packet_type_repr PT_VersionNegotiation = 6"

definition from_byte :: "u8 \<Rightarrow> version \<Rightarrow> packet_type res" where
  "from_byte t v =
     (case packet_type_from_repr ((t - (if v = Version2 then 1 else 0)) AND 3) of
        None \<Rightarrow> Panic
      | Some pt \<Rightarrow> Ok pt)"

fun is_long_type :: "packet_type \<Rightarrow> bool" where
  "is_long_type PT_Initial = True"
| "is_long_type PT_ZeroRtt = True"
| "is_long_type PT_Handshake = True"
| "is_long_type PT_Retry = True"
| "is_long_type _ = False"

definition to_byte :: "packet_type \<Rightarrow> version \<Rightarrow> u8 res" where
  "to_byte pt v =
     assert_res (is_long_type pt)
       (Ok ((packet_type_repr pt + (if v = Version2 then 1 else 0)) AND 3))"

fun epoch_try_from :: "packet_type \<Rightarrow> epoch res" where
  "epoch_try_from PT_Initial = Ok Epoch_Initial"
| "epoch_try_from PT_ZeroRtt = Ok Epoch_ZeroRtt"
| "epoch_try_from PT_Handshake = Ok Epoch_Handshake"
| "epoch_try_from PT_Short = Ok Epoch_ApplicationData"
| "epoch_try_from _ = Err InvalidPacket"

fun type_from_epoch :: "epoch \<Rightarrow> packet_type" where
  "type_from_epoch Epoch_Initial = PT_Initial"
| "type_from_epoch Epoch_ZeroRtt = PT_ZeroRtt"
| "type_from_epoch Epoch_Handshake = PT_Handshake"
| "type_from_epoch Epoch_ApplicationData = PT_Short"

text \<open>The packet number spaces (\<open>tracking.rs\<close>), and the epochs as the indices TLS gives them.\<close>

datatype pn_space = Space_Initial | Space_Handshake | Space_ApplicationData

fun pn_space_from_epoch :: "epoch \<Rightarrow> pn_space" where
  "pn_space_from_epoch Epoch_Initial = Space_Initial"
| "pn_space_from_epoch Epoch_Handshake = Space_Handshake"
| "pn_space_from_epoch _ = Space_ApplicationData"

fun epoch_index :: "epoch \<Rightarrow> nat" where
  "epoch_index Epoch_Initial = 0"
| "epoch_index Epoch_ZeroRtt = 1"
| "epoch_index Epoch_Handshake = 2"
| "epoch_index Epoch_ApplicationData = 3"

lemma epoch_roundtrip [simp]: "epoch_try_from (type_from_epoch e) = Ok e"
  by (cases e) simp_all

lemma to_byte_from_byte:
  assumes "is_long_type pt"
  shows "\<exists>b. to_byte pt v = Ok b \<and> b < 4 \<and> from_byte b v = Ok pt"
  using assms by (cases pt; cases v) (simp_all add: to_byte_def from_byte_def)

subsection \<open>SCONE\<close>

type_synonym bitrate = u8

definition bitrate_UNKNOWN :: bitrate where
  "bitrate_UNKNOWN = 0x7f"

definition bitrate_is_set :: "bitrate \<Rightarrow> bool" where
  "bitrate_is_set b \<longleftrightarrow> b \<noteq> bitrate_UNKNOWN"

definition bitrate_from :: "u8 \<Rightarrow> u32 \<Rightarrow> bitrate" where
  "bitrate_from first version = ucast (drop_bit 31 version) OR push_bit 1 (first AND 0x3f)"

record scone =
  sc_updated :: nat
  sc_rate :: bitrate

definition SCONE_PERIOD :: nat where
  "SCONE_PERIOD = 67 * 1000000"

definition scone_expired :: "scone \<Rightarrow> nat \<Rightarrow> bool" where
  "scone_expired s now \<longleftrightarrow> sc_updated s + SCONE_PERIOD \<le> now"

definition scone_update :: "scone \<Rightarrow> nat \<Rightarrow> bitrate option \<Rightarrow> bool \<times> scone" where
  "scone_update s now rate =
     (if (case rate of None \<Rightarrow> False | Some r \<Rightarrow> r \<le> sc_rate s) \<or> scone_expired s now
      then (let r = (case rate of None \<Rightarrow> bitrate_UNKNOWN | Some r \<Rightarrow> r)
            in (r \<noteq> sc_rate s, \<lparr>sc_updated = now, sc_rate = r\<rparr>))
      else (False, s))"

lemma scone_update_rate:
  "sc_rate (snd (scone_update s now rate)) \<le> sc_rate s \<or> scone_expired s now"
  by (auto simp: scone_update_def Let_def split: option.splits)

lemma scone_update_reports: "fst (scone_update s now rate) \<longleftrightarrow> sc_rate (snd (scone_update s now rate)) \<noteq> sc_rate s"
  by (simp add: scone_update_def Let_def)

end
