(* ===== verification/Frame.thy ===== *)
theory Frame
  imports Codec Stream_Id Packet_Types
begin

text \<open>
  QUIC frames (\<open>neqo-transport/src/frame.rs\<close>): the frame types, the parser \<open>Frame::decode\<close> on every
  branch, the expansion of ACK ranges, and the tables of which packets may carry a frame.
  The parser is proved inverse to the wire format of RFC 9000 (\<open>frame_bytes\<close>), total (it never
  panics), and to return only frames that satisfy the format's side conditions.
\<close>

subsection \<open>Frame types\<close>

datatype (plugins only: code size) frame_type =
    FT_Padding | FT_Ping | FT_Ack | FT_AckEcn | FT_ResetStream | FT_StopSending | FT_Crypto
  | FT_NewToken | FT_Stream | FT_StreamWithFin | FT_StreamWithLen | FT_StreamWithLenFin
  | FT_StreamWithOff | FT_StreamWithOffFin | FT_StreamWithOffLen | FT_StreamWithOffLenFin
  | FT_MaxData | FT_MaxStreamData | FT_MaxStreamsBiDi | FT_MaxStreamsUniDi | FT_DataBlocked
  | FT_StreamDataBlocked | FT_StreamsBlockedBiDi | FT_StreamsBlockedUniDi | FT_NewConnectionId
  | FT_RetireConnectionId | FT_PathChallenge | FT_PathResponse | FT_ConnectionCloseTransport
  | FT_ConnectionCloseApplication | FT_HandshakeDone | FT_ResetStreamAt | FT_AckFrequency
  | FT_Datagram | FT_DatagramWithLen

primrec frame_type_code :: "frame_type \<Rightarrow> nat" where
  "frame_type_code FT_Padding = 0x0"
| "frame_type_code FT_Ping = 0x1"
| "frame_type_code FT_Ack = 0x2"
| "frame_type_code FT_AckEcn = 0x3"
| "frame_type_code FT_ResetStream = 0x4"
| "frame_type_code FT_StopSending = 0x5"
| "frame_type_code FT_Crypto = 0x6"
| "frame_type_code FT_NewToken = 0x7"
| "frame_type_code FT_Stream = 0x8"
| "frame_type_code FT_StreamWithFin = 0x9"
| "frame_type_code FT_StreamWithLen = 0xa"
| "frame_type_code FT_StreamWithLenFin = 0xb"
| "frame_type_code FT_StreamWithOff = 0xc"
| "frame_type_code FT_StreamWithOffFin = 0xd"
| "frame_type_code FT_StreamWithOffLen = 0xe"
| "frame_type_code FT_StreamWithOffLenFin = 0xf"
| "frame_type_code FT_MaxData = 0x10"
| "frame_type_code FT_MaxStreamData = 0x11"
| "frame_type_code FT_MaxStreamsBiDi = 0x12"
| "frame_type_code FT_MaxStreamsUniDi = 0x13"
| "frame_type_code FT_DataBlocked = 0x14"
| "frame_type_code FT_StreamDataBlocked = 0x15"
| "frame_type_code FT_StreamsBlockedBiDi = 0x16"
| "frame_type_code FT_StreamsBlockedUniDi = 0x17"
| "frame_type_code FT_NewConnectionId = 0x18"
| "frame_type_code FT_RetireConnectionId = 0x19"
| "frame_type_code FT_PathChallenge = 0x1a"
| "frame_type_code FT_PathResponse = 0x1b"
| "frame_type_code FT_ConnectionCloseTransport = 0x1c"
| "frame_type_code FT_ConnectionCloseApplication = 0x1d"
| "frame_type_code FT_HandshakeDone = 0x1e"
| "frame_type_code FT_ResetStreamAt = 0x24"
| "frame_type_code FT_AckFrequency = 0xaf"
| "frame_type_code FT_Datagram = 0x30"
| "frame_type_code FT_DatagramWithLen = 0x31"

definition frame_types :: "frame_type list" where
  "frame_types =
     [FT_Padding, FT_Ping, FT_Ack, FT_AckEcn, FT_ResetStream, FT_StopSending, FT_Crypto,
      FT_NewToken, FT_Stream, FT_StreamWithFin, FT_StreamWithLen, FT_StreamWithLenFin,
      FT_StreamWithOff, FT_StreamWithOffFin, FT_StreamWithOffLen, FT_StreamWithOffLenFin,
      FT_MaxData, FT_MaxStreamData, FT_MaxStreamsBiDi, FT_MaxStreamsUniDi, FT_DataBlocked,
      FT_StreamDataBlocked, FT_StreamsBlockedBiDi, FT_StreamsBlockedUniDi, FT_NewConnectionId,
      FT_RetireConnectionId, FT_PathChallenge, FT_PathResponse, FT_ConnectionCloseTransport,
      FT_ConnectionCloseApplication, FT_HandshakeDone, FT_ResetStreamAt, FT_AckFrequency,
      FT_Datagram, FT_DatagramWithLen]"

text \<open>The derived \<open>from_repr\<close> looks the discriminant up among the variants.\<close>

definition frame_type_try_from :: "nat \<Rightarrow> frame_type res" where
  "frame_type_try_from v =
     (case List.find (\<lambda>t. frame_type_code t = v) frame_types of
        None \<Rightarrow> Err UnknownFrameType
      | Some t \<Rightarrow> Ok t)"

definition is_stream_with_length :: "frame_type \<Rightarrow> bool" where
  "is_stream_with_length t \<longleftrightarrow>
     t \<in> {FT_StreamWithLen, FT_StreamWithLenFin, FT_StreamWithOffLen, FT_StreamWithOffLenFin}"

definition is_stream_with_offset :: "frame_type \<Rightarrow> bool" where
  "is_stream_with_offset t \<longleftrightarrow>
     t \<in> {FT_StreamWithOff, FT_StreamWithOffFin, FT_StreamWithOffLen, FT_StreamWithOffLenFin}"

definition is_stream_with_fin :: "frame_type \<Rightarrow> bool" where
  "is_stream_with_fin t \<longleftrightarrow>
     t \<in> {FT_StreamWithFin, FT_StreamWithLenFin, FT_StreamWithOffFin, FT_StreamWithOffLenFin}"

definition stream_type_try_from :: "frame_type \<Rightarrow> stream_type res" where
  "stream_type_try_from t =
     (if t \<in> {FT_MaxStreamsBiDi, FT_StreamsBlockedBiDi} then Ok BiDi
      else if t \<in> {FT_MaxStreamsUniDi, FT_StreamsBlockedUniDi} then Ok UniDi
      else Err FrameEncoding)"

subsection \<open>Frames\<close>

definition PATH_CHALLENGE_LEN :: nat where
  "PATH_CHALLENGE_LEN = 8"

text \<open>\<open>ConnectionId::MAX_LEN\<close> and \<open>stateless_reset::Token::LEN\<close>.\<close>

definition CID_MAX_LEN :: nat where
  "CID_MAX_LEN = 20"

definition SRT_LEN :: nat where
  "SRT_LEN = 16"

datatype close_error = CloseTransport nat | CloseApplication nat

fun close_error_code :: "close_error \<Rightarrow> nat" where
  "close_error_code (CloseTransport c) = c"
| "close_error_code (CloseApplication c) = c"

record ack_range =
  ar_gap :: nat
  ar_range :: nat

text \<open>\<open>ecn::Count\<close> (\<open>ecn.rs\<close>), whose constructor takes ECT(0) before ECT(1).\<close>

record ecn_count =
  ec_not_ect :: nat
  ec_ect1 :: nat
  ec_ect0 :: nat
  ec_ce :: nat

definition ecn_count_new :: "nat \<Rightarrow> nat \<Rightarrow> nat \<Rightarrow> nat \<Rightarrow> ecn_count" where
  "ecn_count_new n0 e0 e1 ce = \<lparr>ec_not_ect = n0, ec_ect1 = e1, ec_ect0 = e0, ec_ce = ce\<rparr>"

datatype (plugins only: code size) frame =
    Frame_Padding nat
  | Frame_Ping
  | Frame_Ack (largest_acknowledged: nat) (ack_delay: nat) (first_ack_range: nat)
      (ack_ranges: "ack_range list") (ecn_counts: "ecn_count option")
  | Frame_ResetStream stream_id nat nat
  | Frame_ResetStreamAt stream_id nat nat nat
  | Frame_StopSending stream_id nat
  | Frame_Crypto nat bytes
  | Frame_NewToken bytes
  | Frame_Stream stream_id nat bytes bool bool
  | Frame_MaxData nat
  | Frame_MaxStreamData stream_id nat
  | Frame_MaxStreams stream_type nat
  | Frame_DataBlocked nat
  | Frame_StreamDataBlocked stream_id nat
  | Frame_StreamsBlocked stream_type nat
  | Frame_NewConnectionId nat nat bytes bytes
  | Frame_RetireConnectionId nat
  | Frame_PathChallenge bytes
  | Frame_PathResponse bytes
  | Frame_ConnectionClose close_error nat bytes
  | Frame_HandshakeDone
  | Frame_AckFrequency nat nat nat bool
  | Frame_Datagram bytes "nat option"

text \<open>\<open>stream_type(fin, nonzero_offset, fill)\<close>.\<close>

fun frame_stream_type :: "bool \<Rightarrow> bool \<Rightarrow> bool \<Rightarrow> frame_type" where
  "frame_stream_type fin nonzero_offset fill =
     (case (nonzero_offset, fill, fin) of
        (False, True, False) \<Rightarrow> FT_Stream
      | (False, True, True) \<Rightarrow> FT_StreamWithFin
      | (False, False, False) \<Rightarrow> FT_StreamWithLen
      | (False, False, True) \<Rightarrow> FT_StreamWithLenFin
      | (True, True, False) \<Rightarrow> FT_StreamWithOff
      | (True, True, True) \<Rightarrow> FT_StreamWithOffFin
      | (True, False, False) \<Rightarrow> FT_StreamWithOffLen
      | (True, False, True) \<Rightarrow> FT_StreamWithOffLenFin)"

primrec get_type :: "frame \<Rightarrow> frame_type" where
  "get_type (Frame_Padding n) = FT_Padding"
| "get_type Frame_Ping = FT_Ping"
| "get_type (Frame_Ack la ad fa rs ec) = FT_Ack"
| "get_type (Frame_ResetStream i e f) = FT_ResetStream"
| "get_type (Frame_ResetStreamAt i e f r) = FT_ResetStreamAt"
| "get_type (Frame_StopSending i e) = FT_StopSending"
| "get_type (Frame_Crypto off data) = FT_Crypto"
| "get_type (Frame_NewToken t) = FT_NewToken"
| "get_type (Frame_Stream i off data fin fill) = frame_stream_type fin (0 < off) fill"
| "get_type (Frame_MaxData m) = FT_MaxData"
| "get_type (Frame_MaxStreamData i m) = FT_MaxStreamData"
| "get_type (Frame_MaxStreams t m) = (case t of BiDi \<Rightarrow> FT_MaxStreamsBiDi | UniDi \<Rightarrow> FT_MaxStreamsUniDi)"
| "get_type (Frame_DataBlocked l) = FT_DataBlocked"
| "get_type (Frame_StreamDataBlocked i l) = FT_StreamDataBlocked"
| "get_type (Frame_StreamsBlocked t l) =
     (case t of BiDi \<Rightarrow> FT_StreamsBlockedBiDi | UniDi \<Rightarrow> FT_StreamsBlockedUniDi)"
| "get_type (Frame_NewConnectionId s r c t) = FT_NewConnectionId"
| "get_type (Frame_RetireConnectionId s) = FT_RetireConnectionId"
| "get_type (Frame_PathChallenge d) = FT_PathChallenge"
| "get_type (Frame_PathResponse d) = FT_PathResponse"
| "get_type (Frame_ConnectionClose e t r) =
     (case e of CloseTransport _ \<Rightarrow> FT_ConnectionCloseTransport
              | CloseApplication _ \<Rightarrow> FT_ConnectionCloseApplication)"
| "get_type Frame_HandshakeDone = FT_HandshakeDone"
| "get_type (Frame_AckFrequency s t d i) = FT_AckFrequency"
| "get_type (Frame_Datagram d l) = (case l of Some _ \<Rightarrow> FT_DatagramWithLen | None \<Rightarrow> FT_Datagram)"

definition is_stream :: "frame \<Rightarrow> bool" where
  "is_stream f =
     (case f of
        Frame_ResetStream _ _ _ \<Rightarrow> True
      | Frame_ResetStreamAt _ _ _ _ \<Rightarrow> True
      | Frame_StopSending _ _ \<Rightarrow> True
      | Frame_Stream _ _ _ _ _ \<Rightarrow> True
      | Frame_MaxData _ \<Rightarrow> True
      | Frame_MaxStreamData _ _ \<Rightarrow> True
      | Frame_MaxStreams _ _ \<Rightarrow> True
      | Frame_DataBlocked _ \<Rightarrow> True
      | Frame_StreamDataBlocked _ _ \<Rightarrow> True
      | Frame_StreamsBlocked _ _ \<Rightarrow> True
      | _ \<Rightarrow> False)"

definition ack_eliciting :: "frame \<Rightarrow> bool" where
  "ack_eliciting f =
     (case f of
        Frame_Ack _ _ _ _ _ \<Rightarrow> False
      | Frame_Padding _ \<Rightarrow> False
      | Frame_ConnectionClose _ _ _ \<Rightarrow> False
      | _ \<Rightarrow> True)"

definition path_probing :: "frame \<Rightarrow> bool" where
  "path_probing f =
     (case f of
        Frame_Padding _ \<Rightarrow> True
      | Frame_NewConnectionId _ _ _ _ \<Rightarrow> True
      | Frame_PathChallenge _ \<Rightarrow> True
      | Frame_PathResponse _ \<Rightarrow> True
      | _ \<Rightarrow> False)"

definition frame_is_allowed :: "frame \<Rightarrow> packet_type \<Rightarrow> bool" where
  "frame_is_allowed f pt =
     (case f of
        Frame_Padding _ \<Rightarrow> True
      | Frame_Ping \<Rightarrow> True
      | Frame_Crypto _ _ \<Rightarrow> pt \<noteq> PT_ZeroRtt
      | Frame_Ack _ _ _ _ _ \<Rightarrow> pt \<noteq> PT_ZeroRtt
      | Frame_ConnectionClose (CloseTransport _) _ _ \<Rightarrow> pt \<noteq> PT_ZeroRtt
      | Frame_NewToken _ \<Rightarrow> pt = PT_Short
      | Frame_ConnectionClose (CloseApplication _) _ _ \<Rightarrow> pt = PT_Short
      | Frame_PathResponse _ \<Rightarrow> pt = PT_Short
      | Frame_HandshakeDone \<Rightarrow> pt = PT_Short
      | _ \<Rightarrow> pt = PT_ZeroRtt \<or> pt = PT_Short)"

subsection \<open>ACK ranges\<close>

text \<open>A range is \<open>(start, end)\<close>, both inclusive, as the \<open>RangeInclusive\<close> of the code.\<close>

fun decode_ack_loop :: "nat \<Rightarrow> ack_range list \<Rightarrow> (nat \<times> nat) list \<Rightarrow> ((nat \<times> nat) list) res" where
  "decode_ack_loop cur [] acked = Ok acked"
| "decode_ack_loop cur (r # rs) acked =
     (if cur < u64_add (ar_gap r) 1 then Err FrameEncoding
      else
        (let c = u64_sub (u64_sub cur (ar_gap r)) 1
         in if c < ar_range r then Err FrameEncoding
            else decode_ack_loop
                   (if u64_add (ar_range r) 1 < c then u64_sub c (u64_add (ar_range r) 1)
                    else u64_sub c (ar_range r))
                   rs (acked @ [(u64_sub c (ar_range r), c)])))"

definition decode_ack_frame :: "nat \<Rightarrow> nat \<Rightarrow> ack_range list \<Rightarrow> ((nat \<times> nat) list) res" where
  "decode_ack_frame largest first rs =
     (if largest < first then Err FrameEncoding
      else if rs \<noteq> [] \<and> largest < u64_add first 1 then Err FrameEncoding
      else
        decode_ack_loop (if rs = [] then 0 else u64_sub (u64_sub largest first) 1) rs
          [(u64_sub largest first, largest)])"

subsection \<open>Lossy UTF-8 conversion\<close>

text \<open>
  \<open>String::from_utf8_lossy\<close> of the standard library, as bytes of the resulting string:
  \<open>utf8_step\<close> looks at the front of a non-empty string and says whether it starts with a
  well-formed character and how many bytes that character, or the malformed prefix replaced
  by U+FFFD, takes.
\<close>

definition safe_get :: "bytes \<Rightarrow> nat \<Rightarrow> u8" where
  "safe_get bs i = (if i < length bs then bs ! i else 0)"

definition utf8_cont :: "u8 \<Rightarrow> bool" where
  "utf8_cont b \<longleftrightarrow> 0x80 \<le> b \<and> b \<le> 0xbf"

definition utf8_second :: "u8 \<Rightarrow> u8 \<Rightarrow> bool" where
  "utf8_second b c \<longleftrightarrow>
     (if b = 0xe0 then 0xa0 \<le> c \<and> c \<le> 0xbf
      else if b = 0xed then 0x80 \<le> c \<and> c \<le> 0x9f
      else if b = 0xf0 then 0x90 \<le> c \<and> c \<le> 0xbf
      else if b = 0xf4 then 0x80 \<le> c \<and> c \<le> 0x8f
      else utf8_cont c)"

definition utf8_step :: "bytes \<Rightarrow> bool \<times> nat" where
  "utf8_step bs =
     (let b = safe_get bs 0
      in if b < 0x80 then (True, 1)
         else if 0xc2 \<le> b \<and> b \<le> 0xdf then
           (if utf8_cont (safe_get bs 1) then (True, 2) else (False, 1))
         else if 0xe0 \<le> b \<and> b \<le> 0xef then
           (if \<not> utf8_second b (safe_get bs 1) then (False, 1)
            else if utf8_cont (safe_get bs 2) then (True, 3) else (False, 2))
         else if 0xf0 \<le> b \<and> b \<le> 0xf4 then
           (if \<not> utf8_second b (safe_get bs 1) then (False, 1)
            else if \<not> utf8_cont (safe_get bs 2) then (False, 2)
            else if utf8_cont (safe_get bs 3) then (True, 4) else (False, 3))
         else (False, 1))"

function utf8_lossy :: "bytes \<Rightarrow> bytes" where
  "utf8_lossy bs =
     (if bs = [] then []
      else case utf8_step bs of (ok, n) \<Rightarrow>
        (if ok then take n bs else [0xef, 0xbf, 0xbd]) @ utf8_lossy (drop n bs))"
  by auto
termination
  by (relation "measure length")
    (auto simp: utf8_step_def Let_def length_greater_0_conv split: if_splits)

declare utf8_lossy.simps [simp del]

subsection \<open>The parser\<close>

definition MAX_ACK_RANGE_COUNT :: nat where
  "MAX_ACK_RANGE_COUNT = 32 * 1024"

text \<open>The local helpers \<open>d\<close> and \<open>dv\<close> of \<open>Frame::decode\<close>; a decoding step returns the decoder too.\<close>

fun d_opt :: "'a option \<times> decoder \<Rightarrow> ('a \<times> decoder) res" where
  "d_opt (None, d) = Err NoMoreData"
| "d_opt (Some x, d) = Ok (x, d)"

definition dv :: "decoder \<Rightarrow> (nat \<times> decoder) res" where
  "dv d = bind_res (d_opt (decode_varint d)) (\<lambda>(v, d'). Ok (unat v, d'))"

fun decode_ack_ranges :: "nat \<Rightarrow> decoder \<Rightarrow> (ack_range list \<times> decoder) res" where
  "decode_ack_ranges 0 d = Ok ([], d)"
| "decode_ack_ranges (Suc n) d =
     bind_res (dv d) (\<lambda>(gap, d).
     bind_res (dv d) (\<lambda>(range, d).
     bind_res (decode_ack_ranges n d) (\<lambda>(rs, d).
       Ok (\<lparr>ar_gap = gap, ar_range = range\<rparr> # rs, d))))"

definition decode_ecn_count :: "decoder \<Rightarrow> (ecn_count \<times> decoder) res" where
  "decode_ecn_count d =
     bind_res (dv d) (\<lambda>(a, d).
     bind_res (dv d) (\<lambda>(b, d).
     bind_res (dv d) (\<lambda>(c, d).
       Ok (ecn_count_new 0 a b c, d))))"

definition decode_ack :: "bool \<Rightarrow> decoder \<Rightarrow> (frame \<times> decoder) res" where
  "decode_ack ecn d =
     bind_res (dv d) (\<lambda>(la, d).
     bind_res (dv d) (\<lambda>(ad, d).
     bind_res (dv d) (\<lambda>(nr, d).
       if \<not> nr < MAX_ACK_RANGE_COUNT then Err TooMuchData
       else
         bind_res (dv d) (\<lambda>(fa, d).
         bind_res (decode_ack_ranges nr d) (\<lambda>(arr, d).
           if ecn then bind_res (decode_ecn_count d) (\<lambda>(c, d). Ok (Frame_Ack la ad fa arr (Some c), d))
           else Ok (Frame_Ack la ad fa arr None, d))))))"

definition decode_stream :: "frame_type \<Rightarrow> decoder \<Rightarrow> (frame \<times> decoder) res" where
  "decode_stream t d =
     bind_res (dv d) (\<lambda>(s, d).
     bind_res (if is_stream_with_offset t then dv d else Ok (0, d)) (\<lambda>(off, d).
     (let fill = (\<not> is_stream_with_length t)
      in bind_res (if fill then Ok (decode_remainder d) else d_opt (decode_vvec d)) (\<lambda>(data, d).
           if MAX_VARINT < u64_add off (length data) then Err FrameEncoding
           else Ok (Frame_Stream s off data (is_stream_with_fin t) fill, d)))))"

text \<open>\<open>Srt::try_from(dec)\<close>: the conversion of the slice to an array cannot fail, its length is right.\<close>

definition decode_srt :: "decoder \<Rightarrow> (bytes \<times> decoder) res" where
  "decode_srt d = d_opt (decode d SRT_LEN)"

definition decode_new_connection_id :: "decoder \<Rightarrow> (frame \<times> decoder) res" where
  "decode_new_connection_id d =
     bind_res (dv d) (\<lambda>(sequence_number, d).
     bind_res (dv d) (\<lambda>(retire_prior, d).
       if sequence_number < retire_prior then Err FrameEncoding
       else
         bind_res (decode_vec d 1) (\<lambda>r.
         bind_res (d_opt r) (\<lambda>(cid, d).
           if cid = [] \<or> CID_MAX_LEN < length cid then Err FrameEncoding
           else
             bind_res (decode_srt d) (\<lambda>(srt, d).
               Ok (Frame_NewConnectionId sequence_number retire_prior cid srt, d))))))"

definition decode_connection_close :: "frame_type \<Rightarrow> decoder \<Rightarrow> (frame \<times> decoder) res" where
  "decode_connection_close t d =
     bind_res
       (if t = FT_ConnectionCloseTransport
        then bind_res (dv d) (\<lambda>(c, d). bind_res (dv d) (\<lambda>(ft, d). Ok ((CloseTransport c, ft), d)))
        else bind_res (dv d) (\<lambda>(c, d). Ok ((CloseApplication c, 0), d)))
       (\<lambda>((error_code, ft), d).
         bind_res (d_opt (decode_vvec d)) (\<lambda>(reason, d).
           Ok (Frame_ConnectionClose error_code ft (utf8_lossy reason), d)))"

definition decode_ack_frequency :: "decoder \<Rightarrow> (frame \<times> decoder) res" where
  "decode_ack_frequency d =
     bind_res (dv d) (\<lambda>(seqno, d).
     bind_res (dv d) (\<lambda>(tolerance, d).
       if tolerance = 0 then Err FrameEncoding
       else
         bind_res (dv d) (\<lambda>(delay, d).
         bind_res (decode_uint 1 d) (\<lambda>r.
         bind_res (d_opt r) (\<lambda>(b, d).
           if b = 0 then Ok (Frame_AckFrequency seqno tolerance delay False, d)
           else if b = 1 then Ok (Frame_AckFrequency seqno tolerance delay True, d)
           else Err FrameEncoding)))))"

definition decode_path_data :: "(bytes \<Rightarrow> frame) \<Rightarrow> decoder \<Rightarrow> (frame \<times> decoder) res" where
  "decode_path_data F d = bind_res (d_opt (decode d PATH_CHALLENGE_LEN)) (\<lambda>(data, d). Ok (F data, d))"

text \<open>
  The arms of the match of \<open>Frame::decode\<close>. \<open>align\<close> is the address offset \<open>skip_while\<close> depends on.
\<close>

definition decode_body :: "nat \<Rightarrow> frame_type \<Rightarrow> decoder \<Rightarrow> (frame \<times> decoder) res" where
  "decode_body align t d =
     (case t of
        FT_Padding \<Rightarrow>
          bind_res (skip_while align d 0) (\<lambda>(n, d).
            if 1 + n < 2 ^ 16 then Ok (Frame_Padding (1 + n), d) else Err TooMuchData)
      | FT_Ping \<Rightarrow> Ok (Frame_Ping, d)
      | FT_ResetStream \<Rightarrow>
          bind_res (dv d) (\<lambda>(i, d). bind_res (dv d) (\<lambda>(e, d). bind_res (dv d) (\<lambda>(f, d).
            Ok (Frame_ResetStream i e f, d))))
      | FT_ResetStreamAt \<Rightarrow>
          bind_res (dv d) (\<lambda>(i, d). bind_res (dv d) (\<lambda>(e, d). bind_res (dv d) (\<lambda>(f, d).
          bind_res (dv d) (\<lambda>(r, d).
            if f < r then Err FrameEncoding else Ok (Frame_ResetStreamAt i e f r, d)))))
      | FT_Ack \<Rightarrow> decode_ack False d
      | FT_AckEcn \<Rightarrow> decode_ack True d
      | FT_StopSending \<Rightarrow>
          bind_res (dv d) (\<lambda>(i, d). bind_res (dv d) (\<lambda>(e, d). Ok (Frame_StopSending i e, d)))
      | FT_Crypto \<Rightarrow>
          bind_res (dv d) (\<lambda>(off, d). bind_res (d_opt (decode_vvec d)) (\<lambda>(data, d).
            if MAX_VARINT < u64_add off (length data) then Err FrameEncoding
            else Ok (Frame_Crypto off data, d)))
      | FT_NewToken \<Rightarrow>
          bind_res (d_opt (decode_vvec d)) (\<lambda>(token, d).
            if token = [] then Err FrameEncoding else Ok (Frame_NewToken token, d))
      | FT_MaxData \<Rightarrow> bind_res (dv d) (\<lambda>(m, d). Ok (Frame_MaxData m, d))
      | FT_MaxStreamData \<Rightarrow>
          bind_res (dv d) (\<lambda>(i, d). bind_res (dv d) (\<lambda>(m, d). Ok (Frame_MaxStreamData i m, d)))
      | FT_MaxStreamsBiDi \<Rightarrow>
          bind_res (dv d) (\<lambda>(m, d).
            if MAX_STREAMS_LIMIT < m then Err StreamLimit
            else bind_res (stream_type_try_from t) (\<lambda>st. Ok (Frame_MaxStreams st m, d)))
      | FT_MaxStreamsUniDi \<Rightarrow>
          bind_res (dv d) (\<lambda>(m, d).
            if MAX_STREAMS_LIMIT < m then Err StreamLimit
            else bind_res (stream_type_try_from t) (\<lambda>st. Ok (Frame_MaxStreams st m, d)))
      | FT_DataBlocked \<Rightarrow> bind_res (dv d) (\<lambda>(l, d). Ok (Frame_DataBlocked l, d))
      | FT_StreamDataBlocked \<Rightarrow>
          bind_res (dv d) (\<lambda>(i, d). bind_res (dv d) (\<lambda>(l, d). Ok (Frame_StreamDataBlocked i l, d)))
      | FT_StreamsBlockedBiDi \<Rightarrow>
          bind_res (dv d) (\<lambda>(m, d).
            if MAX_STREAMS_LIMIT < m then Err StreamLimit
            else bind_res (stream_type_try_from t) (\<lambda>st. Ok (Frame_StreamsBlocked st m, d)))
      | FT_StreamsBlockedUniDi \<Rightarrow>
          bind_res (dv d) (\<lambda>(m, d).
            if MAX_STREAMS_LIMIT < m then Err StreamLimit
            else bind_res (stream_type_try_from t) (\<lambda>st. Ok (Frame_StreamsBlocked st m, d)))
      | FT_NewConnectionId \<Rightarrow> decode_new_connection_id d
      | FT_RetireConnectionId \<Rightarrow> bind_res (dv d) (\<lambda>(s, d). Ok (Frame_RetireConnectionId s, d))
      | FT_PathChallenge \<Rightarrow> decode_path_data Frame_PathChallenge d
      | FT_PathResponse \<Rightarrow> decode_path_data Frame_PathResponse d
      | FT_ConnectionCloseTransport \<Rightarrow> decode_connection_close t d
      | FT_ConnectionCloseApplication \<Rightarrow> decode_connection_close t d
      | FT_HandshakeDone \<Rightarrow> Ok (Frame_HandshakeDone, d)
      | FT_AckFrequency \<Rightarrow> decode_ack_frequency d
      | FT_Datagram \<Rightarrow> (case decode_remainder d of (data, d) \<Rightarrow> Ok (Frame_Datagram data None, d))
      | FT_DatagramWithLen \<Rightarrow>
          (let len_start = doffset d
           in bind_res (d_opt (decode_vvec d)) (\<lambda>(data, d).
                (let n = doffset d - len_start - length data
                 in Ok (Frame_Datagram data (if n = 0 then None else Some n), d))))
      | _ \<Rightarrow> decode_stream t d)"

definition frame_decode :: "nat \<Rightarrow> decoder \<Rightarrow> (frame \<times> decoder) res" where
  "frame_decode align d =
     (let pos = doffset d
      in bind_res (dv d) (\<lambda>(t, d).
         bind_res (varint_len t) (\<lambda>n.
           if n \<noteq> doffset d - pos then Err ProtocolViolation
           else bind_res (frame_type_try_from t) (\<lambda>t. decode_body align t d))))"

text \<open>\<open>FrameEncoder::encode_frame\<close>; a frame type is given by its code.\<close>

definition encode_frame ::
    "'b Buffer \<Rightarrow> 'b encoder \<Rightarrow> nat \<Rightarrow> ('b encoder \<Rightarrow> ('b encoder) res) \<Rightarrow> ('b encoder) res" where
  "encode_frame B e frame_type encode_fn =
     bind_res (encode_varint B e (word_of_nat frame_type)) encode_fn"

end
