(* ===== verification/Crypto.thy ===== *)
theory Crypto
  imports Packet_Types Stream_Id
begin

text \<open>
  Packet protection state (\<open>neqo-transport/src/crypto.rs\<close>): one direction of keys (\<open>CryptoDxState\<close>), the
  application keys with the secret of their successor (\<open>CryptoDxAppData\<close>), and the keys of a
  connection with the key-update machinery (\<open>CryptoStates\<close>).

  The AEAD, the header protection and the key derivation belong to the NSS binding, which is not part
  of the repository: they are parameters (the records \<open>aead\<close> and \<open>nss\<close>). \<open>'k\<close> is the type of secrets. The TLS
  agent and the handshake (\<open>Crypto\<close>) are not modelled.
\<close>

subsection \<open>One direction\<close>

datatype direction = Dir_Read | Dir_Write

text \<open>
  \<open>encrypt_in_place pn aad data\<close> seals \<open>data\<close>, whose last \<open>expansion\<close> bytes are room for the tag, and
  returns the new content; \<open>decrypt_in_place\<close> returns the new content and the length of the plaintext.
\<close>

record aead =
  aead_expansion :: nat
  encrypt_in_place :: "nat \<Rightarrow> bytes \<Rightarrow> bytes \<Rightarrow> bytes res"
  decrypt_in_place :: "nat \<Rightarrow> bytes \<Rightarrow> bytes \<Rightarrow> (bytes \<times> nat) res"

type_synonym hp_key = "bytes \<Rightarrow> bytes res"

definition HP_SAMPLE_SIZE :: nat where
  "HP_SAMPLE_SIZE = 16"

datatype cipher = TLS_AES_128_GCM_SHA256 | TLS_AES_256_GCM_SHA384 | TLS_CHACHA20_POLY1305_SHA256

record 'k nss =
  aead_new :: "cipher \<Rightarrow> 'k \<Rightarrow> string \<Rightarrow> direction \<Rightarrow> aead res"
  hp_extract :: "cipher \<Rightarrow> 'k \<Rightarrow> string \<Rightarrow> hp_key res"
  hkdf_expand_label :: "cipher \<Rightarrow> 'k \<Rightarrow> string \<Rightarrow> 'k res"
  hkdf_extract :: "bytes \<Rightarrow> bytes \<Rightarrow> 'k res"

record crypto_dx =
  dx_version :: version
  dx_direction :: direction
  dx_epoch :: nat
  dx_aead :: aead
  dx_hpkey :: hp_key
  used_pn :: "nat \<times> nat"
  min_pn :: nat
  invocations :: nat
  largest_packet_len :: nat

definition UPDATE_WRITE_KEYS_AT :: nat where
  "UPDATE_WRITE_KEYS_AT = 100"

definition INITIAL_LARGEST_PACKET_LEN :: nat where
  "INITIAL_LARGEST_PACKET_LEN = 2 ^ 11"

fun label_prefix :: "version \<Rightarrow> string" where
  "label_prefix Version2 = ''quicv2 ''"
| "label_prefix Version1 = ''quic ''"

fun initial_salt :: "version \<Rightarrow> bytes" where
  "initial_salt Version2 =
     [0x0d, 0xed, 0xe3, 0xde, 0xf7, 0x00, 0xa6, 0xdb, 0x81, 0x93, 0x81, 0xbe, 0x6e, 0x26,
      0x9d, 0xcb, 0xf9, 0xbd, 0x2e, 0xd9]"
| "initial_salt Version1 =
     [0x38, 0x76, 0x2c, 0xf7, 0xf5, 0x59, 0x34, 0xb3, 0x4d, 0x17, 0x9a, 0xe6, 0xa4, 0xc8,
      0x0c, 0xad, 0xcc, 0xbb, 0x7f, 0x0a]"

fun dx_limit :: "direction \<Rightarrow> cipher \<Rightarrow> nat" where
  "dx_limit Dir_Read TLS_AES_128_GCM_SHA256 = 2 ^ 52"
| "dx_limit Dir_Read TLS_AES_256_GCM_SHA384 = 2 ^ 64 - 1"
| "dx_limit Dir_Read TLS_CHACHA20_POLY1305_SHA256 = 2 ^ 36"
| "dx_limit Dir_Write TLS_AES_128_GCM_SHA256 = 2 ^ 28"
| "dx_limit Dir_Write TLS_AES_256_GCM_SHA384 = 2 ^ 28"
| "dx_limit Dir_Write TLS_CHACHA20_POLY1305_SHA256 = 2 ^ 64 - 1"

definition dx_new ::
    "'k nss \<Rightarrow> version \<Rightarrow> direction \<Rightarrow> epoch \<Rightarrow> 'k \<Rightarrow> cipher \<Rightarrow> nat \<Rightarrow> crypto_dx res" where
  "dx_new N v dir ep secret c mpn =
     bind_res (aead_new N c secret (label_prefix v) dir) (\<lambda>a.
     bind_res (hp_extract N c secret (label_prefix v @ ''hp'')) (\<lambda>hp.
       Ok \<lparr>dx_version = v, dx_direction = dir, dx_epoch = epoch_index ep, dx_aead = a, dx_hpkey = hp,
           used_pn = (mpn, mpn), min_pn = mpn, invocations = dx_limit dir c,
           largest_packet_len = INITIAL_LARGEST_PACKET_LEN\<rparr>))"

definition dx_new_initial ::
    "'k nss \<Rightarrow> version \<Rightarrow> direction \<Rightarrow> string \<Rightarrow> bytes \<Rightarrow> nat \<Rightarrow> crypto_dx res" where
  "dx_new_initial N v dir label dcid mpn =
     bind_res (hkdf_extract N (initial_salt v) dcid) (\<lambda>initial_secret.
     bind_res (hkdf_expand_label N TLS_AES_128_GCM_SHA256 initial_secret label) (\<lambda>secret.
       dx_new N v dir Epoch_Initial secret TLS_AES_128_GCM_SHA256 mpn))"

definition invoked :: "crypto_dx \<Rightarrow> crypto_dx res" where
  "invoked dx = (if invocations dx < 1 then Err KeysExhausted else Ok (dx\<lparr>invocations := invocations dx - 1\<rparr>))"

definition should_update :: "crypto_dx \<Rightarrow> bool res" where
  "should_update dx =
     assert_res (dx_direction dx = Dir_Write) (Ok (invocations dx \<le> UPDATE_WRITE_KEYS_AT))"

definition next_pn :: "crypto_dx \<Rightarrow> nat" where
  "next_pn dx = snd (used_pn dx)"

definition dx_next :: "'k nss \<Rightarrow> crypto_dx \<Rightarrow> 'k \<Rightarrow> cipher \<Rightarrow> crypto_dx res" where
  "dx_next N dx next_secret c =
     (let pn = next_pn dx;
          inv = (if dx_direction dx = Dir_Read then invocations dx else dx_limit Dir_Write c)
      in bind_res (aead_new N c next_secret (label_prefix (dx_version dx)) (dx_direction dx)) (\<lambda>a.
           Ok (dx\<lparr>dx_epoch := dx_epoch dx + 1, dx_aead := a, used_pn := (pn, pn), min_pn := pn,
                  invocations := inv, largest_packet_len := INITIAL_LARGEST_PACKET_LEN\<rparr>)))"

definition key_phase :: "crypto_dx \<Rightarrow> bool" where
  "key_phase dx \<longleftrightarrow> dx_epoch dx AND 1 \<noteq> 1"

text \<open>\<open>continuation\<close> updates the packet number bounds even when it reports an overlap.\<close>

definition continuation :: "crypto_dx \<Rightarrow> crypto_dx \<Rightarrow> (crypto_dx \<times> error option) res" where
  "continuation dx prev =
     assert_res (dx_direction dx = dx_direction prev)
       (let nxt = next_pn prev;
            dx' = dx\<lparr>min_pn := nxt\<rparr>
        in if \<not> fst (used_pn dx) < snd (used_pn dx) then Ok (dx'\<lparr>used_pn := (nxt, nxt)\<rparr>, None)
           else if fst (used_pn dx) < snd (used_pn prev) then Ok (dx', Some PacketNumberOverlap)
           else Ok (dx'\<lparr>used_pn := (nxt, snd (used_pn dx))\<rparr>, None))"

definition dx_used :: "crypto_dx \<Rightarrow> nat \<Rightarrow> crypto_dx res" where
  "dx_used dx pn =
     (if pn < min_pn dx then Err PacketNumberOverlap
      else
        (let start = (if fst (used_pn dx) = snd (used_pn dx) then pn else fst (used_pn dx))
         in Ok (dx\<lparr>used_pn := (start, max (u64_add pn 1) (snd (used_pn dx)))\<rparr>)))"

definition needs_update :: "crypto_dx \<Rightarrow> bool" where
  "needs_update dx \<longleftrightarrow>
     u64_add (fst (used_pn dx)) 1 = snd (used_pn dx) \<and> epoch_index Epoch_ApplicationData < dx_epoch dx"

definition can_update :: "crypto_dx \<Rightarrow> nat option \<Rightarrow> bool" where
  "can_update dx largest_acknowledged =
     (case largest_acknowledged of
        None \<Rightarrow> dx_epoch dx = epoch_index Epoch_ApplicationData
      | Some la \<Rightarrow> fst (used_pn dx) \<le> la \<and> la < snd (used_pn dx))"

definition compute_mask :: "crypto_dx \<Rightarrow> bytes \<Rightarrow> bytes res" where
  "compute_mask dx sample = dx_hpkey dx sample"

text \<open>\<open>usize::leading_zeros\<close>.\<close>

fun bit_length :: "nat \<Rightarrow> nat" where
  "bit_length n = (if n = 0 then 0 else Suc (bit_length (n div 2)))"

declare bit_length.simps [simp del]

definition leading_zeros :: "nat \<Rightarrow> nat" where
  "leading_zeros n = 64 - bit_length n"

definition dx_expansion :: "crypto_dx \<Rightarrow> nat" where
  "dx_expansion dx = aead_expansion (dx_aead dx)"

definition extra_padding :: "crypto_dx \<Rightarrow> nat" where
  "extra_padding dx = HP_SAMPLE_SIZE - dx_expansion dx"

text \<open>
  \<open>encrypt\<close> works on a whole buffer, of which \<open>hdr\<close> is the header of the packet; it returns the new
  content. The slices and the subtraction panic when the buffer is too short.
\<close>

definition dx_encrypt :: "crypto_dx \<Rightarrow> nat \<Rightarrow> nat \<times> nat \<Rightarrow> bytes \<Rightarrow> (bytes \<times> crypto_dx) res" where
  "dx_encrypt dx pn hdr data =
     assert_res (dx_direction dx = Dir_Write)
     (assert_res (snd hdr - fst hdr + dx_expansion dx \<le> length data)
       (let body_len = length data - (snd hdr - fst hdr) - dx_expansion dx
        in assert_res (body_len \<le> 65535)
           (let dx1 = (if largest_packet_len dx < body_len
                       then dx\<lparr>invocations := drop_bit (leading_zeros (largest_packet_len dx - 1)
                                 - leading_zeros (body_len - 1)) (invocations dx),
                               largest_packet_len := body_len\<rparr>
                       else dx)
            in bind_res (invoked dx1) (\<lambda>dx2.
                 assert_res (fst hdr \<le> snd hdr \<and> snd hdr \<le> length data)
                 (bind_res (encrypt_in_place (dx_aead dx2) pn (drop (fst hdr) (take (snd hdr) data))
                              (drop (snd hdr) data)) (\<lambda>ct.
                  assert_res (pn = next_pn dx2)
                  (bind_res (dx_used dx2 pn) (\<lambda>dx3. Ok (take (snd hdr) data @ ct, dx3)))))))))"

text \<open>The new content, the length of the plaintext, and the new state; a state is returned with an error too.\<close>

definition dx_decrypt ::
    "crypto_dx \<Rightarrow> nat \<Rightarrow> nat \<times> nat \<Rightarrow> bytes \<Rightarrow> (crypto_dx \<times> error + crypto_dx \<times> bytes \<times> nat) res" where
  "dx_decrypt dx pn hdr data =
     assert_res (dx_direction dx = Dir_Read)
     (case invoked dx of
        Err e \<Rightarrow> Ok (Inl (dx, e))
      | Panic \<Rightarrow> Panic
      | Ok dx1 \<Rightarrow>
          assert_res (snd hdr \<le> length data)
          (case decrypt_in_place (dx_aead dx1) pn (take (snd hdr) data) (drop (snd hdr) data) of
             Err e \<Rightarrow> Ok (Inl (dx1, e))
           | Panic \<Rightarrow> Panic
           | Ok (pt, n) \<Rightarrow>
               (case dx_used dx1 pn of
                  Err e \<Rightarrow> Ok (Inl (dx1, e))
                | Panic \<Rightarrow> Panic
                | Ok dx2 \<Rightarrow> Ok (Inr (dx2, take (snd hdr) data @ pt, n)))))"

subsection \<open>Application keys\<close>

record 'k crypto_app =
  app_dx :: crypto_dx
  app_cipher :: cipher
  next_secret :: 'k

definition update_secret :: "'k nss \<Rightarrow> version \<Rightarrow> cipher \<Rightarrow> 'k \<Rightarrow> 'k res" where
  "update_secret N v c secret = hkdf_expand_label N c secret (label_prefix v @ ''ku'')"

definition app_new :: "'k nss \<Rightarrow> version \<Rightarrow> direction \<Rightarrow> 'k \<Rightarrow> cipher \<Rightarrow> ('k crypto_app) res" where
  "app_new N v dir secret c =
     bind_res (dx_new N v dir Epoch_ApplicationData secret c 0) (\<lambda>dx.
     bind_res (update_secret N v c secret) (\<lambda>ns.
       Ok \<lparr>app_dx = dx, app_cipher = c, next_secret = ns\<rparr>))"

definition app_epoch :: "'k crypto_app \<Rightarrow> nat" where
  "app_epoch a = dx_epoch (app_dx a)"

definition app_next :: "'k nss \<Rightarrow> 'k crypto_app \<Rightarrow> ('k crypto_app) res" where
  "app_next N a =
     (if dx_epoch (app_dx a) = USIZE_MAX then Err KeysExhausted
      else
        bind_res (update_secret N (dx_version (app_dx a)) (app_cipher a) (next_secret a)) (\<lambda>ns.
        bind_res (dx_next N (app_dx a) (next_secret a) (app_cipher a)) (\<lambda>dx.
          Ok \<lparr>app_dx = dx, app_cipher = app_cipher a, next_secret = ns\<rparr>)))"

subsection \<open>The keys of a connection\<close>

record crypto_state =
  cs_tx :: crypto_dx
  cs_rx :: crypto_dx

record 'k crypto_states =
  initials :: "version \<Rightarrow> crypto_state option"
  handshake :: "crypto_state option"
  zero_rtt :: "crypto_dx option"
  states_cipher :: "cipher option"
  app_write :: "'k crypto_app option"
  app_read :: "'k crypto_app option"
  app_read_next :: "'k crypto_app option"
  read_update_time :: "nat option"
  read_update_epoch :: "nat option"

text \<open>The cipher 0 of a default \<open>CryptoStates\<close> is \<open>None\<close>.\<close>

definition crypto_states_default :: "'k crypto_states" where
  "crypto_states_default =
     \<lparr>initials = (\<lambda>_. None), handshake = None, zero_rtt = None, states_cipher = None, app_write = None,
      app_read = None, app_read_next = None, read_update_time = None, read_update_epoch = None\<rparr>"

definition initials_is_empty :: "'k crypto_states \<Rightarrow> bool" where
  "initials_is_empty s \<longleftrightarrow> initials s Version2 = None \<and> initials s Version1 = None"

definition zero_rtt_dir :: "direction \<Rightarrow> 'k crypto_states \<Rightarrow> crypto_dx option" where
  "zero_rtt_dir dir s =
     (case zero_rtt s of
        None \<Rightarrow> None
      | Some z \<Rightarrow> if dx_direction z = dir then Some z else None)"

definition tx :: "'k crypto_states \<Rightarrow> version \<Rightarrow> epoch \<Rightarrow> crypto_dx option" where
  "tx s v e =
     (case e of
        Epoch_Initial \<Rightarrow> map_option cs_tx (initials s v)
      | Epoch_ZeroRtt \<Rightarrow> zero_rtt_dir Dir_Write s
      | Epoch_Handshake \<Rightarrow> map_option cs_tx (handshake s)
      | Epoch_ApplicationData \<Rightarrow> map_option app_dx (app_write s))"

definition select_tx :: "'k crypto_states \<Rightarrow> version \<Rightarrow> pn_space \<Rightarrow> (epoch \<times> crypto_dx) option" where
  "select_tx s v space =
     (case space of
        Space_Initial \<Rightarrow> map_option (Pair Epoch_Initial) (tx s v Epoch_Initial)
      | Space_Handshake \<Rightarrow> map_option (Pair Epoch_Handshake) (tx s v Epoch_Handshake)
      | Space_ApplicationData \<Rightarrow>
          (case app_write s of
             Some app \<Rightarrow> Some (Epoch_ApplicationData, app_dx app)
           | None \<Rightarrow> map_option (Pair Epoch_ZeroRtt) (zero_rtt s)))"

text \<open>
  The references the code hands out to the receiving keys of a \<open>CryptoStates\<close> are names of the field they point to.
\<close>

datatype rx_slot = Slot_Initial version | Slot_ZeroRtt | Slot_Handshake | Slot_AppRead | Slot_AppReadNext

fun slot_get :: "'k crypto_states \<Rightarrow> rx_slot \<Rightarrow> crypto_dx option" where
  "slot_get s (Slot_Initial v) = map_option cs_rx (initials s v)"
| "slot_get s Slot_ZeroRtt = zero_rtt s"
| "slot_get s Slot_Handshake = map_option cs_rx (handshake s)"
| "slot_get s Slot_AppRead = map_option app_dx (app_read s)"
| "slot_get s Slot_AppReadNext = map_option app_dx (app_read_next s)"

fun slot_put :: "'k crypto_states \<Rightarrow> rx_slot \<Rightarrow> crypto_dx \<Rightarrow> 'k crypto_states" where
  "slot_put s (Slot_Initial v) dx =
     s\<lparr>initials := (initials s)(v := map_option (\<lambda>c. c\<lparr>cs_rx := dx\<rparr>) (initials s v))\<rparr>"
| "slot_put s Slot_ZeroRtt dx = s\<lparr>zero_rtt := Some dx\<rparr>"
| "slot_put s Slot_Handshake dx = s\<lparr>handshake := map_option (\<lambda>c. c\<lparr>cs_rx := dx\<rparr>) (handshake s)\<rparr>"
| "slot_put s Slot_AppRead dx = s\<lparr>app_read := map_option (\<lambda>a. a\<lparr>app_dx := dx\<rparr>) (app_read s)\<rparr>"
| "slot_put s Slot_AppReadNext dx = s\<lparr>app_read_next := map_option (\<lambda>a. a\<lparr>app_dx := dx\<rparr>) (app_read_next s)\<rparr>"

definition maybe_continue_initial_rx :: "'k crypto_states \<Rightarrow> version \<Rightarrow> ('k crypto_states) res" where
  "maybe_continue_initial_rx s v =
     (case initials s v of
        None \<Rightarrow> Ok s
      | Some nx \<Rightarrow>
          if next_pn (cs_rx nx) \<noteq> 0 then Ok s
          else
            (case List.find (\<lambda>k. case initials s k of None \<Rightarrow> False | Some z \<Rightarrow> 0 < next_pn (cs_rx z)) version_all of
               None \<Rightarrow> Ok s
             | Some other \<Rightarrow>
                 assert_res (v \<noteq> other)
                 (case initials s other of
                    None \<Rightarrow> Ok s
                  | Some prev \<Rightarrow>
                      bind_res (continuation (cs_rx nx) (cs_rx prev)) (\<lambda>(dx, _).
                        Ok (s\<lparr>initials := (initials s)(v := Some (nx\<lparr>cs_rx := dx\<rparr>))\<rparr>)))))"

definition rx :: "'k crypto_states \<Rightarrow> version \<Rightarrow> epoch \<Rightarrow> bool \<Rightarrow> rx_slot option" where
  "rx s v e kp =
     (case e of
        Epoch_Initial \<Rightarrow> (case initials s v of None \<Rightarrow> None | Some _ \<Rightarrow> Some (Slot_Initial v))
      | Epoch_ZeroRtt \<Rightarrow> (case zero_rtt_dir Dir_Read s of None \<Rightarrow> None | Some _ \<Rightarrow> Some Slot_ZeroRtt)
      | Epoch_Handshake \<Rightarrow> (case handshake s of None \<Rightarrow> None | Some _ \<Rightarrow> Some Slot_Handshake)
      | Epoch_ApplicationData \<Rightarrow>
          (let f = (\<lambda>a. case a of None \<Rightarrow> False | Some ar \<Rightarrow> key_phase (app_dx ar) = kp)
           in case (f (app_read s), f (app_read_next s)) of
                (True, False) \<Rightarrow> Some Slot_AppRead
              | (False, True) \<Rightarrow> Some Slot_AppReadNext
              | _ \<Rightarrow> None))"

definition rx_hp :: "'k crypto_states \<Rightarrow> version \<Rightarrow> epoch \<Rightarrow> (rx_slot option \<times> 'k crypto_states) res" where
  "rx_hp s v e =
     (case e of
        Epoch_ApplicationData \<Rightarrow>
          Ok (case app_read s of None \<Rightarrow> None | Some _ \<Rightarrow> Some Slot_AppRead, s)
      | Epoch_Initial \<Rightarrow> bind_res (maybe_continue_initial_rx s v) (\<lambda>s'. Ok (rx s' v e False, s'))
      | _ \<Rightarrow> Ok (rx s v e False, s))"

definition rx_pending :: "'k crypto_states \<Rightarrow> epoch \<Rightarrow> bool" where
  "rx_pending s e =
     (case e of
        Epoch_Initial \<Rightarrow> False
      | Epoch_ZeroRtt \<Rightarrow> False
      | Epoch_Handshake \<Rightarrow> handshake s = None \<and> \<not> initials_is_empty s
      | Epoch_ApplicationData \<Rightarrow> app_read s = None)"

text \<open>\<open>min_pn\<close> of \<open>init\<close>; \<open>r\<close> are the two random bytes, \<open>None\<close> without randomisation.\<close>

definition init_min_pn :: "(u8 \<times> u8) option \<Rightarrow> nat" where
  "init_min_pn r =
     (case r of
        Some (r0, r1) \<Rightarrow> unat (r0 AND 0x1f) + push_bit 5 (unat r1 - 224) + 1
      | None \<Rightarrow> 0)"

fun ignore_ok :: "(crypto_dx \<times> error option) res \<Rightarrow> crypto_dx res" where
  "ignore_ok (Ok (dx, None)) = Ok dx"
| "ignore_ok (Ok (dx, Some e)) = Err e"
| "ignore_ok (Err e) = Err e"
| "ignore_ok Panic = Panic"

fun crypto_init ::
    "'k nss \<Rightarrow> 'k crypto_states \<Rightarrow> version list \<Rightarrow> role \<Rightarrow> bytes \<Rightarrow> (u8 \<times> u8) option \<Rightarrow> ('k crypto_states) res"
    where
  "crypto_init N s [] r dcid rnd = Ok s"
| "crypto_init N s (v # vs) r dcid rnd =
     (let (write, read) = (case r of Client \<Rightarrow> (''client in'', ''server in'')
                                   | Server \<Rightarrow> (''server in'', ''client in''))
      in bind_res (dx_new_initial N v Dir_Write write dcid (init_min_pn rnd)) (\<lambda>itx.
         bind_res (dx_new_initial N v Dir_Read read dcid 0) (\<lambda>irx.
         bind_res (case initials s v of
                     None \<Rightarrow> Ok \<lparr>cs_tx = itx, cs_rx = irx\<rparr>
                   | Some prev \<Rightarrow>
                       bind_res (ignore_ok (continuation irx (cs_rx prev))) (\<lambda>irx'.
                       bind_res (ignore_ok (continuation itx (cs_tx prev))) (\<lambda>itx'.
                         Ok \<lparr>cs_tx = itx', cs_rx = irx'\<rparr>))) (\<lambda>initial.
           crypto_init N (s\<lparr>initials := (initials s)(v := Some initial)\<rparr>) vs r dcid rnd))))"

definition init_server ::
    "'k nss \<Rightarrow> 'k crypto_states \<Rightarrow> version \<Rightarrow> bytes \<Rightarrow> (u8 \<times> u8) option \<Rightarrow> ('k crypto_states) res" where
  "init_server N s v dcid rnd =
     (if initials s v = None then crypto_init N s [v] Server dcid rnd else Ok s)"

definition states_confirm_version ::
    "'k crypto_states \<Rightarrow> version \<Rightarrow> version \<Rightarrow> ('k crypto_states) res" where
  "states_confirm_version s orig confirmed =
     (if orig \<noteq> confirmed then
        (case initials s orig of
           None \<Rightarrow> Ok s
         | Some prev \<Rightarrow>
             (case initials s confirmed of
                None \<Rightarrow> Err VersionNegotiation
              | Some nx \<Rightarrow>
                  bind_res (ignore_ok (continuation (cs_rx nx) (cs_rx prev))) (\<lambda>r.
                  bind_res (ignore_ok (continuation (cs_tx nx) (cs_tx prev))) (\<lambda>t.
                    Ok (s\<lparr>initials := (initials s)(confirmed := Some \<lparr>cs_tx = t, cs_rx = r\<rparr>)\<rparr>)))))
      else Ok s)"

definition set_0rtt_keys ::
    "'k nss \<Rightarrow> 'k crypto_states \<Rightarrow> version \<Rightarrow> direction \<Rightarrow> 'k \<Rightarrow> cipher \<Rightarrow> ('k crypto_states) res" where
  "set_0rtt_keys N s v dir secret c =
     bind_res (dx_new N v dir Epoch_ZeroRtt secret c 0) (\<lambda>dx. Ok (s\<lparr>zero_rtt := Some dx\<rparr>))"

definition states_discard :: "'k crypto_states \<Rightarrow> pn_space \<Rightarrow> (bool \<times> 'k crypto_states) res" where
  "states_discard s space =
     (case space of
        Space_Initial \<Rightarrow> Ok (\<not> initials_is_empty s, s\<lparr>initials := (\<lambda>_. None)\<rparr>)
      | Space_Handshake \<Rightarrow> Ok (handshake s \<noteq> None, s\<lparr>handshake := None\<rparr>)
      | Space_ApplicationData \<Rightarrow> Panic)"

definition discard_0rtt_keys :: "'k crypto_states \<Rightarrow> ('k crypto_states) res" where
  "discard_0rtt_keys s = assert_res (app_read s = None) (Ok (s\<lparr>zero_rtt := None\<rparr>))"

definition set_handshake_keys ::
    "'k nss \<Rightarrow> 'k crypto_states \<Rightarrow> version \<Rightarrow> 'k \<Rightarrow> 'k \<Rightarrow> cipher \<Rightarrow> ('k crypto_states) res" where
  "set_handshake_keys N s v write_secret read_secret c =
     bind_res (dx_new N v Dir_Write Epoch_Handshake write_secret c 0) (\<lambda>t.
     bind_res (dx_new N v Dir_Read Epoch_Handshake read_secret c 0) (\<lambda>r.
       Ok (s\<lparr>states_cipher := Some c, handshake := Some \<lparr>cs_tx = t, cs_rx = r\<rparr>\<rparr>)))"

definition set_application_write_key ::
    "'k nss \<Rightarrow> 'k crypto_states \<Rightarrow> version \<Rightarrow> 'k \<Rightarrow> ('k crypto_states) res" where
  "set_application_write_key N s v secret =
     assert_res (app_write s = None)
     (case states_cipher s of
        None \<Rightarrow> Panic
      | Some c \<Rightarrow>
          bind_res (app_new N v Dir_Write secret c) (\<lambda>app.
          bind_res (case zero_rtt_dir Dir_Write s of
                      None \<Rightarrow> Ok (app_dx app)
                    | Some z \<Rightarrow> ignore_ok (continuation (app_dx app) z)) (\<lambda>dx.
            Ok (s\<lparr>zero_rtt := None, app_write := Some (app\<lparr>app_dx := dx\<rparr>)\<rparr>))))"

definition set_application_read_key ::
    "'k nss \<Rightarrow> 'k crypto_states \<Rightarrow> version \<Rightarrow> 'k \<Rightarrow> nat \<Rightarrow> ('k crypto_states) res" where
  "set_application_read_key N s v secret expire_0rtt =
     assert_res (app_write s \<noteq> None \<and> app_read s = None)
     (case states_cipher s of
        None \<Rightarrow> Panic
      | Some c \<Rightarrow>
          bind_res (app_new N v Dir_Read secret c) (\<lambda>app.
          bind_res (case zero_rtt_dir Dir_Read s of
                      None \<Rightarrow> Ok (app_dx app)
                    | Some z \<Rightarrow> ignore_ok (continuation (app_dx app) z)) (\<lambda>dx.
            (let app' = app\<lparr>app_dx := dx\<rparr>;
                 s' = (if zero_rtt s \<noteq> None then s\<lparr>read_update_time := Some expire_0rtt\<rparr> else s)
             in bind_res (app_next N app') (\<lambda>nx.
                  Ok (s'\<lparr>app_read_next := Some nx, app_read := Some app'\<rparr>))))))"

definition maybe_update_write :: "'k nss \<Rightarrow> 'k crypto_states \<Rightarrow> (bool \<times> 'k crypto_states) res" where
  "maybe_update_write N s =
     assert_res (read_update_time s = None)
     (case (app_write s, app_read s) of
        (Some write, Some read) \<Rightarrow>
          if app_epoch write = app_epoch read
          then bind_res (app_next N write) (\<lambda>w. Ok (True, s\<lparr>app_write := Some w\<rparr>))
          else Ok (False, s)
      | _ \<Rightarrow> Err Internal)"

definition initiate_key_update :: "'k nss \<Rightarrow> 'k crypto_states \<Rightarrow> nat option \<Rightarrow> ('k crypto_states) res" where
  "initiate_key_update N s largest_acknowledged =
     (case app_write s of
        None \<Rightarrow> Err Internal
      | Some write \<Rightarrow>
          if can_update (app_dx write) largest_acknowledged \<and> read_update_time s = None then
            bind_res (maybe_update_write N s) (\<lambda>(updated, s').
              if updated then Ok s' else Err KeyUpdateBlocked)
          else Err KeyUpdateBlocked)"

definition auto_update :: "'k nss \<Rightarrow> 'k crypto_states \<Rightarrow> ('k crypto_states) res" where
  "auto_update N s =
     (case app_write s of
        None \<Rightarrow> Ok s
      | Some app \<Rightarrow>
          bind_res (should_update (app_dx app)) (\<lambda>u.
            if u then bind_res (maybe_update_write N s) (\<lambda>(updated, s').
                        if updated then Ok s' else Err KeysExhausted)
            else Ok s))"

definition has_0rtt_read :: "'k crypto_states \<Rightarrow> bool" where
  "has_0rtt_read s \<longleftrightarrow> zero_rtt_dir Dir_Read s \<noteq> None"

definition key_update_received :: "'k nss \<Rightarrow> 'k crypto_states \<Rightarrow> nat \<Rightarrow> nat \<Rightarrow> ('k crypto_states) res" where
  "key_update_received N s ep expiration =
     (if (case read_update_epoch s of None \<Rightarrow> False | Some e \<Rightarrow> ep \<le> e) then Ok s
      else
        (let s1 = s\<lparr>read_update_epoch := Some ep\<rparr>
         in bind_res (maybe_update_write N s1) (\<lambda>(_, s2).
              assert_res ((read_update_time s2 \<noteq> None) = has_0rtt_read s2)
              (let s3 = (if has_0rtt_read s2 then s2\<lparr>zero_rtt := None\<rparr> else s2)
               in Ok (s3\<lparr>read_update_time := Some expiration\<rparr>)))))"

definition check_key_update :: "'k nss \<Rightarrow> 'k crypto_states \<Rightarrow> nat \<Rightarrow> ('k crypto_states) res" where
  "check_key_update N s now =
     (case read_update_time s of
        None \<Rightarrow> Ok s
      | Some expiry \<Rightarrow>
          if expiry \<le> now then
            (if has_0rtt_read s then Ok (s\<lparr>zero_rtt := None, read_update_time := None\<rparr>)
             else
               (case app_read_next s of
                  None \<Rightarrow> Err Internal
                | Some r \<Rightarrow>
                    bind_res (app_next N r) (\<lambda>nx.
                      Ok (s\<lparr>app_read := Some r, app_read_next := Some nx, read_update_time := None\<rparr>))))
          else Ok s)"

text \<open>The state is returned with the error: the bounds have changed.\<close>

definition check_pn_overlap :: "'k crypto_states \<Rightarrow> ('k crypto_states \<times> error option) res" where
  "check_pn_overlap s =
     (if read_update_time s = None then Ok (s, None)
      else
        (case (app_read_next s, app_read s) of
           (Some nx, Some cur) \<Rightarrow>
             bind_res (continuation (app_dx nx) (app_dx cur)) (\<lambda>(dx, e).
               Ok (s\<lparr>app_read_next := Some (nx\<lparr>app_dx := dx\<rparr>)\<rparr>, e))
         | _ \<Rightarrow> Ok (s, Some Internal)))"

end
