(* ===== verification/Key_Update.thy ===== *)
theory Key_Update
  imports Crypto
begin

text \<open>
  The key-update protocol of \<open>CryptoStates\<close> as a state machine: the moves \<open>initiate_key_update\<close>, \<open>auto_update\<close>,
  \<open>key_update_received\<close>, \<open>check_key_update\<close>, the processing of received packets, and the bounds check
  \<open>check_pn_overlap\<close>. The invariant \<open>ku_inv\<close> relates the epochs of the write keys, the read keys and the next
  read keys.
\<close>

subsection \<open>Moves\<close>

text \<open>
  A received packet has changed the packet numbers and the invocation count of a read key; the epoch of the
  key it was opened with is what \<open>decrypt\<close> reports to \<open>key_update_received\<close>.
\<close>

definition same_key :: "crypto_dx \<Rightarrow> crypto_dx \<Rightarrow> bool" where
  "same_key a b \<longleftrightarrow> dx_epoch a = dx_epoch b \<and> dx_direction a = dx_direction b"

inductive ku_step :: "'k nss \<Rightarrow> 'k crypto_states \<Rightarrow> 'k crypto_states \<Rightarrow> bool" for N where
  initiate: "initiate_key_update N s la = Ok s' \<Longrightarrow> ku_step N s s'"
| automatic: "auto_update N s = Ok s' \<Longrightarrow> ku_step N s s'"
| packet: "sl = Slot_AppRead \<or> sl = Slot_AppReadNext \<Longrightarrow> slot_get s sl = Some dx \<Longrightarrow> same_key dx dx' \<Longrightarrow>
    ku_step N s (slot_put s sl dx')"
| received: "sl = Slot_AppRead \<or> sl = Slot_AppReadNext \<Longrightarrow> slot_get s sl = Some dx \<Longrightarrow> needs_update dx \<Longrightarrow>
    key_update_received N s (dx_epoch dx) expiration = Ok s' \<Longrightarrow> ku_step N s s'"
| timer: "check_key_update N s now = Ok s' \<Longrightarrow> ku_step N s s'"
| overlap: "check_pn_overlap s = Ok (s', e) \<Longrightarrow> ku_step N s s'"

inductive_cases ku_stepE: "ku_step N s s'"

text \<open>A connection starts out when the application read keys are installed, without 0-RTT read keys.\<close>

inductive ku_reachable :: "'k nss \<Rightarrow> 'k crypto_states \<Rightarrow> bool" for N where
  start: "set_application_write_key N s0 v0 ws = Ok s1 \<Longrightarrow> read_update_time s1 = None \<Longrightarrow>
    read_update_epoch s1 = None \<Longrightarrow> set_application_read_key N s1 v1 rs expire = Ok s \<Longrightarrow> ku_reachable N s"
| step: "ku_reachable N s \<Longrightarrow> ku_step N s s' \<Longrightarrow> ku_reachable N s'"

subsection \<open>The invariant\<close>

definition ku_epochs :: "nat \<Rightarrow> nat \<Rightarrow> nat \<Rightarrow> bool \<Rightarrow> nat option \<Rightarrow> bool" where
  "ku_epochs w r n pending upd \<longleftrightarrow>
     n = r + 1 \<and> 3 \<le> r \<and> (w = r \<or> w = r + 1)
     \<and> (pending \<longrightarrow> w = r + 1 \<and> upd = Some n)
     \<and> (\<not> pending \<longrightarrow> (case upd of None \<Rightarrow> True | Some e \<Rightarrow> e \<le> r))
     \<and> (3 < r \<longrightarrow> (case upd of None \<Rightarrow> False | Some e \<Rightarrow> r \<le> e))"

definition ku_inv :: "'k crypto_states \<Rightarrow> bool" where
  "ku_inv s \<longleftrightarrow> zero_rtt s = None \<and>
     (\<exists>w r n. app_write s = Some w \<and> app_read s = Some r \<and> app_read_next s = Some n
        \<and> ku_epochs (app_epoch w) (app_epoch r) (app_epoch n) (read_update_time s \<noteq> None) (read_update_epoch s)
        \<and> dx_direction (app_dx w) = Dir_Write \<and> dx_direction (app_dx r) = Dir_Read
        \<and> dx_direction (app_dx n) = Dir_Read)"

lemma app_next_Ok:
  assumes "app_next N a = Ok b"
  shows "app_epoch b = app_epoch a + 1 \<and> dx_direction (app_dx b) = dx_direction (app_dx a)"
  using assms by (auto simp: app_next_def dx_next_def app_epoch_def Let_def split: if_splits elim!: bind_res_OkE)

lemma app_new_Ok:
  assumes "app_new N v dir secret c = Ok a"
  shows "app_epoch a = 3" "dx_direction (app_dx a) = dir"
  using assms by (auto simp: app_new_def dx_new_def app_epoch_def elim!: bind_res_OkE)

lemma continuation_same_key:
  "continuation dx prev = Ok (dx', e) \<Longrightarrow> same_key dx dx'"
  by (auto simp: continuation_def same_key_def Let_def split: if_splits)

lemma ignore_ok_Ok: "ignore_ok r = Ok dx \<Longrightarrow> r = Ok (dx, None)"
  by (cases r rule: ignore_ok.cases) auto

lemma zero_rtt_dir_None [simp]: "zero_rtt s = None \<Longrightarrow> zero_rtt_dir d s = None"
  by (simp add: zero_rtt_dir_def)

lemma not_has_0rtt [simp]: "zero_rtt s = None \<Longrightarrow> \<not> has_0rtt_read s"
  by (simp add: has_0rtt_read_def)

lemma ku_inv_start:
  assumes "set_application_write_key N s0 v0 ws = Ok s1" "read_update_time s1 = None"
    "read_update_epoch s1 = None" "set_application_read_key N s1 v1 rs expire = Ok s"
  shows "ku_inv s"
proof -
  obtain c w dx where w: "app_new N v0 Dir_Write ws c = Ok w" "same_key (app_dx w) dx"
    and s1: "app_write s1 = Some (w\<lparr>app_dx := dx\<rparr>)" "zero_rtt s1 = None"
    using assms(1) by (auto simp: set_application_write_key_def same_key_def split: option.splits
        elim!: bind_res_OkE dest!: ignore_ok_Ok continuation_same_key)
  obtain c' r n where r: "app_new N v1 Dir_Read rs c' = Ok r" "app_next N r = Ok n"
    and s: "s = s1\<lparr>app_read_next := Some n, app_read := Some r\<rparr>"
    using assms(4) s1 by (auto simp: set_application_read_key_def Let_def split: option.splits elim!: bind_res_OkE)
  show ?thesis
    using assms(2,3) w s1 app_new_Ok [OF w(1)] app_new_Ok [OF r(1)] app_next_Ok [OF r(2)]
    by (simp add: ku_inv_def ku_epochs_def s app_epoch_def same_key_def)
qed

lemma ku_inv_update_write:
  assumes "ku_inv s" "maybe_update_write N s = Ok (b, s')"
  shows "ku_inv s'" "read_update_time s' = None" "read_update_epoch s' = read_update_epoch s"
    "\<exists>w r. app_write s' = Some w \<and> app_read s' = Some r \<and> app_epoch w = app_epoch r + 1"
  using assms unfolding maybe_update_write_def ku_inv_def ku_epochs_def
  by (auto split: if_splits elim!: bind_res_OkE dest!: app_next_Ok)

lemma ku_inv_slot_put:
  assumes "ku_inv s" "sl = Slot_AppRead \<or> sl = Slot_AppReadNext" "slot_get s sl = Some dx" "same_key dx dx'"
  shows "ku_inv (slot_put s sl dx')"
  using assms by (auto simp: ku_inv_def same_key_def app_epoch_def)

lemma ku_inv_received:
  assumes "ku_inv s" "sl = Slot_AppRead \<or> sl = Slot_AppReadNext" "slot_get s sl = Some dx" "needs_update dx"
    "key_update_received N s (dx_epoch dx) expiration = Ok s'"
  shows "ku_inv s'"
proof (cases "case read_update_epoch s of None \<Rightarrow> False | Some e \<Rightarrow> dx_epoch dx \<le> e")
  case True
  then show ?thesis
    using assms by (simp add: key_update_received_def)
next
  case False
  obtain w r n where wrn: "app_write s = Some w" "app_read s = Some r" "app_read_next s = Some n"
    and dirs: "dx_direction (app_dx w) = Dir_Write" "dx_direction (app_dx r) = Dir_Read"
      "dx_direction (app_dx n) = Dir_Read" "zero_rtt s = None"
    and ep: "ku_epochs (app_epoch w) (app_epoch r) (app_epoch n) (read_update_time s \<noteq> None) (read_update_epoch s)"
    using assms(1) unfolding ku_inv_def by blast
  have dx: "dx_epoch dx = app_epoch n"
    using assms(2-4) False ep wrn
    by (auto simp: needs_update_def ku_epochs_def app_epoch_def split: option.splits)
  then have idle: "read_update_time s = None"
    using False ep by (auto simp: ku_epochs_def)
  let ?s = "s\<lparr>read_update_epoch := Some (app_epoch n)\<rparr>"
  obtain b s2 where s2: "maybe_update_write N ?s = Ok (b, s2)"
    and s': "s' = s2\<lparr>read_update_time := Some expiration\<rparr> \<or> s' = s2\<lparr>zero_rtt := None, read_update_time := Some expiration\<rparr>"
    using assms(5) False unfolding dx by (auto simp: key_update_received_def Let_def elim!: bind_res_OkE split: if_splits)
  obtain w' where "app_write s2 = Some w'" "app_epoch w' = app_epoch r + 1" "dx_direction (app_dx w') = Dir_Write"
    "app_read s2 = Some r" "app_read_next s2 = Some n" "zero_rtt s2 = None" "read_update_epoch s2 = Some (app_epoch n)"
    using s2 wrn dirs ep
    by (auto simp: maybe_update_write_def ku_epochs_def split: if_splits elim!: bind_res_OkE dest!: app_next_Ok)
  then show ?thesis
    using s' dirs ep by (auto simp: ku_inv_def ku_epochs_def)
qed

lemma ku_inv_timer:
  assumes "ku_inv s" "check_key_update N s now = Ok s'"
  shows "ku_inv s'"
  using assms
  by (auto simp: check_key_update_def ku_inv_def ku_epochs_def split: option.splits if_splits
      elim!: bind_res_OkE dest!: app_next_Ok)

lemma ku_inv_overlap:
  assumes "ku_inv s" "check_pn_overlap s = Ok (s', e)"
  shows "ku_inv s'"
  using assms
  by (auto simp: check_pn_overlap_def ku_inv_def app_epoch_def same_key_def split: if_splits
      elim!: bind_res_OkE dest!: continuation_same_key)

lemma ku_inv_step: "ku_step N s s' \<Longrightarrow> ku_inv s \<Longrightarrow> ku_inv s'"
proof (induction rule: ku_step.induct)
  case (initiate s la s')
  then show ?case
    by (auto simp: initiate_key_update_def split: option.splits if_splits elim!: bind_res_OkE
        intro: ku_inv_update_write(1))
next
  case (automatic s s')
  then show ?case
    by (auto simp: auto_update_def split: option.splits if_splits elim!: bind_res_OkE)
      (erule (1) ku_inv_update_write(1))
next
  case (packet sl s dx dx')
  then show ?case by (blast intro: ku_inv_slot_put)
next
  case (received sl s dx expiration s')
  then show ?case by (blast intro: ku_inv_received)
next
  case (timer s now s')
  then show ?case by (blast intro: ku_inv_timer)
next
  case (overlap s s' e)
  then show ?case by (blast intro: ku_inv_overlap)
qed

lemma ku_reachable_inv: "ku_reachable N s \<Longrightarrow> ku_inv s"
  by (induction rule: ku_reachable.induct) (blast intro: ku_inv_start ku_inv_step)+

lemma key_phase_even: "key_phase dx \<longleftrightarrow> even (dx_epoch dx)"
  by (simp add: key_phase_def) presburger

lemma ku_inv_rx:
  assumes "ku_inv s"
  shows "rx s v Epoch_ApplicationData kp = Some (if (case app_read s of None \<Rightarrow> False | Some r \<Rightarrow> key_phase (app_dx r) = kp)
      then Slot_AppRead else Slot_AppReadNext)"
  using assms by (auto simp: ku_inv_def ku_epochs_def rx_def Let_def key_phase_even app_epoch_def)

subsection \<open>No panic\<close>

text \<open>The bindings report failures as errors.\<close>

definition nss_no_panic :: "'k nss \<Rightarrow> bool" where
  "nss_no_panic N \<longleftrightarrow> (\<forall>c k l d. aead_new N c k l d \<noteq> Panic) \<and> (\<forall>c k l. hkdf_expand_label N c k l \<noteq> Panic)"

lemma app_next_no_panic: "nss_no_panic N \<Longrightarrow> app_next N a \<noteq> Panic"
  by (auto simp: bind_res_Panic_iff app_next_def dx_next_def update_secret_def nss_no_panic_def Let_def)

lemma update_write_no_panic:
  "nss_no_panic N \<Longrightarrow> read_update_time s = None \<Longrightarrow> maybe_update_write N s \<noteq> Panic"
  by (auto simp: bind_res_Panic_iff maybe_update_write_def app_next_no_panic split: option.splits)

lemma initiate_no_panic: "nss_no_panic N \<Longrightarrow> initiate_key_update N s la \<noteq> Panic"
  by (auto simp: bind_res_Panic_iff initiate_key_update_def update_write_no_panic split: option.splits)

lemma timer_no_panic: "nss_no_panic N \<Longrightarrow> check_key_update N s now \<noteq> Panic"
  by (auto simp: bind_res_Panic_iff check_key_update_def app_next_no_panic split: option.splits)

lemma overlap_no_panic: "ku_inv s \<Longrightarrow> check_pn_overlap s \<noteq> Panic"
  by (auto simp: bind_res_Panic_iff check_pn_overlap_def ku_inv_def continuation_def Let_def split: if_splits)

lemma received_no_panic:
  assumes "ku_inv s" "nss_no_panic N" "sl = Slot_AppRead \<or> sl = Slot_AppReadNext" "slot_get s sl = Some dx"
    "needs_update dx"
  shows "key_update_received N s (dx_epoch dx) t \<noteq> Panic"
proof (cases "case read_update_epoch s of None \<Rightarrow> False | Some e \<Rightarrow> dx_epoch dx \<le> e")
  case True
  then show ?thesis
    by (simp add: key_update_received_def)
next
  case False
  have idle: "read_update_time s = None" and z: "zero_rtt s = None"
    using assms(1,3-5) False
    by (auto simp: bind_res_Panic_iff ku_inv_def needs_update_def ku_epochs_def app_epoch_def split: option.splits)
  have "read_update_time s2 = None \<and> zero_rtt s2 = None"
    if "maybe_update_write N (s\<lparr>read_update_epoch := u\<rparr>) = Ok (b, s2)" for u b s2
    using that idle z
    by (auto simp: bind_res_Panic_iff maybe_update_write_def split: option.splits if_splits elim!: bind_res_OkE)
  then show ?thesis
    using False idle assms(2)
    by (auto simp: bind_res_Panic_iff key_update_received_def Let_def update_write_no_panic)
qed

lemma auto_no_panic:
  "ku_inv s \<Longrightarrow> nss_no_panic N \<Longrightarrow> read_update_time s = None \<Longrightarrow> auto_update N s \<noteq> Panic"
  by (auto simp: bind_res_Panic_iff auto_update_def should_update_def ku_inv_def update_write_no_panic split: option.split
     )

subsection \<open>Properties\<close>

text \<open>A binding that protects nothing, for concrete runs.\<close>

definition null_aead :: aead where
  "null_aead = \<lparr>aead_expansion = 16, encrypt_in_place = (\<lambda>pn aad data. Ok data),
     decrypt_in_place = (\<lambda>pn aad data. if length data < 16 then Err Decrypt else Ok (data, length data - 16))\<rparr>"

definition null_nss :: "nat nss" where
  "null_nss = \<lparr>aead_new = (\<lambda>c k l d. Ok null_aead), hp_extract = (\<lambda>c k l. Ok (\<lambda>s. Ok (replicate 16 0))),
     hkdf_expand_label = (\<lambda>c k l. Ok (Suc k)), hkdf_extract = (\<lambda>salt ikm. Ok 0)\<rparr>"

lemmas null_simps = null_nss_def dx_new_def app_new_def app_next_def dx_next_def update_secret_def

definition started :: "nat crypto_states" where
  "started =
     (case set_application_write_key null_nss (crypto_states_default\<lparr>states_cipher := Some TLS_AES_128_GCM_SHA256\<rparr>) Version1 7 of
        Ok s1 \<Rightarrow> (case set_application_read_key null_nss s1 Version1 9 1000 of Ok s \<Rightarrow> s | _ \<Rightarrow> crypto_states_default)
      | _ \<Rightarrow> crypto_states_default)"

lemma started_reachable: "ku_reachable null_nss started"
proof -
  let ?s0 = "crypto_states_default\<lparr>states_cipher := Some TLS_AES_128_GCM_SHA256\<rparr> :: nat crypto_states"
  obtain s1 where s1: "set_application_write_key null_nss ?s0 Version1 7 = Ok s1"
    "read_update_time s1 = None" "read_update_epoch s1 = None" "app_write s1 \<noteq> None" "app_read s1 = None"
    "states_cipher s1 = Some TLS_AES_128_GCM_SHA256" "zero_rtt s1 = None"
    by (simp add: set_application_write_key_def crypto_states_default_def null_simps)
  moreover obtain s where "set_application_read_key null_nss s1 Version1 9 1000 = Ok s"
    using s1 by (auto simp: set_application_read_key_def null_simps Let_def)
  ultimately show ?thesis
    by (auto simp: started_def intro: ku_reachable.start)
qed





text \<open>
  C24: The exception: when application read keys are installed while 0-RTT read keys are in place, the timer that
  will discard the latter runs, and a key update by the peer before it expires trips the assertion of
  \<open>maybe_update_write\<close> that no timer runs, in a build with debug assertions.
\<close>

theorem key_update_during_0rtt:
  assumes "has_0rtt_read s" and "read_update_epoch s = None"
    and "set_application_read_key N s v secret expire = Ok s'"
  shows "read_update_time s' = Some expire \<and> key_update_received N s' ep t = Panic"
proof -
  have "zero_rtt s \<noteq> None"
    using assms(1) not_has_0rtt by blast
  then have "read_update_time s' = Some expire" "read_update_epoch s' = None"
    using assms(2,3)
    by (auto simp: set_application_read_key_def Let_def split: option.splits elim!: bind_res_OkE)
  then show ?thesis
    by (simp add: key_update_received_def maybe_update_write_def)
qed

theorem key_update_during_0rtt_witness:
  "\<exists>s s'. has_0rtt_read s \<and> set_application_read_key null_nss s Version1 9 1000 = Ok s'
     \<and> read_update_time s' = Some 1000 \<and> key_update_received null_nss s' 4 5 = Panic"
proof -
  let ?s0 = "crypto_states_default\<lparr>states_cipher := Some TLS_AES_128_GCM_SHA256\<rparr> :: nat crypto_states"
  obtain s1 where s1: "set_application_write_key null_nss ?s0 Version1 7 = Ok s1"
    "read_update_epoch s1 = None" "app_write s1 \<noteq> None" "app_read s1 = None"
    "states_cipher s1 = Some TLS_AES_128_GCM_SHA256"
    by (simp add: set_application_write_key_def crypto_states_default_def null_simps)
  then obtain s2 where s2: "set_0rtt_keys null_nss s1 Version1 Dir_Read 3 TLS_AES_128_GCM_SHA256 = Ok s2"
    "read_update_epoch s2 = None" "app_write s2 \<noteq> None" "app_read s2 = None"
    "states_cipher s2 = Some TLS_AES_128_GCM_SHA256" "has_0rtt_read s2"
    by (simp add: set_0rtt_keys_def null_simps has_0rtt_read_def zero_rtt_dir_def)
  then obtain s' where s': "set_application_read_key null_nss s2 Version1 9 1000 = Ok s'"
    by (auto simp: set_application_read_key_def null_simps Let_def continuation_def has_0rtt_read_def
        zero_rtt_dir_def split: option.splits if_splits)
  show ?thesis
    using key_update_during_0rtt [OF s2(6,2) s'] s2(6) s' by blast
qed

end
