(* ===== verification/Packet.thy ===== *)
theory Packet
  imports Frame Key_Update
begin

text \<open>
  Packets (\<open>neqo-transport/src/packet/mod.rs\<close>): the \<open>Builder\<close>, which writes the header, lets the frames be
  written, and protects the result, and \<open>Public\<close>, which parses the unprotected part of a received
  packet, removes header protection, recovers the packet number and opens the payload. Random bytes, the AEAD of Retry
  packets and the decoder of connection IDs are parameters. The trace output is left out.
\<close>

subsection \<open>Constants\<close>

definition MIN_INITIAL_PACKET_SIZE :: nat where "MIN_INITIAL_PACKET_SIZE = 1200"
definition BIT_LONG :: u8 where "BIT_LONG = 0x80"
definition BIT_SHORT :: u8 where "BIT_SHORT = 0x00"
definition BIT_FIXED_QUIC :: u8 where "BIT_FIXED_QUIC = 0x40"
definition BIT_SPIN :: u8 where "BIT_SPIN = 0x20"
definition BIT_KEY_PHASE :: u8 where "BIT_KEY_PHASE = 0x04"
definition HP_MASK_LONG :: u8 where "HP_MASK_LONG = 0x0f"
definition HP_MASK_SHORT :: u8 where "HP_MASK_SHORT = 0x1f"
definition SAMPLE_SIZE :: nat where "SAMPLE_SIZE = 16"
definition SAMPLE_OFFSET :: nat where "SAMPLE_OFFSET = 4"
definition MAX_PACKET_NUMBER_LEN :: nat where "MAX_PACKET_NUMBER_LEN = 4"
definition LONG_PACKET_LENGTH_LEN :: nat where "LONG_PACKET_LENGTH_LEN = 2"
definition MINIMUM_FRAME_SIZE :: nat where "MINIMUM_FRAME_SIZE = 2"

subsection \<open>The builder\<close>

record 'b builder =
  b_enc :: "'b encoder"
  b_pn :: nat
  b_header :: "nat \<times> nat"
  off_first_byte_mask :: u8
  off_len :: nat
  off_pn :: "nat \<times> nat"
  b_limit :: nat
  b_padding :: bool
  b_padded :: bool

text \<open>Indexing the bytes of an encoder, \<open>as_ref()[i]\<close> and \<open>as_mut()[i] = x\<close>.\<close>

definition enc_get :: "'b Buffer \<Rightarrow> 'b encoder \<Rightarrow> nat \<Rightarrow> u8 res" where
  "enc_get B e i = assert_res (i < length (enc_as_ref B e)) (Ok (enc_as_ref B e ! i))"

definition enc_put :: "'b Buffer \<Rightarrow> 'b encoder \<Rightarrow> nat \<Rightarrow> u8 \<Rightarrow> ('b encoder) res" where
  "enc_put B e i x =
     assert_res (i < length (enc_as_ref B e))
       (bind_res (copy_into B (ebuf e) (estart e + i) [x]) (\<lambda>b. Ok (e\<lparr>ebuf := b\<rparr>)))"

text \<open>Replacing all bytes of an encoder, as a callee that is given \<open>as_mut()\<close> does.\<close>

definition enc_replace :: "'b Buffer \<Rightarrow> 'b encoder \<Rightarrow> bytes \<Rightarrow> ('b encoder) res" where
  "enc_replace B e data = bind_res (copy_into B (ebuf e) (estart e) data) (\<lambda>b. Ok (e\<lparr>ebuf := b\<rparr>))"

definition builder_len :: "'b Buffer \<Rightarrow> 'b builder \<Rightarrow> nat" where
  "builder_len B b = enc_len B (b_enc b)"

definition builder_new :: "'b encoder \<Rightarrow> nat \<Rightarrow> u8 \<Rightarrow> nat \<Rightarrow> 'b builder" where
  "builder_new e header_start hp limit =
     \<lparr>b_enc = e, b_pn = 2 ^ 64 - 1, b_header = (header_start, header_start), off_first_byte_mask = hp,
      off_len = 0, off_pn = (0, 0), b_limit = limit, b_padding = False, b_padded = False\<rparr>"

definition opt_len :: "bytes option \<Rightarrow> nat" where
  "opt_len d = (case d of None \<Rightarrow> 0 | Some d \<Rightarrow> length d)"

definition builder_short ::
    "'b Buffer \<Rightarrow> 'b encoder \<Rightarrow> bool \<Rightarrow> bytes option \<Rightarrow> nat \<Rightarrow> ('b builder) res" where
  "builder_short B e kp dcid limit =
     (let header_start = enc_len B e
      in if header_start < limit \<and> 5 + opt_len dcid < limit - header_start then
           bind_res (encode_byte B e (BIT_SHORT OR BIT_FIXED_QUIC OR push_bit 2 (if kp then 1 else 0))) (\<lambda>e1.
           bind_res (case dcid of None \<Rightarrow> Ok e1 | Some d \<Rightarrow> encode B e1 d) (\<lambda>e2.
             Ok (builder_new e2 header_start HP_MASK_SHORT limit)))
         else Ok (builder_new e header_start HP_MASK_SHORT 0))"

definition opt_bytes :: "bytes option \<Rightarrow> bytes" where
  "opt_bytes d = (case d of None \<Rightarrow> [] | Some d \<Rightarrow> d)"

definition builder_long ::
    "'b Buffer \<Rightarrow> 'b encoder \<Rightarrow> packet_type \<Rightarrow> version \<Rightarrow> bytes option \<Rightarrow> bytes option \<Rightarrow> nat \<Rightarrow> ('b builder) res"
    where
  "builder_long B e pt v dcid scid limit =
     (let header_start = enc_len B e
      in if header_start < limit \<and> 11 + opt_len dcid + opt_len scid < limit - header_start then
           bind_res (to_byte pt v) (\<lambda>t.
           bind_res (encode_byte B e (BIT_LONG OR BIT_FIXED_QUIC OR push_bit 4 t)) (\<lambda>e1.
           bind_res (encode_uint B e1 4 (ucast (wire_version v))) (\<lambda>e2.
           bind_res (encode_vec B e2 1 (opt_bytes dcid)) (\<lambda>e3.
           bind_res (encode_vec B e3 1 (opt_bytes scid)) (\<lambda>e4.
             Ok (builder_new e4 header_start HP_MASK_LONG limit))))))
         else Ok (builder_new e header_start HP_MASK_LONG 0))"

definition builder_is_long :: "'b Buffer \<Rightarrow> 'b builder \<Rightarrow> bool res" where
  "builder_is_long B b =
     bind_res (enc_get B (b_enc b) (fst (b_header b))) (\<lambda>x. Ok (x AND 0x80 = BIT_LONG))"

definition set_limit :: "'b builder \<Rightarrow> nat \<Rightarrow> 'b builder" where
  "set_limit b limit = b\<lparr>b_limit := limit\<rparr>"

definition builder_remaining :: "'b Buffer \<Rightarrow> 'b builder \<Rightarrow> nat" where
  "builder_remaining B b = b_limit b - builder_len B b"

definition is_full :: "'b Buffer \<Rightarrow> 'b builder \<Rightarrow> bool" where
  "is_full B b \<longleftrightarrow> b_limit b < builder_len B b + MINIMUM_FRAME_SIZE"

definition mark_full :: "'b Buffer \<Rightarrow> 'b builder \<Rightarrow> 'b builder" where
  "mark_full B b = b\<lparr>b_limit := builder_len B b\<rparr>"

definition enable_padding :: "'b builder \<Rightarrow> bool \<Rightarrow> 'b builder" where
  "enable_padding b needs = b\<lparr>b_padding := needs\<rparr>"

definition pad_before :: "'b Buffer \<Rightarrow> 'b builder \<Rightarrow> nat \<Rightarrow> ('b builder) res" where
  "pad_before B b len =
     (if \<not> b_padding b then Ok b
      else
        bind_res (builder_is_long B b) (\<lambda>l.
          if \<not> l \<and> len < builder_remaining B b then
            bind_res (enc_pad_to B (b_enc b) (b_limit b - len) 0) (\<lambda>e.
              Ok (b\<lparr>b_enc := e, b_padded := True\<rparr>))
          else Ok b))"

definition builder_pad :: "'b Buffer \<Rightarrow> 'b builder \<Rightarrow> (bool \<times> 'b builder) res" where
  "builder_pad B b = bind_res (pad_before B b 0) (\<lambda>b'. Ok (b_padded b', b'))"

definition scramble :: "'b Buffer \<Rightarrow> 'b builder \<Rightarrow> bool \<Rightarrow> u8 \<Rightarrow> ('b builder) res" where
  "scramble B b quic_bit rnd =
     assert_res (fst (b_header b) < builder_len B b)
     (bind_res (builder_is_long B b) (\<lambda>l.
        (let m = (if quic_bit then BIT_FIXED_QUIC else 0) OR (if l then 0 else BIT_SPIN)
         in bind_res (enc_get B (b_enc b) (fst (b_header b))) (\<lambda>x.
            bind_res (enc_put B (b_enc b) (fst (b_header b)) (x XOR (rnd AND m))) (\<lambda>e.
              Ok (b\<lparr>b_enc := e\<rparr>))))))"

definition initial_token :: "'b Buffer \<Rightarrow> 'b builder \<Rightarrow> bytes \<Rightarrow> ('b builder) res" where
  "initial_token B b token =
     bind_res (vvec_len (length token)) (\<lambda>n.
       if n < builder_remaining B b
       then bind_res (encode_vvec B (b_enc b) token) (\<lambda>e. Ok (b\<lparr>b_enc := e\<rparr>))
       else Ok (b\<lparr>b_limit := 0\<rparr>))"

text \<open>The end of \<open>Builder::pn\<close>, after the length field has been reserved.\<close>

definition write_pn :: "'b Buffer \<Rightarrow> 'b builder \<Rightarrow> nat \<Rightarrow> nat \<Rightarrow> ('b builder) res" where
  "write_pn B b pn pn_len0 =
     (let pn_len = min MAX_PACKET_NUMBER_LEN pn_len0
      in assert_res (pn_len \<noteq> 0)
         (let pn_offset = enc_len B (b_enc b)
          in bind_res (encode_uint B (b_enc b) pn_len (word_of_nat pn)) (\<lambda>e1.
             bind_res (enc_get B e1 (fst (b_header b))) (\<lambda>x.
             bind_res (enc_put B e1 (fst (b_header b)) (x OR word_of_nat (pn_len - 1))) (\<lambda>e2.
               Ok (b\<lparr>b_enc := e2, off_pn := (pn_offset, enc_len B e1),
                      b_header := (fst (b_header b), enc_len B e2), b_pn := pn\<rparr>))))))"

definition builder_pn :: "'b Buffer \<Rightarrow> 'b builder \<Rightarrow> nat \<Rightarrow> nat \<Rightarrow> ('b builder) res" where
  "builder_pn B b pn pn_len =
     (if builder_remaining B b < MAX_PACKET_NUMBER_LEN then Ok (b\<lparr>b_limit := 0\<rparr>)
      else
        bind_res (builder_is_long B b) (\<lambda>l.
          if l then
            (if builder_remaining B b < LONG_PACKET_LENGTH_LEN + MAX_PACKET_NUMBER_LEN
             then Ok (b\<lparr>b_limit := 0\<rparr>)
             else bind_res (encode B (b_enc b) (replicate LONG_PACKET_LENGTH_LEN 0)) (\<lambda>e.
                    write_pn B (b\<lparr>b_enc := e, off_len := enc_len B (b_enc b)\<rparr>) pn pn_len))
          else write_pn B b pn pn_len))"

definition write_len :: "'b Buffer \<Rightarrow> 'b builder \<Rightarrow> nat \<Rightarrow> ('b builder) res" where
  "write_len B b expansion =
     assert_res (off_len b + LONG_PACKET_LENGTH_LEN \<le> enc_len B (b_enc b))
     (let len = enc_len B (b_enc b) - (off_len b + LONG_PACKET_LENGTH_LEN) + expansion
      in bind_res (enc_put B (b_enc b) (off_len b) (0x40 OR word_of_nat (drop_bit 8 len AND 0x3f))) (\<lambda>e1.
         bind_res (enc_put B e1 (off_len b + 1) (word_of_nat (len AND 0xff))) (\<lambda>e2.
           Ok (b\<lparr>b_enc := e2\<rparr>))))"

definition pad_for_crypto :: "'b Buffer \<Rightarrow> 'b builder \<Rightarrow> crypto_dx \<Rightarrow> ('b builder) res" where
  "pad_for_crypto B b dx =
     bind_res (enc_pad_to B (b_enc b) (fst (off_pn b) + MAX_PACKET_NUMBER_LEN + extra_padding dx) 0) (\<lambda>e.
       Ok (b\<lparr>b_enc := e\<rparr>))"

fun encode_varints :: "'b Buffer \<Rightarrow> nat list \<Rightarrow> 'b encoder \<Rightarrow> ('b encoder) res" where
  "encode_varints B [] e = Ok e"
| "encode_varints B (v # vs) e = bind_res (encode_varint B e (word_of_nat v)) (encode_varints B vs)"

fun sum_varint_len :: "nat list \<Rightarrow> nat res" where
  "sum_varint_len [] = Ok 0"
| "sum_varint_len (v # vs) = bind_res (varint_len v) (\<lambda>n. bind_res (sum_varint_len vs) (\<lambda>m. Ok (n + m)))"

definition write_varint_frame :: "'b Buffer \<Rightarrow> 'b builder \<Rightarrow> nat list \<Rightarrow> (bool \<times> 'b builder) res" where
  "write_varint_frame B b values =
     bind_res (sum_varint_len values) (\<lambda>n.
       if n \<le> builder_remaining B b then
         bind_res (case values of
                     [] \<Rightarrow> Ok (b_enc b)
                   | t # rest \<Rightarrow> encode_frame B (b_enc b) t (encode_varints B rest)) (\<lambda>e.
           assert_res (enc_len B e \<le> b_limit b) (Ok (True, b\<lparr>b_enc := e\<rparr>)))
       else Ok (False, b))"

text \<open>\<open>xor_at e i ms\<close> applies the header protection mask \<open>ms\<close> to the bytes from \<open>i\<close> on.\<close>

fun xor_at :: "'b Buffer \<Rightarrow> 'b encoder \<Rightarrow> nat \<Rightarrow> u8 list \<Rightarrow> ('b encoder) res" where
  "xor_at B e i [] = Ok e"
| "xor_at B e i (m # ms) =
     bind_res (enc_get B e i) (\<lambda>x. bind_res (enc_put B e i (x XOR m)) (\<lambda>e'. xor_at B e' (i + 1) ms))"

definition apply_mask :: "'b Buffer \<Rightarrow> 'b builder \<Rightarrow> bytes \<Rightarrow> ('b encoder) res" where
  "apply_mask B b m =
     (let n = snd (off_pn b) - fst (off_pn b)
      in assert_res (n < length m)
         (bind_res (xor_at B (b_enc b) (fst (b_header b)) [m ! 0 AND off_first_byte_mask b]) (\<lambda>e.
            xor_at B e (fst (off_pn b)) (take n (drop 1 m)))))"

text \<open>The second half of \<open>build\<close>: room for the tag, encryption, and header protection.\<close>

definition build_protect :: "'b Buffer \<Rightarrow> 'b builder \<Rightarrow> crypto_dx \<Rightarrow> ('b encoder \<times> crypto_dx) res" where
  "build_protect B b dx =
     bind_res (enc_pad_to B (b_enc b) (enc_len B (b_enc b) + dx_expansion dx) 0) (\<lambda>e1.
     bind_res (dx_encrypt dx (b_pn b) (b_header b) (enc_as_ref B e1)) (\<lambda>(data, dx').
     bind_res (enc_replace B e1 data) (\<lambda>e2.
       (let sample_start = snd (b_header b) + SAMPLE_OFFSET - (snd (off_pn b) - fst (off_pn b))
        in assert_res (sample_start + SAMPLE_SIZE \<le> length (enc_as_ref B e2))
           (bind_res (compute_mask dx' (take SAMPLE_SIZE (drop sample_start (enc_as_ref B e2)))) (\<lambda>m.
            bind_res (apply_mask B (b\<lparr>b_enc := e2\<rparr>) m) (\<lambda>e3. Ok (e3, dx'))))))))"

definition build :: "'b Buffer \<Rightarrow> 'b builder \<Rightarrow> crypto_dx \<Rightarrow> ('b encoder \<times> crypto_dx) res" where
  "build B b dx =
     assert_res (builder_len B b \<le> b_limit b)
     (bind_res (pad_for_crypto B b dx) (\<lambda>b1.
      bind_res (if 0 < off_len b1 then write_len B b1 (dx_expansion dx) else Ok b1) (\<lambda>b2.
        build_protect B b2 dx)))"

definition builder_abort :: "'b Buffer \<Rightarrow> 'b builder \<Rightarrow> 'b encoder" where
  "builder_abort B b = enc_truncate B (b_enc b) (fst (b_header b))"

definition packet_empty :: "'b Buffer \<Rightarrow> 'b builder \<Rightarrow> bool" where
  "packet_empty B b \<longleftrightarrow> enc_len B (b_enc b) = snd (b_header b)"

definition is_coalesced :: "'b builder \<Rightarrow> bool" where
  "is_coalesced b \<longleftrightarrow> fst (b_header b) \<noteq> 0"

text \<open>\<open>tag\<close> is what the Retry AEAD makes of the pseudo-packet.\<close>

definition retry_packet ::
    "(version \<Rightarrow> bytes \<Rightarrow> bytes res) \<Rightarrow> u8 \<Rightarrow> version \<Rightarrow> bytes \<Rightarrow> bytes \<Rightarrow> bytes \<Rightarrow> bytes \<Rightarrow> bytes res" where
  "retry_packet tag rnd v dcid scid token odcid =
     (let B = vec_buffer
      in bind_res (encode_vec B encoder_default 1 odcid) (\<lambda>e0.
         bind_res (to_byte PT_Retry v) (\<lambda>t.
         bind_res (encode_byte B e0 (BIT_LONG OR BIT_FIXED_QUIC OR push_bit 4 t OR (rnd AND 0xf))) (\<lambda>e1.
         bind_res (encode_uint B e1 4 (ucast (wire_version v))) (\<lambda>e2.
         bind_res (encode_vec B e2 1 dcid) (\<lambda>e3.
         bind_res (encode_vec B e3 1 scid) (\<lambda>e4.
         assert_res (token \<noteq> [])
         (bind_res (encode B e4 token) (\<lambda>e5.
         bind_res (tag v (enc_as_ref B e5)) (\<lambda>tg.
         bind_res (encode B e5 tg) (\<lambda>e6. Ok (drop (enc_len B e0) (encoder_into_vec e6)))))))))))))"

fun encode_versions :: "version list \<Rightarrow> bytes encoder \<Rightarrow> (bytes encoder) res" where
  "encode_versions [] e = Ok e"
| "encode_versions (v # vs) e =
     bind_res (encode_uint vec_buffer e 4 (ucast (wire_version v))) (encode_versions vs)"

definition version_negotiation ::
    "u8 \<times> u8 \<times> u8 \<times> u8 \<Rightarrow> bytes \<Rightarrow> bytes \<Rightarrow> u32 \<Rightarrow> version list \<Rightarrow> bytes res" where
  "version_negotiation grease dcid scid client_version versions =
     (case grease of (g0, g1, g2, g3) \<Rightarrow>
        bind_res (encode_byte vec_buffer encoder_default (BIT_LONG OR (g3 AND 0x7f))) (\<lambda>e1.
        bind_res (encode vec_buffer e1 [0, 0, 0, 0]) (\<lambda>e2.
        bind_res (encode_vec vec_buffer e2 1 dcid) (\<lambda>e3.
        bind_res (encode_vec vec_buffer e3 1 scid) (\<lambda>e4.
        bind_res (encode_versions versions e4) (\<lambda>e5.
        bind_res (encode vec_buffer e5
                    (map (\<lambda>g. g AND 0xf0 OR 0x0a) [g0, g1, g2]
                     @ [ucast ((client_version + 0x10) AND 0xf0) OR 0x0a])) (\<lambda>e6.
          Ok (encoder_into_vec e6))))))))"

subsection \<open>Received packets\<close>

record public =
  pub_type :: packet_type
  pub_dcid :: bytes
  pub_scid :: "bytes option"
  pub_token :: bytes
  pub_header_len :: nat
  pub_version :: "u32 option"
  pub_data :: bytes
  pub_scone :: "bitrate option"

text \<open>\<open>Public::opt\<close> is \<open>d_opt\<close>; \<open>expansion\<close> is \<open>retry::expansion\<close>, the tag length of the AEAD for Retry.\<close>

definition decode_long ::
    "(version \<Rightarrow> nat) \<Rightarrow> decoder \<Rightarrow> packet_type \<Rightarrow> version \<Rightarrow> (bytes \<times> nat \<times> decoder) res" where
  "decode_long expansion d pt v =
     (if pt = PT_Retry then
        (let header_len = doffset d
         in if remaining d < expansion v then Err InvalidPacket
            else
              bind_res (d_opt (decode d (remaining d - expansion v))) (\<lambda>(token, d1).
                if token = [] then Err InvalidPacket
                else bind_res (d_opt (decode d1 (expansion v))) (\<lambda>(_, d2). Ok (token, header_len, d2))))
      else
        bind_res (if pt = PT_Initial then d_opt (decode_vvec d) else Ok ([], d)) (\<lambda>(token, d1).
        bind_res (d_opt (decode_varint d1)) (\<lambda>(len, d2).
        bind_res (d_opt (decode d2 (unat len))) (\<lambda>(_, d3). Ok (token, doffset d2, d3)))))"

text \<open>
  A round of the loop of \<open>decode_inner\<close>, given the rate signal found so far: the result, or the signal
  and the rest of the datagram with which the loop continues. First the part for a long header.
\<close>

definition decode_generic_long ::
    "(version \<Rightarrow> nat) \<Rightarrow> bool \<Rightarrow> bytes \<Rightarrow> bitrate option \<Rightarrow> u8 \<Rightarrow> decoder \<Rightarrow> (bitrate \<times> bytes + public \<times> bytes) res" where
  "decode_generic_long expansion accept_other_version data scone first d1 =
     bind_res (decode_uint 4 d1) (\<lambda>r1.
     bind_res (d_opt r1) (\<lambda>(version64, d2).
     bind_res (decode_vec d2 1) (\<lambda>r2.
     bind_res (d_opt r2) (\<lambda>(dcid, d3).
     bind_res (decode_vec d3 1) (\<lambda>r3.
     bind_res (d_opt r3) (\<lambda>(scid, d4).
       (let version = ucast version64 :: u32;
            plain = (\<lambda>pt v. Ok (Inr (\<lparr>pub_type = pt, pub_dcid = dcid, pub_scid = Some scid,
                      pub_token = [], pub_header_len = doffset d4, pub_version = v,
                      pub_data = data, pub_scone = scone\<rparr>, [])))
        in if version = 0 then plain PT_VersionNegotiation None
           else if version = SCONE1 \<or> version = SCONE2 then
             (if scone \<noteq> None then Err InvalidPacket
              else Ok (Inl (bitrate_from first version, drop (doffset d4) data)))
           else
             (case version_try_from version of
                Err _ \<Rightarrow> if accept_other_version then plain PT_OtherVersion (Some version)
                         else Err InvalidPacket
              | Panic \<Rightarrow> Panic
              | Ok v \<Rightarrow>
                  if CID_MAX_LEN < length dcid \<or> CID_MAX_LEN < length scid
                  then Err InvalidPacket
                  else
                    bind_res (from_byte (drop_bit 4 first AND 3) v) (\<lambda>pt.
                    bind_res (decode_long expansion d4 pt v) (\<lambda>(token, header_len, d5).
                      Ok (Inr (\<lparr>pub_type = pt, pub_dcid = dcid, pub_scid = Some scid,
                                pub_token = token, pub_header_len = header_len,
                                pub_version = Some (wire_version v),
                                pub_data = take (doffset d5) data, pub_scone = scone\<rparr>,
                               drop (doffset d5) data))))))))))))"

definition decode_round ::
    "(version \<Rightarrow> nat) \<Rightarrow> (decoder \<Rightarrow> bytes option \<times> decoder) \<Rightarrow> bool \<Rightarrow> bytes \<Rightarrow> bitrate option
      \<Rightarrow> (bitrate \<times> bytes + public \<times> bytes) res" where
  "decode_round expansion decode_cid accept_other_version data scone =
     bind_res (decode_uint 1 (decoder_new data)) (\<lambda>r0.
     bind_res (d_opt r0) (\<lambda>(first64, d1).
       (let first = ucast first64 :: u8
        in if first AND 0x80 = BIT_SHORT then
             bind_res (d_opt (decode_cid d1)) (\<lambda>(dcid, d2).
               if remaining d2 < SAMPLE_OFFSET + SAMPLE_SIZE then Err InvalidPacket
               else Ok (Inr (\<lparr>pub_type = PT_Short, pub_dcid = dcid, pub_scid = None, pub_token = [],
                              pub_header_len = doffset d2, pub_version = None, pub_data = data,
                              pub_scone = scone\<rparr>, [])))
           else decode_generic_long expansion accept_other_version data scone first d1)))"

text \<open>The loop runs at most twice: a second rate signal is an error.\<close>

definition decode_inner ::
    "(version \<Rightarrow> nat) \<Rightarrow> (decoder \<Rightarrow> bytes option \<times> decoder) \<Rightarrow> bool \<Rightarrow> bytes \<Rightarrow> (public \<times> bytes) res" where
  "decode_inner expansion decode_cid accept data =
     bind_res (decode_round expansion decode_cid accept data None) (\<lambda>r.
       case r of
         Inr p \<Rightarrow> Ok p
       | Inl (rate, rest) \<Rightarrow>
           bind_res (decode_round expansion decode_cid accept rest (Some rate)) (\<lambda>r'.
             case r' of Inr p \<Rightarrow> Ok p | Inl _ \<Rightarrow> Panic))"

definition packet_decode :: "(version \<Rightarrow> nat) \<Rightarrow> (decoder \<Rightarrow> bytes option \<times> decoder) \<Rightarrow> bytes \<Rightarrow> (public \<times> bytes) res" where
  "packet_decode expansion decode_cid data = decode_inner expansion decode_cid False data"

definition decode_server :: "(version \<Rightarrow> nat) \<Rightarrow> (decoder \<Rightarrow> bytes option \<times> decoder) \<Rightarrow> bytes \<Rightarrow> (public \<times> bytes) res" where
  "decode_server expansion decode_cid data = decode_inner expansion decode_cid True data"

definition public_version :: "public \<Rightarrow> version option" where
  "public_version p =
     (case pub_version p of
        None \<Rightarrow> None
      | Some w \<Rightarrow> (case version_try_from w of Ok v \<Rightarrow> Some v | _ \<Rightarrow> None))"

text \<open>\<open>open_retry v aad tag\<close> is \<open>aead.decrypt(0, aad, tag, ..)\<close> under the Retry key of \<open>v\<close>.\<close>

definition is_valid_retry ::
    "(version \<Rightarrow> nat) \<Rightarrow> (version \<Rightarrow> bytes \<Rightarrow> bytes \<Rightarrow> bytes res) \<Rightarrow> public \<Rightarrow> bytes \<Rightarrow> bool res" where
  "is_valid_retry expansion open_retry p odcid =
     (if pub_type p \<noteq> PT_Retry then Ok False
      else
        (case public_version p of
           None \<Rightarrow> Ok False
         | Some v \<Rightarrow>
             if length (pub_data p) \<le> expansion v then Ok False
             else
               (let n = length (pub_data p) - expansion v
                in bind_res (encode_vec vec_buffer encoder_default 1 odcid) (\<lambda>e1.
                   bind_res (encode vec_buffer e1 (take n (pub_data p))) (\<lambda>e2.
                     (case open_retry v (enc_as_ref vec_buffer e2) (drop n (pub_data p)) of
                        Ok pt \<Rightarrow> Ok (pt = [])
                      | Err _ \<Rightarrow> Ok False
                      | Panic \<Rightarrow> Panic))))))"

definition is_valid_initial :: "public \<Rightarrow> bool" where
  "is_valid_initial p \<longleftrightarrow> pub_type p = PT_Initial \<and> (8 \<le> length (pub_dcid p) \<or> pub_token p \<noteq> [])"

definition public_wire_version :: "public \<Rightarrow> u32 res" where
  "public_wire_version p = assert_res (pub_version p \<noteq> None) (Ok (case pub_version p of None \<Rightarrow> 0 | Some v \<Rightarrow> v))"

definition decode_pn :: "u64 \<Rightarrow> u64 \<Rightarrow> nat \<Rightarrow> u64" where
  "decode_pn expected pn w =
     (let window = push_bit (w * 8) 1;
          candidate = (expected AND NOT (window - 1)) OR pn
      in if candidate + window div 2 \<le> expected then candidate + window
         else if expected + window div 2 < candidate then
           (if window \<le> candidate then candidate - window else candidate)
         else candidate)"

text \<open>Xor of two byte strings of the same length, the loop that unmasks the packet number.\<close>

definition xor_bytes :: "bytes \<Rightarrow> bytes \<Rightarrow> bytes" where
  "xor_bytes xs ys = map2 (\<lambda>x y. x XOR y) xs ys"

text \<open>The key phase, the packet number, the end of the header, and the unmasked data.\<close>

definition decrypt_header :: "public \<Rightarrow> crypto_dx \<Rightarrow> (bool \<times> nat \<times> nat \<times> bytes) res" where
  "decrypt_header p dx =
     assert_res (pub_type p \<noteq> PT_Retry \<and> pub_type p \<noteq> PT_VersionNegotiation)
     (let sample_offset = pub_header_len p + SAMPLE_OFFSET;
          data = pub_data p
      in if length data < sample_offset + SAMPLE_SIZE then Err NoMoreData
         else
           bind_res (compute_mask dx (take SAMPLE_SIZE (drop sample_offset data))) (\<lambda>m.
             assert_res (MAX_PACKET_NUMBER_LEN < length m)
             (let bits = (if pub_type p = PT_Short then HP_MASK_SHORT else HP_MASK_LONG);
                  first_byte = data ! 0 XOR (m ! 0 AND bits);
                  pn_bytes = xor_bytes (take MAX_PACKET_NUMBER_LEN (drop (pub_header_len p) data))
                               (take MAX_PACKET_NUMBER_LEN (drop 1 m));
                  pn_len = unat (first_byte AND 0x3) + 1;
                  data' = copy_slice (data[0 := first_byte]) (pub_header_len p) (take pn_len pn_bytes);
                  pn_encoded = drop_bit (8 * (MAX_PACKET_NUMBER_LEN - pn_len)) (from_be_bytes pn_bytes);
                  kp = (pub_type p = PT_Short \<and> first_byte AND BIT_KEY_PHASE = BIT_KEY_PHASE);
                  pn = unat (decode_pn (word_of_nat (next_pn dx)) pn_encoded pn_len)
              in Ok (kp, pn, pub_header_len p + pn_len, data'))))"

record decrypted =
  dec_version :: version
  dec_type :: packet_type
  dec_pn :: nat
  dec_data :: bytes
  dec_dcid :: bytes
  dec_scid :: "bytes option"
  dec_scone :: "bitrate option"

record decryption_error =
  de_error :: error
  de_data :: bytes
  de_dcid :: bytes
  de_type :: packet_type

definition make_err :: "public \<Rightarrow> bytes \<Rightarrow> error \<Rightarrow> decryption_error" where
  "make_err p data e = \<lparr>de_error = e, de_data = data, de_dcid = pub_dcid p, de_type = pub_type p\<rparr>"

text \<open>
  The last part of \<open>decrypt\<close>, after the payload has been opened by the keys in \<open>slot\<close>. When \<open>key_update_received\<close>
  fails, it has noted the epoch and changed nothing else.
\<close>

definition decrypt_finish ::
    "'k nss \<Rightarrow> 'k crypto_states \<Rightarrow> public \<Rightarrow> crypto_dx \<Rightarrow> nat \<Rightarrow> nat \<Rightarrow> bytes \<Rightarrow> nat \<Rightarrow> nat
      \<Rightarrow> ((decryption_error + decrypted) \<times> 'k crypto_states) res" where
  "decrypt_finish N s p dx pn header_end data payload_len release_at =
     (let reserved = (if is_long_type (pub_type p) then 0x0c else 0x18)
      in if data ! 0 AND reserved \<noteq> 0 then Ok (Inl (make_err p data ProtocolViolation), s)
         else
           assert_res (header_end + payload_len \<le> length data)
           (let finish = (\<lambda>s1.
                  bind_res (check_pn_overlap s1) (\<lambda>(s2, e).
                    (case e of
                       Some e \<Rightarrow> Ok (Inl (make_err p data e), s2)
                     | None \<Rightarrow>
                         Ok (Inr \<lparr>dec_version = dx_version dx, dec_type = pub_type p, dec_pn = pn,
                                  dec_data = take payload_len (drop header_end data), dec_dcid = pub_dcid p,
                                  dec_scid = pub_scid p, dec_scone = pub_scone p\<rparr>, s2))))
            in if needs_update dx then
                 (case key_update_received N s (dx_epoch dx) release_at of
                    Ok s1 \<Rightarrow> finish s1
                  | Err e \<Rightarrow> Ok (Inl (make_err p data e), s\<lparr>read_update_epoch := Some (dx_epoch dx)\<rparr>)
                  | Panic \<Rightarrow> Panic)
               else finish s))"

definition packet_decrypt ::
    "'k nss \<Rightarrow> 'k crypto_states \<Rightarrow> public \<Rightarrow> nat \<Rightarrow> ((decryption_error + decrypted) \<times> 'k crypto_states) res" where
  "packet_decrypt N s0 p release_at =
     (case epoch_try_from (pub_type p) of
        Err e \<Rightarrow> Ok (Inl (make_err p (pub_data p) e), s0)
      | Panic \<Rightarrow> Panic
      | Ok ep \<Rightarrow>
          (let v = (case public_version p of None \<Rightarrow> Version1 | Some v \<Rightarrow> v)
           in bind_res (rx_hp s0 v ep) (\<lambda>(hp, s).
                (case (case hp of None \<Rightarrow> None | Some slot \<Rightarrow> slot_get s slot) of
                   None \<Rightarrow>
                     Ok (Inl (make_err p (pub_data p) (if rx_pending s ep then KeysPending ep else KeysDiscarded ep)), s)
                 | Some hdx \<Rightarrow>
                     (case decrypt_header p hdx of
                        Err e \<Rightarrow> Ok (Inl (make_err p (pub_data p) e), s)
                      | Panic \<Rightarrow> Panic
                      | Ok (kp, pn, header_end, data) \<Rightarrow>
                          (case rx s v ep kp of
                             None \<Rightarrow> Ok (Inl (make_err p data Decrypt), s)
                           | Some slot \<Rightarrow>
                               (case slot_get s slot of
                                  None \<Rightarrow> Ok (Inl (make_err p data Decrypt), s)
                                | Some dx \<Rightarrow>
                                    bind_res (dx_decrypt dx pn (0, header_end) data) (\<lambda>r.
                                      (case r of
                                         Inl (dx', e) \<Rightarrow> Ok (Inl (make_err p data e), slot_put s slot dx')
                                       | Inr (dx', data', n) \<Rightarrow>
                                           decrypt_finish N (slot_put s slot dx') p dx' pn header_end data' n
                                             release_at)))))))))"

fun read_versions :: "nat \<Rightarrow> decoder \<Rightarrow> (u32 list) res" where
  "read_versions 0 d = (if remaining d = 0 then Ok [] else Panic)"
| "read_versions (Suc fuel) d =
     (if remaining d = 0 then Ok []
      else
        bind_res (decode_uint 4 d) (\<lambda>r.
        bind_res (d_opt r) (\<lambda>(v, d').
        bind_res (read_versions fuel d') (\<lambda>vs. Ok (ucast v # vs)))))"

text \<open>Every round reads four bytes, so the length of the data is fuel enough.\<close>

definition supported_versions :: "public \<Rightarrow> (u32 list) res" where
  "supported_versions p =
     (if pub_type p \<noteq> PT_VersionNegotiation then Err InvalidPacket
      else assert_res (pub_header_len p \<le> length (pub_data p))
             (read_versions (length (pub_data p)) (decoder_new (drop (pub_header_len p) (pub_data p)))))"

end
