(* ===== verification/Ack_Tracking.thy ===== *)
theory Ack_Tracking
  imports Recovery_Token Packet
begin

text \<open>
  Tracking of received packets and generation of ACK frames (\<open>neqo-transport/src/tracking.rs\<close>): \<open>PacketRange\<close>, \<open>RecvdPackets\<close> and
  \<open>AckTracker\<close>, with the ECN counts they report. Statistics and logging are left out. Times are microseconds.
\<close>

subsection \<open>Packet number spaces\<close>

fun epoch_from_space :: "pn_space \<Rightarrow> epoch" where
  "epoch_from_space Space_Initial = Epoch_Initial"
| "epoch_from_space Space_Handshake = Epoch_Handshake"
| "epoch_from_space Space_ApplicationData = Epoch_ApplicationData"

fun space_from_type :: "packet_type \<Rightarrow> pn_space res" where
  "space_from_type PT_Initial = Ok Space_Initial"
| "space_from_type PT_Handshake = Ok Space_Handshake"
| "space_from_type PT_ZeroRtt = Ok Space_ApplicationData"
| "space_from_type PT_Short = Ok Space_ApplicationData"
| "space_from_type _ = Panic"

subsection \<open>Ranges\<close>

datatype insertion_result = Largest | Smallest | NotInserted

definition range_new :: "nat \<Rightarrow> packet_range" where
  "range_new pn = \<lparr>pr_largest = pn, pr_smallest = pn, pr_ack_needed = True\<rparr>"

definition range_len :: "packet_range \<Rightarrow> nat" where
  "range_len r = u64_add (u64_sub (pr_largest r) (pr_smallest r)) 1"

definition range_contains :: "packet_range \<Rightarrow> nat \<Rightarrow> bool" where
  "range_contains r pn \<longleftrightarrow> pr_smallest r \<le> pn \<and> pn \<le> pr_largest r"

definition range_add :: "packet_range \<Rightarrow> nat \<Rightarrow> (insertion_result \<times> packet_range) res" where
  "range_add r pn =
     assert_res (\<not> range_contains r pn)
     (if u64_add (pr_largest r) 1 = pn then
        Ok (Largest, r\<lparr>pr_largest := u64_add (pr_largest r) 1, pr_ack_needed := True\<rparr>)
      else if pr_smallest r = u64_add pn 1 then
        Ok (Smallest, r\<lparr>pr_smallest := u64_sub (pr_smallest r) 1, pr_ack_needed := True\<rparr>)
      else Ok (NotInserted, r))"

definition merge_larger :: "packet_range \<Rightarrow> packet_range \<Rightarrow> packet_range res" where
  "merge_larger r other =
     assert_res (u64_add (pr_largest r) 1 = pr_smallest other)
       (Ok (r\<lparr>pr_largest := pr_largest other, pr_ack_needed := pr_ack_needed r \<or> pr_ack_needed other\<rparr>))"

definition range_acknowledged :: "packet_range \<Rightarrow> packet_range \<Rightarrow> packet_range" where
  "range_acknowledged r other =
     (if pr_smallest other \<le> pr_smallest r \<and> pr_largest r \<le> pr_largest other then r\<lparr>pr_ack_needed := False\<rparr> else r)"

subsection \<open>Received packets\<close>

definition DEFAULT_LOCAL_ACK_DELAY :: nat where "DEFAULT_LOCAL_ACK_DELAY = 20000"
definition DEFAULT_REMOTE_ACK_DELAY :: nat where "DEFAULT_REMOTE_ACK_DELAY = 25000"
definition DEFAULT_ACK_PACKET_TOLERANCE :: nat where "DEFAULT_ACK_PACKET_TOLERANCE = 1"
definition MAX_TRACKED_RANGES :: nat where "MAX_TRACKED_RANGES = 128"

record recvd_packets =
  rp_space :: pn_space
  rp_ranges :: "packet_range list"
  min_tracked :: nat
  largest_pn_time :: "nat option"
  rp_ack_time :: "nat option"
  last_ack_time :: "nat option"
  ack_frequency_seqno :: nat
  rp_ack_delay :: nat
  unacknowledged_count :: nat
  unacknowledged_tolerance :: nat
  ignore_order :: bool
  rp_ecn_count :: ecn_count

definition ecn_count_default :: ecn_count where
  "ecn_count_default = ecn_count_new 0 0 0 0"

definition ecn_is_some :: "ecn_count \<Rightarrow> bool" where
  "ecn_is_some c \<longleftrightarrow> 0 < ec_ect0 c \<or> 0 < ec_ect1 c \<or> 0 < ec_ce c"

definition recvd_packets_new :: "pn_space \<Rightarrow> recvd_packets" where
  "recvd_packets_new space =
     \<lparr>rp_space = space, rp_ranges = [], min_tracked = 0, largest_pn_time = None, rp_ack_time = None,
      last_ack_time = None, ack_frequency_seqno = 0, rp_ack_delay = DEFAULT_LOCAL_ACK_DELAY,
      unacknowledged_count = 0,
      unacknowledged_tolerance = (if space = Space_ApplicationData then DEFAULT_ACK_PACKET_TOLERANCE else 0),
      ignore_order = False, rp_ecn_count = ecn_count_default\<rparr>"

definition rp_ack_freq :: "recvd_packets \<Rightarrow> nat \<Rightarrow> nat \<Rightarrow> nat \<Rightarrow> bool \<Rightarrow> recvd_packets" where
  "rp_ack_freq s seqno tolerance delay ignore =
     (if ack_frequency_seqno s \<le> seqno then
        s\<lparr>ack_frequency_seqno := seqno, unacknowledged_tolerance := tolerance, rp_ack_delay := delay,
          ignore_order := ignore\<rparr>
      else s)"

definition ack_now :: "recvd_packets \<Rightarrow> nat \<Rightarrow> nat \<Rightarrow> bool" where
  "ack_now s now rtt =
     (case rp_ack_time s of
        None \<Rightarrow> False
      | Some nxt \<Rightarrow> nxt \<le> now \<or> (case last_ack_time s of None \<Rightarrow> False | Some l \<Rightarrow> l + rtt \<le> now))"

text \<open>The loop of \<open>add\<close>, on the ranges from \<open>i\<close> on.\<close>

fun rp_add :: "packet_range list \<Rightarrow> nat \<Rightarrow> (packet_range list) res" where
  "rp_add [] pn = Ok [range_new pn]"
| "rp_add (r # rs) pn =
     bind_res (range_add r pn) (\<lambda>(ins, r').
       case ins of
         Largest \<Rightarrow> Ok (r' # rs)
       | Smallest \<Rightarrow>
           (case rs of
              [] \<Rightarrow> Ok [r']
            | nxt # rs' \<Rightarrow>
                if u64_sub pn 1 = pr_largest nxt
                then bind_res (merge_larger nxt r') (\<lambda>m. Ok (m # rs'))
                else Ok (r' # rs))
       | NotInserted \<Rightarrow>
           if pr_largest r < pn then Ok (range_new pn # r # rs)
           else bind_res (rp_add rs pn) (\<lambda>rs'. Ok (r # rs')))"

definition trim_ranges :: "recvd_packets \<Rightarrow> recvd_packets" where
  "trim_ranges s =
     (if MAX_TRACKED_RANGES < length (rp_ranges s) then
        s\<lparr>rp_ranges := butlast (rp_ranges s), min_tracked := u64_add (pr_largest (last (rp_ranges s))) 1\<rparr>
      else s)"

text \<open>The part of \<open>set_received\<close> for packets that elicit an acknowledgment: when to send it.\<close>

definition note_eliciting :: "recvd_packets \<Rightarrow> nat \<Rightarrow> nat \<Rightarrow> nat \<Rightarrow> recvd_packets" where
  "note_eliciting s now pn next_in_order_pn =
     (let count = u64_add (unacknowledged_count s) 1;
          immediate_ack = (rp_space s \<noteq> Space_ApplicationData
                           \<or> pn \<noteq> next_in_order_pn \<and> \<not> ignore_order s
                           \<or> unacknowledged_tolerance s < count);
          t = (if immediate_ack then now
               else case rp_ack_time s of None \<Rightarrow> now + rp_ack_delay s | Some t \<Rightarrow> t)
      in s\<lparr>unacknowledged_count := count, rp_ack_time := Some t\<rparr>)"

definition set_received :: "recvd_packets \<Rightarrow> nat \<Rightarrow> nat \<Rightarrow> bool \<Rightarrow> (bool \<times> recvd_packets) res" where
  "set_received s now pn eliciting =
     (let next_in_order_pn = (case rp_ranges s of [] \<Rightarrow> 0 | r # _ \<Rightarrow> u64_add (pr_largest r) 1)
      in bind_res (rp_add (rp_ranges s) pn) (\<lambda>rs.
           (let s1 = trim_ranges (s\<lparr>rp_ranges := rs\<rparr>);
                largest = (next_in_order_pn \<le> pn);
                s2 = (if largest then s1\<lparr>largest_pn_time := Some now\<rparr> else s1)
            in Ok (largest, if eliciting then note_eliciting s2 now pn next_in_order_pn else s2))))"

definition rp_immediate_ack :: "recvd_packets \<Rightarrow> nat \<Rightarrow> recvd_packets" where
  "rp_immediate_ack s now = s\<lparr>rp_ack_time := Some now\<rparr>"

definition is_duplicate :: "recvd_packets \<Rightarrow> nat \<Rightarrow> bool" where
  "is_duplicate s pn \<longleftrightarrow>
     pn < min_tracked s
     \<or> list_ex (\<lambda>r. range_contains r pn) (takeWhile (\<lambda>r. pn \<le> pr_largest r) (rp_ranges s))"

text \<open>The loops of \<open>acknowledged\<close>: \<open>cur\<close> is the head of the second list, what comes before it is done.\<close>

fun rp_acknowledged :: "packet_range list \<Rightarrow> packet_range list \<Rightarrow> packet_range list" where
  "rp_acknowledged [] rs = rs"
| "rp_acknowledged (ack # acks) [] = []"
| "rp_acknowledged (ack # acks) (cur # rs) =
     (if pr_largest ack < pr_smallest cur
      then (case rs of [] \<Rightarrow> [cur] | _ \<Rightarrow> cur # rp_acknowledged (ack # acks) rs)
      else rp_acknowledged acks (range_acknowledged cur ack # rs))"

definition acknowledged :: "recvd_packets \<Rightarrow> packet_range list \<Rightarrow> recvd_packets res" where
  "acknowledged s acked =
     assert_res (rp_ranges s \<noteq> []) (Ok (s\<lparr>rp_ranges := rp_acknowledged acked (rp_ranges s)\<rparr>))"

subsection \<open>ACK frames\<close>

definition USEFUL_ACK_LEN :: nat where "USEFUL_ACK_LEN = 1 + 8 + 8 + 1 + 8 + 3 * 8"
definition RANGE_FRAME_SPACE :: nat where "RANGE_FRAME_SPACE = 512"
definition ASSUMED_ACK_RANGE_LEN :: nat where "ASSUMED_ACK_RANGE_LEN = 16"
definition MAX_EXTRA_ACK_RANGES :: nat where "MAX_EXTRA_ACK_RANGES = 63"

definition encode_ack_fixed ::
    "'b Buffer \<Rightarrow> 'b encoder \<Rightarrow> packet_range \<Rightarrow> nat \<Rightarrow> (reservation \<times> 'b encoder) res" where
  "encode_ack_fixed B e first delay =
     bind_res (encode_varint B e (word_of_nat (pr_largest first))) (\<lambda>e1.
     bind_res (encode_varint B e1 (word_of_nat delay)) (\<lambda>e2.
     bind_res (reserve B e2 1) (\<lambda>(rsv, e3).
     bind_res (encode_varint B e3 (word_of_nat (u64_sub (range_len first) 1))) (\<lambda>e4. Ok (rsv, e4)))))"

text \<open>The loop of \<open>encode_ack_ranges\<close>; the encoder must not grow beyond \<open>bound\<close>.\<close>

fun encode_range_loop ::
    "'b Buffer \<Rightarrow> nat \<Rightarrow> packet_range list \<Rightarrow> nat \<Rightarrow> packet_range list \<Rightarrow> 'b encoder
      \<Rightarrow> (packet_range list \<times> 'b encoder) res" where
  "encode_range_loop B bound [] lst acked e = Ok (acked, e)"
| "encode_range_loop B bound (rng # rs) lst acked e =
     (if bound < enc_len B e + ASSUMED_ACK_RANGE_LEN then Ok (acked, e)
      else
        assert_res (u64_add (pr_largest rng) 2 \<le> lst)
        (bind_res (encode_varint B e (word_of_nat (u64_sub (u64_sub lst (pr_largest rng)) 2))) (\<lambda>e1.
         bind_res (encode_varint B e1 (word_of_nat (u64_sub (range_len rng) 1))) (\<lambda>e2.
           encode_range_loop B bound rs (pr_smallest rng) (acked @ [rng]) e2))))"

definition encode_ack_ranges ::
    "'b Buffer \<Rightarrow> packet_range list \<Rightarrow> 'b encoder \<Rightarrow> packet_range \<Rightarrow> reservation \<Rightarrow> nat
      \<Rightarrow> (packet_range list \<times> 'b encoder) res" where
  "encode_ack_ranges B pending e first rsv space =
     (let start = enc_len B e;
          budget = min RANGE_FRAME_SPACE space
      in bind_res (encode_range_loop B (start + budget) (take MAX_EXTRA_ACK_RANGES pending) (pr_smallest first) [first] e)
           (\<lambda>(acked, e1).
             assert_res (enc_len B e1 - start \<le> budget)
             (assert_res (length acked - 1 < 256)
               (bind_res (overwrite B e1 rsv [word_of_nat (length acked - 1)]) (\<lambda>e2. Ok (acked, e2))))))"

definition ecn_triple :: "ecn_count \<Rightarrow> (nat \<times> nat \<times> nat) option" where
  "ecn_triple c = (if ecn_is_some c then Some (ec_ect0 c, ec_ect1 c, ec_ce c) else None)"

definition ack_fixed_len :: "frame_type \<Rightarrow> packet_range \<Rightarrow> nat \<Rightarrow> (nat \<times> nat \<times> nat) option \<Rightarrow> nat res" where
  "ack_fixed_len ft first delay ecn =
     bind_res (sum_varint_len ([frame_type_code ft, pr_largest first, delay, u64_sub (range_len first) 1]
       @ (case ecn of None \<Rightarrow> [] | Some (ect0, ect1, ce) \<Rightarrow> [ect0, ect1, ce]))) (\<lambda>n. Ok (n + 1))"

text \<open>The closure that \<open>write_frame\<close> passes to \<open>encode_frame\<close>; it also sets \<open>acked\<close>.\<close>

definition encode_ack_body ::
    "'b Buffer \<Rightarrow> packet_range \<Rightarrow> packet_range list \<Rightarrow> nat \<Rightarrow> nat \<Rightarrow> (nat \<times> nat \<times> nat) option \<Rightarrow> 'b encoder
      \<Rightarrow> (packet_range list \<times> 'b encoder) res" where
  "encode_ack_body B first pending delay space ecn e =
     bind_res (encode_ack_fixed B e first delay) (\<lambda>(rsv, e1).
     bind_res (encode_ack_ranges B pending e1 first rsv space) (\<lambda>(acked, e2).
       (case ecn of
          None \<Rightarrow> Ok (acked, e2)
        | Some (ect0, ect1, ce) \<Rightarrow>
            bind_res (encode_varints B [ect0, ect1, ce] e2) (\<lambda>e3. Ok (acked, e3)))))"

definition rp_write_frame ::
    "'b Buffer \<Rightarrow> recvd_packets \<Rightarrow> nat \<Rightarrow> nat \<Rightarrow> 'b builder \<Rightarrow> tokens \<Rightarrow> (recvd_packets \<times> 'b builder \<times> tokens) res" where
  "rp_write_frame B s now rtt b ts =
     (if \<not> ack_now s now rtt then Ok (s, b, ts)
      else
        (case filter pr_ack_needed (rp_ranges s) of
           [] \<Rightarrow> Ok (s, b, ts)
         | first # pending \<Rightarrow>
             (case largest_pn_time s of
                None \<Rightarrow> Ok (s, b, ts)
              | Some largest_time \<Rightarrow>
                  (let delay = min MAX_VARINT ((now - largest_time) div 8);
                       ecn = ecn_triple (rp_ecn_count s);
                       ft = (if ecn \<noteq> None then FT_AckEcn else FT_Ack)
                   in bind_res (ack_fixed_len ft first delay ecn) (\<lambda>fixed_len.
                        if builder_remaining B b < fixed_len then Ok (s, b, ts)
                        else
                          bind_res (encode_varint B (b_enc b) (word_of_nat (frame_type_code ft))) (\<lambda>e1.
                          bind_res (encode_ack_body B first pending delay (builder_remaining B b - fixed_len) ecn e1)
                            (\<lambda>(acked, e2).
                              assert_res (builder_len B (b\<lparr>b_enc := e2\<rparr>) \<le> b_limit b)
                                (Ok (s\<lparr>rp_ack_time := None, last_ack_time := Some now, unacknowledged_count := 0\<rparr>,
                                     b\<lparr>b_enc := e2\<rparr>, ts @ [Tok_Ack acked])))))))))"

subsection \<open>All spaces\<close>

type_synonym ack_tracker = "pn_space \<Rightarrow> recvd_packets option"

definition drop_space :: "ack_tracker \<Rightarrow> pn_space \<Rightarrow> ack_tracker res" where
  "drop_space a space =
     assert_res (space \<noteq> Space_ApplicationData)
     (assert_res (space \<noteq> Space_Handshake \<or> a Space_Initial = None) (Ok (a(space := None))))"

definition on_space :: "ack_tracker \<Rightarrow> pn_space \<Rightarrow> (recvd_packets \<Rightarrow> recvd_packets) \<Rightarrow> ack_tracker" where
  "on_space a space f = (case a space of None \<Rightarrow> a | Some s \<Rightarrow> a(space := Some (f s)))"

definition tracker_ack_freq :: "ack_tracker \<Rightarrow> nat \<Rightarrow> nat \<Rightarrow> nat \<Rightarrow> bool \<Rightarrow> ack_tracker" where
  "tracker_ack_freq a seqno tolerance delay ignore =
     on_space a Space_ApplicationData (\<lambda>s. rp_ack_freq s seqno tolerance delay ignore)"

definition tracker_immediate_ack :: "ack_tracker \<Rightarrow> pn_space \<Rightarrow> nat \<Rightarrow> ack_tracker" where
  "tracker_immediate_ack a space now = on_space a space (\<lambda>s. rp_immediate_ack s now)"

definition opt_min :: "nat option \<Rightarrow> nat option \<Rightarrow> nat option" where
  "opt_min a b = (case a of None \<Rightarrow> b | Some x \<Rightarrow> (case b of None \<Rightarrow> a | Some y \<Rightarrow> Some (min x y)))"

definition tracker_ack_time :: "ack_tracker \<Rightarrow> nat \<Rightarrow> nat option" where
  "tracker_ack_time a now =
     (case (a Space_Initial, a Space_Handshake, a Space_ApplicationData) of
        (None, None, Some s) \<Rightarrow> rp_ack_time s
      | _ \<Rightarrow>
          (let f = (\<lambda>space. case a space of
                       None \<Rightarrow> None
                     | Some s \<Rightarrow> (case rp_ack_time s of None \<Rightarrow> None | Some t \<Rightarrow> if now < t then Some t else None))
           in opt_min (f Space_Initial) (opt_min (f Space_Handshake) (f Space_ApplicationData))))"

definition tracker_acked :: "ack_tracker \<Rightarrow> pn_space \<Rightarrow> packet_range list \<Rightarrow> ack_tracker res" where
  "tracker_acked a space acked =
     (case a space of
        None \<Rightarrow> Ok a
      | Some s \<Rightarrow> bind_res (acknowledged s acked) (\<lambda>s'. Ok (a(space := Some s'))))"

definition tracker_write_frame ::
    "'b Buffer \<Rightarrow> ack_tracker \<Rightarrow> pn_space \<Rightarrow> nat \<Rightarrow> nat \<Rightarrow> 'b builder \<Rightarrow> tokens \<Rightarrow> (ack_tracker \<times> 'b builder \<times> tokens) res"
    where
  "tracker_write_frame B a space now rtt b ts =
     (case a space of
        None \<Rightarrow> Ok (a, b, ts)
      | Some s \<Rightarrow>
          bind_res (rp_write_frame B s now rtt b ts) (\<lambda>(s', b', ts'). Ok (a(space := Some s'), b', ts')))"

definition ack_tracker_default :: ack_tracker where
  "ack_tracker_default space = Some (recvd_packets_new space)"

end
