(* ===== verification/Frame_Codec.thy ===== *)
theory Frame_Codec
  imports Frame
begin

text \<open>
  Correctness of the frame parser of theory \<open>Frame\<close>: \<open>frame_bytes\<close> is the wire format of RFC 9000
  (Section 19) and of the extensions the code supports, \<open>valid_frame\<close> are the conditions the
  format puts on the fields. Parsing inverts the format; every parsed frame is valid; parsing
  never panics and always makes progress.
\<close>

named_theorems dcur_simps \<open>what each decoding step does at the front of the remaining bytes\<close>

subsection \<open>Parsing what was written\<close>

text \<open>A decoder that has read \<open>pre\<close> and has \<open>rest\<close> to go.\<close>

definition dcur :: "bytes \<Rightarrow> bytes \<Rightarrow> decoder" where
  "dcur pre rest = \<lparr>dbuf = pre @ rest, doffset = length pre\<rparr>"

definition vvec_bytes :: "bytes \<Rightarrow> bytes" where
  "vvec_bytes v = varint_bytes (length v) @ v"

lemma doffset_dcur [simp]: "doffset (dcur pre rest) = length pre"
  by (simp add: dcur_def)

lemma dcur_dv [dcur_simps]:
  "v < 2 ^ 62 \<Longrightarrow> dv (dcur pre (varint_bytes v @ rest)) = Ok (v, dcur (pre @ varint_bytes v) rest)"
  by (simp add: dv_def dcur_def decode_varint_bytes unat_of_nat)

lemma dcur_vvec [dcur_simps]:
  "length v < 2 ^ 62 \<Longrightarrow>
     d_opt (decode_vvec (dcur pre (vvec_bytes v @ rest))) = Ok (v, dcur (pre @ vvec_bytes v) rest)"
  using decode_vvec_bytes [of v pre rest] by (simp add: dcur_def vvec_bytes_def add.assoc)

lemma dcur_decode [dcur_simps]:
  "length v = n \<Longrightarrow> d_opt (decode (dcur pre (v @ rest)) n) = Ok (v, dcur (pre @ v) rest)"
  by (auto simp: dcur_def decode_take)

lemma dcur_remainder [dcur_simps]: "decode_remainder (dcur pre rest) = (rest, dcur (pre @ rest) [])"
  by (simp add: dcur_def decode_remainder_def)

lemma dcur_vec1 [dcur_simps]:
  "length v < 256 \<Longrightarrow>
     decode_vec (dcur pre (to_be 1 (length v) @ v @ rest)) 1 = Ok (Some v, dcur (pre @ to_be 1 (length v) @ v) rest)"
  using decode_vec_bytes [of 1 v pre rest] by (simp add: dcur_def del: to_be.simps One_nat_def)

lemma dcur_uint1 [dcur_simps]:
  "v < 256 \<Longrightarrow>
     decode_uint 1 (dcur pre (to_be 1 v @ rest)) = Ok (Some (word_of_nat v), dcur (pre @ to_be 1 v) rest)"
  using decode_n_bytes [of 1 v pre rest] by (simp add: dcur_def decode_uint_def unat_of_nat del: to_be.simps One_nat_def)

lemma dcur_padding [dcur_simps]:
  assumes "rest = [] \<or> hd rest \<noteq> 0"
  shows "skip_while align (dcur pre (replicate n 0 @ rest)) 0 = Ok (n, dcur (pre @ replicate n 0) rest)"
proof -
  have "takeWhile (\<lambda>v. v = (0::u8)) rest = []"
    using assms by (cases rest) auto
  then have "takeWhile (\<lambda>v. v = 0) (replicate n 0 @ rest) = replicate n (0::u8)"
    by (simp add: takeWhile_append)
  then show ?thesis
    by (simp add: skip_while_eq skip_while_ref_def dcur_def decoder_as_ref_def Let_def)
qed

subsection \<open>The wire format\<close>

definition ft_bytes :: "frame_type \<Rightarrow> bytes" where
  "ft_bytes t = varint_bytes (frame_type_code t)"

definition ack_range_bytes :: "ack_range \<Rightarrow> bytes" where
  "ack_range_bytes r = varint_bytes (ar_gap r) @ varint_bytes (ar_range r)"

definition ecn_bytes :: "ecn_count \<Rightarrow> bytes" where
  "ecn_bytes c = varint_bytes (ec_ect0 c) @ varint_bytes (ec_ect1 c) @ varint_bytes (ec_ce c)"

primrec frame_bytes :: "frame \<Rightarrow> bytes" where
  "frame_bytes (Frame_Padding n) = replicate n 0"
| "frame_bytes Frame_Ping = ft_bytes FT_Ping"
| "frame_bytes (Frame_Ack la ad fa rs ec) =
     ft_bytes (if ec = None then FT_Ack else FT_AckEcn) @ varint_bytes la @ varint_bytes ad
       @ varint_bytes (length rs) @ varint_bytes fa @ concat (map ack_range_bytes rs)
       @ (case ec of None \<Rightarrow> [] | Some c \<Rightarrow> ecn_bytes c)"
| "frame_bytes (Frame_ResetStream i e f) =
     ft_bytes FT_ResetStream @ varint_bytes i @ varint_bytes e @ varint_bytes f"
| "frame_bytes (Frame_ResetStreamAt i e f r) =
     ft_bytes FT_ResetStreamAt @ varint_bytes i @ varint_bytes e @ varint_bytes f @ varint_bytes r"
| "frame_bytes (Frame_StopSending i e) = ft_bytes FT_StopSending @ varint_bytes i @ varint_bytes e"
| "frame_bytes (Frame_Crypto off data) = ft_bytes FT_Crypto @ varint_bytes off @ vvec_bytes data"
| "frame_bytes (Frame_NewToken t) = ft_bytes FT_NewToken @ vvec_bytes t"
| "frame_bytes (Frame_Stream i off data fin fill) =
     ft_bytes (frame_stream_type fin (0 < off) fill) @ varint_bytes i
       @ (if 0 < off then varint_bytes off else []) @ (if fill then data else vvec_bytes data)"
| "frame_bytes (Frame_MaxData m) = ft_bytes FT_MaxData @ varint_bytes m"
| "frame_bytes (Frame_MaxStreamData i m) = ft_bytes FT_MaxStreamData @ varint_bytes i @ varint_bytes m"
| "frame_bytes (Frame_MaxStreams t m) =
     ft_bytes (case t of BiDi \<Rightarrow> FT_MaxStreamsBiDi | UniDi \<Rightarrow> FT_MaxStreamsUniDi) @ varint_bytes m"
| "frame_bytes (Frame_DataBlocked l) = ft_bytes FT_DataBlocked @ varint_bytes l"
| "frame_bytes (Frame_StreamDataBlocked i l) =
     ft_bytes FT_StreamDataBlocked @ varint_bytes i @ varint_bytes l"
| "frame_bytes (Frame_StreamsBlocked t l) =
     ft_bytes (case t of BiDi \<Rightarrow> FT_StreamsBlockedBiDi | UniDi \<Rightarrow> FT_StreamsBlockedUniDi) @ varint_bytes l"
| "frame_bytes (Frame_NewConnectionId s r c t) =
     ft_bytes FT_NewConnectionId @ varint_bytes s @ varint_bytes r @ to_be 1 (length c) @ c @ t"
| "frame_bytes (Frame_RetireConnectionId s) = ft_bytes FT_RetireConnectionId @ varint_bytes s"
| "frame_bytes (Frame_PathChallenge d) = ft_bytes FT_PathChallenge @ d"
| "frame_bytes (Frame_PathResponse d) = ft_bytes FT_PathResponse @ d"
| "frame_bytes (Frame_ConnectionClose e t r) =
     (case e of
        CloseTransport c \<Rightarrow> ft_bytes FT_ConnectionCloseTransport @ varint_bytes c @ varint_bytes t
      | CloseApplication c \<Rightarrow> ft_bytes FT_ConnectionCloseApplication @ varint_bytes c) @ vvec_bytes r"
| "frame_bytes Frame_HandshakeDone = ft_bytes FT_HandshakeDone"
| "frame_bytes (Frame_AckFrequency s t dl i) =
     ft_bytes FT_AckFrequency @ varint_bytes s @ varint_bytes t @ varint_bytes dl
       @ to_be 1 (if i then 1 else 0)"
| "frame_bytes (Frame_Datagram data l) =
     (case l of None \<Rightarrow> ft_bytes FT_Datagram @ data
              | Some _ \<Rightarrow> ft_bytes FT_DatagramWithLen @ vvec_bytes data)"

text \<open>The conditions on the fields of a frame.\<close>

definition valid_ecn :: "ecn_count \<Rightarrow> bool" where
  "valid_ecn c \<longleftrightarrow> ec_not_ect c = 0 \<and> ec_ect0 c \<le> MAX_VARINT \<and> ec_ect1 c \<le> MAX_VARINT \<and> ec_ce c \<le> MAX_VARINT"

definition valid_range :: "ack_range \<Rightarrow> bool" where
  "valid_range r \<longleftrightarrow> ar_gap r \<le> MAX_VARINT \<and> ar_range r \<le> MAX_VARINT"

primrec valid_frame :: "frame \<Rightarrow> bool" where
  "valid_frame (Frame_Padding n) = (1 \<le> n \<and> n < 2 ^ 16)"
| "valid_frame Frame_Ping = True"
| "valid_frame (Frame_Ack la ad fa rs ec) =
     (la \<le> MAX_VARINT \<and> ad \<le> MAX_VARINT \<and> fa \<le> MAX_VARINT \<and> length rs < MAX_ACK_RANGE_COUNT
      \<and> list_all valid_range rs \<and> (case ec of None \<Rightarrow> True | Some c \<Rightarrow> valid_ecn c))"
| "valid_frame (Frame_ResetStream i e f) = (i \<le> MAX_VARINT \<and> e \<le> MAX_VARINT \<and> f \<le> MAX_VARINT)"
| "valid_frame (Frame_ResetStreamAt i e f r) =
     (i \<le> MAX_VARINT \<and> e \<le> MAX_VARINT \<and> f \<le> MAX_VARINT \<and> r \<le> f)"
| "valid_frame (Frame_StopSending i e) = (i \<le> MAX_VARINT \<and> e \<le> MAX_VARINT)"
| "valid_frame (Frame_Crypto off data) = (off + length data \<le> MAX_VARINT)"
| "valid_frame (Frame_NewToken t) = (t \<noteq> [] \<and> length t \<le> MAX_VARINT)"
| "valid_frame (Frame_Stream i off data fin fill) = (i \<le> MAX_VARINT \<and> off + length data \<le> MAX_VARINT)"
| "valid_frame (Frame_MaxData m) = (m \<le> MAX_VARINT)"
| "valid_frame (Frame_MaxStreamData i m) = (i \<le> MAX_VARINT \<and> m \<le> MAX_VARINT)"
| "valid_frame (Frame_MaxStreams t m) = (m \<le> MAX_STREAMS_LIMIT)"
| "valid_frame (Frame_DataBlocked l) = (l \<le> MAX_VARINT)"
| "valid_frame (Frame_StreamDataBlocked i l) = (i \<le> MAX_VARINT \<and> l \<le> MAX_VARINT)"
| "valid_frame (Frame_StreamsBlocked t l) = (l \<le> MAX_STREAMS_LIMIT)"
| "valid_frame (Frame_NewConnectionId s r c t) =
     (s \<le> MAX_VARINT \<and> r \<le> s \<and> c \<noteq> [] \<and> length c \<le> CID_MAX_LEN \<and> length t = SRT_LEN)"
| "valid_frame (Frame_RetireConnectionId s) = (s \<le> MAX_VARINT)"
| "valid_frame (Frame_PathChallenge d) = (length d = PATH_CHALLENGE_LEN)"
| "valid_frame (Frame_PathResponse d) = (length d = PATH_CHALLENGE_LEN)"
| "valid_frame (Frame_ConnectionClose e t r) =
     (close_error_code e \<le> MAX_VARINT \<and> t \<le> MAX_VARINT
      \<and> (case e of CloseTransport _ \<Rightarrow> True | CloseApplication _ \<Rightarrow> t = 0) \<and> utf8_lossy r = r)"
| "valid_frame Frame_HandshakeDone = True"
| "valid_frame (Frame_AckFrequency s t dl i) =
     (s \<le> MAX_VARINT \<and> 0 < t \<and> t \<le> MAX_VARINT \<and> dl \<le> MAX_VARINT)"
| "valid_frame (Frame_Datagram data l) = (case l of None \<Rightarrow> True | Some n \<Rightarrow> n \<in> {1, 2, 4, 8})"

text \<open>
  What \<open>frame_bytes\<close> needs on top: lengths that have a varint, and a length field of a datagram that is
  as short as possible. A frame that runs to the end of the packet must be the last; padding ends where
  another byte starts.
\<close>

definition canonical_frame :: "frame \<Rightarrow> bool" where
  "canonical_frame f \<longleftrightarrow> valid_frame f \<and>
     (case f of
        Frame_ConnectionClose _ _ r \<Rightarrow> length r \<le> MAX_VARINT
      | Frame_Datagram data (Some n) \<Rightarrow> length data \<le> MAX_VARINT \<and> n = varint_size (length data)
      | _ \<Rightarrow> True)"

definition may_follow :: "frame \<Rightarrow> bytes \<Rightarrow> bool" where
  "may_follow f rest \<longleftrightarrow>
     (case f of
        Frame_Padding _ \<Rightarrow> rest = [] \<or> hd rest \<noteq> 0
      | Frame_Stream _ _ _ _ fill \<Rightarrow> \<not> fill \<or> rest = []
      | Frame_Datagram _ None \<Rightarrow> rest = []
      | _ \<Rightarrow> True)"

subsection \<open>Round trip\<close>

lemma frame_type_codes: "frame_type_code t \<le> 0xaf"
  by (cases t) simp_all

lemma frame_type_try_from_code [simp]: "frame_type_try_from (frame_type_code t) = Ok t"
  by (cases t) (simp_all add: frame_type_try_from_def frame_types_def)

lemma varint_len_size: "v < 2 ^ 62 \<Longrightarrow> varint_len v = Ok (varint_size v)"
  by (simp add: varint_len_def varint_size_def)

lemma frame_decode_type:
  "frame_decode align (dcur pre (ft_bytes t @ rest)) = decode_body align t (dcur (pre @ ft_bytes t) rest)"
proof -
  have "frame_type_code t < 2 ^ 62"
    using frame_type_codes [of t] by simp
  then show ?thesis
    by (simp add: frame_decode_def Let_def ft_bytes_def dcur_dv varint_len_size)
qed

lemma dcur_ack_ranges [dcur_simps]:
  "list_all valid_range rs \<Longrightarrow>
   decode_ack_ranges (length rs) (dcur pre (concat (map ack_range_bytes rs) @ rest))
     = Ok (rs, dcur (pre @ concat (map ack_range_bytes rs)) rest)"
proof (induction rs arbitrary: pre)
  case Nil
  then show ?case by simp
next
  case (Cons r rs)
  then have "ar_gap r < 2 ^ 62" "ar_range r < 2 ^ 62"
    by (simp_all add: valid_range_def MAX_VARINT_def)
  then show ?case
    using Cons.IH [of "pre @ ack_range_bytes r"] Cons.prems
    by (simp add: ack_range_bytes_def dcur_dv)
qed

lemma dcur_ecn [dcur_simps]:
  "valid_ecn c \<Longrightarrow> decode_ecn_count (dcur pre (ecn_bytes c @ rest)) = Ok (c, dcur (pre @ ecn_bytes c) rest)"
  by (simp add: decode_ecn_count_def ecn_bytes_def valid_ecn_def MAX_VARINT_def dcur_dv ecn_count_new_def)

lemma le_MAX_VARINT: "v \<le> MAX_VARINT \<longleftrightarrow> v < 2 ^ 62"
  by (auto simp: MAX_VARINT_def)

lemma offset_len_ok:
  assumes "off + length data \<le> MAX_VARINT"
  shows "off < 2 ^ 62" "length data < 2 ^ 62" "\<not> MAX_VARINT < u64_add off (length data)"
proof -
  have "off + length data < 2 ^ 62"
    using assms by (simp add: le_MAX_VARINT)
  then show "off < 2 ^ 62" "length data < 2 ^ 62"
    by linarith+
  have "u64_add off (length data) = off + length data"
    using assms by (intro u64_add_eq) (simp add: MAX_VARINT_def)
  then show "\<not> MAX_VARINT < u64_add off (length data)"
    using assms by simp
qed

lemma decode_frame_padding:
  assumes "valid_frame (Frame_Padding n)" "rest = [] \<or> hd rest \<noteq> 0"
  shows "frame_decode align (dcur pre (replicate n 0 @ rest)) = Ok (Frame_Padding n, dcur (pre @ replicate n 0) rest)"
proof -
  obtain m where m: "n = Suc m"
    using assms(1) by (cases n) auto
  have "ft_bytes FT_Padding = [0]"
    by (simp add: ft_bytes_def varint_bytes_def)
  then show ?thesis
    using assms frame_decode_type [of align pre FT_Padding "replicate m 0 @ rest"]
      dcur_padding [OF assms(2), of align "pre @ [0]" m]
    by (simp add: m decode_body_def)
qed

lemma decode_frame_stream:
  assumes "valid_frame (Frame_Stream i off data fin fill)" "\<not> fill \<or> rest = []"
  shows "frame_decode align (dcur pre (frame_bytes (Frame_Stream i off data fin fill) @ rest))
    = Ok (Frame_Stream i off data fin fill, dcur (pre @ frame_bytes (Frame_Stream i off data fin fill)) rest)"
proof -
  define T where "T = frame_stream_type fin (0 < off) fill"
  have t: "is_stream_with_offset T = (0 < off)" "is_stream_with_length T = (\<not> fill)"
    "is_stream_with_fin T = fin" "decode_body align T d = decode_stream T d" for d
    unfolding T_def
    by (cases fin; cases fill; cases "0 < off"; simp add: is_stream_with_offset_def
        is_stream_with_length_def is_stream_with_fin_def decode_body_def)+
  have i: "i < 2 ^ 62"
    using assms(1) by (simp add: le_MAX_VARINT)
  have ol: "off < 2 ^ 62" "length data < 2 ^ 62" "\<not> MAX_VARINT < u64_add off (length data)"
    using offset_len_ok [of off data] assms(1) by simp_all
  show ?thesis
    using i ol assms(2) unfolding frame_bytes.simps T_def [symmetric] append_assoc frame_decode_type
    by (cases "off = 0"; cases fill) (simp_all add: t decode_stream_def Let_def dcur_simps)
qed

lemma decode_frame_bytes:
  assumes "canonical_frame f" "may_follow f rest"
  shows "frame_decode align (dcur pre (frame_bytes f @ rest)) = Ok (f, dcur (pre @ frame_bytes f) rest)"
proof (cases f)
  case (Frame_Padding n)
  then show ?thesis
    using assms decode_frame_padding [of n rest align pre] by (simp add: canonical_frame_def may_follow_def)
next
  case (Frame_Stream i off data fin fill)
  then show ?thesis
    using assms decode_frame_stream [of i off data fin fill rest align pre]
    by (simp add: canonical_frame_def may_follow_def)
next
  case (Frame_Ack la ad fa rs ec)
  then show ?thesis
    using assms
    by (cases ec) (simp_all add: canonical_frame_def le_MAX_VARINT frame_decode_type decode_body_def
        decode_ack_def dcur_simps MAX_ACK_RANGE_COUNT_def)
next
  case (Frame_Crypto off data)
  then show ?thesis
    using assms offset_len_ok [of off data]
    by (simp add: canonical_frame_def frame_decode_type decode_body_def dcur_simps)
next
  case (Frame_NewConnectionId s r c t)
  then show ?thesis
    using assms
    by (simp add: canonical_frame_def le_MAX_VARINT frame_decode_type decode_body_def decode_srt_def
        decode_new_connection_id_def dcur_simps CID_MAX_LEN_def del: to_be.simps One_nat_def)
next
  case (Frame_MaxStreams t m)
  then show ?thesis
    using assms
    by (cases t) (simp_all add: canonical_frame_def frame_decode_type decode_body_def dcur_simps
        MAX_STREAMS_LIMIT_def stream_type_try_from_def)
next
  case (Frame_StreamsBlocked t m)
  then show ?thesis
    using assms
    by (cases t) (simp_all add: canonical_frame_def frame_decode_type decode_body_def dcur_simps
        MAX_STREAMS_LIMIT_def stream_type_try_from_def)
next
  case (Frame_ConnectionClose e t r)
  then show ?thesis
    using assms
    by (cases e) (simp_all add: canonical_frame_def le_MAX_VARINT frame_decode_type decode_body_def
        decode_connection_close_def dcur_simps)
next
  case (Frame_AckFrequency s t dl i)
  then show ?thesis
    using assms
    by (cases i) (simp_all add: canonical_frame_def le_MAX_VARINT frame_decode_type decode_body_def
        decode_ack_frequency_def dcur_simps del: to_be.simps One_nat_def)
next
  case (Frame_Datagram data l)
  have "length (vvec_bytes data) = varint_size (length data) + length data" "varint_size (length data) \<noteq> 0"
    by (simp_all add: vvec_bytes_def varint_size_def)
  then show ?thesis
    using assms Frame_Datagram
    by (cases l) (simp_all add: canonical_frame_def may_follow_def le_MAX_VARINT frame_decode_type
        decode_body_def dcur_simps Let_def)
qed (use assms in \<open>simp_all add: canonical_frame_def le_MAX_VARINT frame_decode_type decode_body_def
      decode_path_data_def dcur_simps\<close>)

subsection \<open>Parsing arbitrary bytes\<close>

text \<open>
  A slice of bytes is shorter than \<open>2^63\<close> (\<open>isize::MAX\<close>). \<open>step_ok d r Q\<close>: the step \<open>r\<close> taken at \<open>d\<close> does not
  panic, and when it succeeds it has moved forward in the same buffer and its value satisfies \<open>Q\<close>.
\<close>

definition ok_dec :: "decoder \<Rightarrow> bool" where
  "ok_dec d \<longleftrightarrow> wf_decoder d \<and> length (dbuf d) < 2 ^ 63"

definition step_ok :: "decoder \<Rightarrow> ('a \<times> decoder) res \<Rightarrow> ('a \<Rightarrow> bool) \<Rightarrow> bool" where
  "step_ok d r Q =
     (case r of
        Ok (x, d') \<Rightarrow> ok_dec d' \<and> dbuf d' = dbuf d \<and> doffset d \<le> doffset d' \<and> Q x
      | Err e \<Rightarrow> True
      | Panic \<Rightarrow> False)"

lemma step_ok_simps [simp]:
  "step_ok d (Ok (x, d')) Q \<longleftrightarrow> ok_dec d' \<and> dbuf d' = dbuf d \<and> doffset d \<le> doffset d' \<and> Q x"
  "step_ok d (Err e) Q" "\<not> step_ok d Panic Q"
  by (simp_all add: step_ok_def)

lemma step_bind:
  assumes "step_ok d r P"
    and "\<And>x d'. P x \<Longrightarrow> ok_dec d' \<Longrightarrow> dbuf d' = dbuf d \<Longrightarrow> doffset d \<le> doffset d' \<Longrightarrow> step_ok d' (f (x, d')) Q"
  shows "step_ok d (bind_res r f) Q"
proof (cases r)
  case (Ok a)
  then obtain x d' where xd: "r = Ok (x, d')" by (cases a) simp
  then have d': "P x" "ok_dec d'" "dbuf d' = dbuf d" "doffset d \<le> doffset d'"
    using assms(1) by simp_all
  then have "step_ok d' (f (x, d')) Q"
    by (rule assms(2))
  then show ?thesis
    using xd d' by (auto simp: step_ok_def split: res.splits)
qed (use assms(1) in simp_all)

lemma step_weaken: "step_ok d r P \<Longrightarrow> (\<And>x. P x \<Longrightarrow> Q x) \<Longrightarrow> step_ok d r Q"
  by (auto simp: step_ok_def split: res.splits)

lemma step_dv:
  assumes "ok_dec d"
  shows "step_ok d (dv d) (\<lambda>v. v \<le> MAX_VARINT)"
proof (cases "varint_spec (decoder_as_ref d)")
  case None
  then show ?thesis
    using assms by (simp add: dv_def decode_varint_spec ok_dec_def)
next
  case (Some p)
  then obtain v n where vn: "varint_spec (decoder_as_ref d) = Some (v, n)"
    by (cases p) simp
  note b = varint_spec_bounds [OF vn]
  have "unat (word_of_nat v :: u64) = v"
    using b(1) by (simp add: unat_of_nat MAX_VARINT_def)
  then show ?thesis
    using assms vn b by (auto simp: dv_def decode_varint_spec ok_dec_def wf_decoder_def remaining_def)
qed

lemma step_decode: "ok_dec d \<Longrightarrow> step_ok d (d_opt (decode d n)) (\<lambda>x. length x = n)"
  by (auto simp: decode_def ok_dec_def wf_decoder_def remaining_def)

lemma step_vvec:
  assumes "ok_dec d"
  shows "step_ok d (d_opt (decode_vvec d)) (\<lambda>x. length x \<le> MAX_VARINT)"
proof -
  obtain vo d1 where vd: "decode_varint d = (vo, d1)" by fastforce
  have s: "step_ok d (d_opt (vo, d1)) (\<lambda>v. unat v \<le> MAX_VARINT)"
    using step_dv [OF assms] unfolding dv_def vd by (cases vo) simp_all
  show ?thesis
  proof (cases vo)
    case None
    then show ?thesis by (simp add: decode_vvec_def vd decode_checked_def)
  next
    case (Some v)
    then have d1: "ok_dec d1" "dbuf d1 = dbuf d" "doffset d \<le> doffset d1" "unat v \<le> MAX_VARINT"
      using s by simp_all
    then have "step_ok d1 (d_opt (decode d1 (unat v))) (\<lambda>x. length x = unat v)"
      by (simp add: step_decode)
    then show ?thesis
      using d1 Some by (cases "decode d1 (unat v)"; cases "fst (decode d1 (unat v))")
        (auto simp: decode_vvec_def vd decode_checked_def MAX_VARINT_def)
  qed
qed

lemmas dv_bind = step_bind [OF step_dv]
lemmas vvec_bind = step_bind [OF step_vvec]
lemmas decode_bind = step_bind [OF step_decode]

lemma step_n1:
  assumes "ok_dec d"
  obtains r where "decode_n d 1 = Ok r" "step_ok d (d_opt r) (\<lambda>_. True)"
proof (cases "remaining d < 1")
  case True
  then show ?thesis
    using that [of "(None, d)"] by (simp add: decode_n_def)
next
  case False
  then show ?thesis
    using that [of "(Some (ucast (dbuf d ! doffset d)), d\<lparr>doffset := doffset d + 1\<rparr>)"] assms
    by (simp add: decode_n_def ok_dec_def wf_decoder_def remaining_def)
qed

lemma step_vec1:
  assumes "ok_dec d"
  obtains r where "decode_vec d 1 = Ok r" "step_ok d (d_opt r) (\<lambda>_. True)"
proof -
  obtain vo d1 where r: "decode_n d 1 = Ok (vo, d1)" "step_ok d (d_opt (vo, d1)) (\<lambda>_. True)"
    using step_n1 [OF assms] by (metis surj_pair)
  show ?thesis
  proof (cases vo)
    case None
    then show ?thesis
      using that r by (simp add: decode_vec_def decode_checked_def)
  next
    case (Some v)
    then have d1: "ok_dec d1" "dbuf d1 = dbuf d" "doffset d \<le> doffset d1"
      using r(2) by simp_all
    then have "step_ok d1 (d_opt (decode d1 (unat v))) (\<lambda>x. length x = unat v)"
      by (simp add: step_decode)
    moreover have "unat v < 2 ^ 64"
      by (rule order_less_le_trans [OF unsigned_less]) simp
    then have "unat v \<le> USIZE_MAX"
      by simp
    ultimately have "step_ok d (d_opt (decode_checked vo d1)) (\<lambda>_. True)"
      using d1 Some by (cases "decode d1 (unat v)"; cases "fst (decode d1 (unat v))")
        (auto simp: decode_checked_def)
    then show ?thesis
      using that r by (simp add: decode_vec_def)
  qed
qed

lemma step_uint1:
  assumes "ok_dec d"
  obtains r where "decode_uint 1 d = Ok r" "step_ok d (d_opt r) (\<lambda>_. True)"
proof -
  obtain vo d1 where r: "decode_n d 1 = Ok (vo, d1)" "step_ok d (d_opt (vo, d1)) (\<lambda>_. True)"
    using step_n1 [OF assms] by (metis surj_pair)
  then have "\<exists>r. decode_uint 1 d = Ok r \<and> step_ok d (d_opt r) (\<lambda>_. True)"
    by (cases vo) (auto simp: decode_uint_def)
  then show ?thesis
    using that by blast
qed

lemma step_ack_ranges:
  "ok_dec d \<Longrightarrow> step_ok d (decode_ack_ranges n d) (\<lambda>rs. length rs = n \<and> list_all valid_range rs)"
proof (induction n arbitrary: d)
  case 0
  then show ?case by simp
next
  case (Suc n)
  show ?case
    using Suc by (auto intro!: dv_bind step_bind [OF Suc.IH] simp: valid_range_def)
qed

lemma step_ecn: "ok_dec d \<Longrightarrow> step_ok d (decode_ecn_count d) valid_ecn"
  by (auto intro!: dv_bind simp: decode_ecn_count_def valid_ecn_def ecn_count_new_def)

lemma step_ack: "ok_dec d \<Longrightarrow> step_ok d (decode_ack ecn d) valid_frame"
  by (auto intro!: dv_bind step_bind [OF step_ack_ranges] step_bind [OF step_ecn] simp: decode_ack_def)

lemma offset_len_valid:
  assumes "off \<le> MAX_VARINT" "len < 2 ^ 63" "\<not> MAX_VARINT < u64_add off len"
  shows "off + len \<le> MAX_VARINT"
proof -
  have "off + len < 2 ^ 64"
    using assms(1,2) by (simp add: MAX_VARINT_def)
  then show ?thesis
    using assms(3) by (simp add: u64_add_eq)
qed

lemma step_remainder: "ok_dec d \<Longrightarrow> step_ok d (Ok (decode_remainder d)) (\<lambda>x. length x < 2 ^ 63)"
  by (auto simp: decode_remainder_def ok_dec_def wf_decoder_def)

lemma step_stream:
  assumes "ok_dec d"
  shows "step_ok d (decode_stream t d) valid_frame"
proof -
  have off: "step_ok d1 (if is_stream_with_offset t then dv d1 else Ok (0, d1)) (\<lambda>v. v \<le> MAX_VARINT)"
    if "ok_dec d1" for d1 using that step_dv by simp
  have data: "step_ok d1 (if \<not> is_stream_with_length t then Ok (decode_remainder d1) else d_opt (decode_vvec d1))
      (\<lambda>x. length x < 2 ^ 63)" if "ok_dec d1" for d1
    using step_remainder [OF that] step_weaken [OF step_vvec [OF that], of "\<lambda>x. length x < 2 ^ 63"]
    by (simp add: MAX_VARINT_def)
  show ?thesis
    unfolding decode_stream_def Let_def
    by (rule dv_bind [OF assms], unfold prod.case, rule step_bind [OF off], assumption, unfold prod.case,
        rule step_bind [OF data], assumption) (auto simp: offset_len_valid)
qed

lemma step_new_connection_id:
  assumes "ok_dec d"
  shows "step_ok d (decode_new_connection_id d) valid_frame"
proof -
  have rest: "step_ok d' (bind_res (decode_vec d' 1) (\<lambda>v. bind_res (d_opt v) (\<lambda>(cid, d).
        if cid = [] \<or> CID_MAX_LEN < length cid then Err FrameEncoding
        else bind_res (decode_srt d) (\<lambda>(srt, d). Ok (Frame_NewConnectionId s r cid srt, d))))) valid_frame"
    if d': "ok_dec d'" and "s \<le> MAX_VARINT" "\<not> s < r" for d' s r
  proof -
    obtain q where q: "decode_vec d' 1 = Ok q" "step_ok d' (d_opt q) (\<lambda>_. True)"
      using step_vec1 [OF d'] .
    then show ?thesis
      using that by (auto intro!: step_bind [OF q(2)] decode_bind simp: decode_srt_def)
  qed
  show ?thesis
    using assms by (auto intro!: dv_bind rest simp: decode_new_connection_id_def simp del: One_nat_def)
qed

lemma step_ack_frequency:
  assumes "ok_dec d"
  shows "step_ok d (decode_ack_frequency d) valid_frame"
proof -
  have rest: "step_ok d' (bind_res (decode_uint 1 d') (\<lambda>r. bind_res (d_opt r) (\<lambda>(b, d).
        if b = 0 then Ok (Frame_AckFrequency s t dl False, d)
        else if b = 1 then Ok (Frame_AckFrequency s t dl True, d) else Err FrameEncoding))) valid_frame"
    if d': "ok_dec d'" and "s \<le> MAX_VARINT" "t \<le> MAX_VARINT" "t \<noteq> 0" "dl \<le> MAX_VARINT" for d' s t dl
  proof -
    obtain q where q: "decode_uint 1 d' = Ok q" "step_ok d' (d_opt q) (\<lambda>_. True)"
      using step_uint1 [OF d'] .
    then show ?thesis
      using that by (auto intro!: step_bind [OF q(2)])
  qed
  show ?thesis
    using assms by (auto intro!: dv_bind rest simp: decode_ack_frequency_def simp del: One_nat_def)
qed

lemma utf8_cont_in: "utf8_cont (safe_get bs i) \<Longrightarrow> i < length bs"
  by (auto simp: utf8_cont_def safe_get_def split: if_splits)

lemma utf8_second_in: "utf8_second b (safe_get bs i) \<Longrightarrow> i < length bs"
  by (auto simp: utf8_second_def utf8_cont_def safe_get_def split: if_splits)

lemma safe_get_take: "i < n \<Longrightarrow> n \<le> length bs \<Longrightarrow> safe_get (take n bs @ xs) i = safe_get bs i"
  by (simp add: safe_get_def nth_append)

lemma utf8_step_take:
  assumes "utf8_step bs = (True, n)" "bs \<noteq> []"
  shows "0 < n" "n \<le> length bs" "utf8_step (take n bs @ xs) = (True, n)"
proof -
  show "0 < n"
    using assms(1) by (auto simp: utf8_step_def Let_def split: if_splits)
  show n: "n \<le> length bs"
    using assms utf8_cont_in [of bs 1] utf8_cont_in [of bs 2] utf8_cont_in [of bs 3]
    by (auto simp: utf8_step_def Let_def Suc_le_eq split: if_splits)
  then have eq: "safe_get (take n bs @ xs) i = safe_get bs i" if "i < n" for i
    using that by (simp add: safe_get_take)
  show "utf8_step (take n bs @ xs) = (True, n)"
    using assms(1) eq [of 0] eq [of 1] eq [of 2] eq [of 3] unfolding utf8_step_def Let_def
    by (simp only: split: if_split_asm) (simp_all split del: if_split, auto)
qed

lemma utf8_lossy_idem: "utf8_lossy (utf8_lossy bs) = utf8_lossy bs"
proof (induction bs rule: utf8_lossy.induct)
  case (1 bs)
  show ?case
  proof (cases "bs = []")
    case True
    then show ?thesis by (simp add: utf8_lossy.simps)
  next
    case False
    obtain ok n where st: "utf8_step bs = (ok, n)" by fastforce
    define c where "c = (if ok then take n bs else [0xef, 0xbf, 0xbd])"
    have L: "utf8_lossy bs = c @ utf8_lossy (drop n bs)"
      using False st by (simp add: utf8_lossy.simps [of bs] c_def)
    have "utf8_step [0xef, 0xbf, 0xbd] = (True, 3)"
      by (simp add: utf8_step_def safe_get_def utf8_second_def utf8_cont_def)
    then have "utf8_step (c @ xs) = (True, length c) \<and> c \<noteq> []" for xs
      using utf8_step_take(1,2) [of bs n] utf8_step_take(3) [of bs n xs]
        utf8_step_take(3) [of "[0xef, 0xbf, 0xbd]" 3 xs] st False
      by (cases ok) (auto simp: c_def)
    then have "utf8_lossy (c @ xs) = c @ utf8_lossy xs" for xs
      by (simp add: utf8_lossy.simps [of "c @ xs"])
    then show ?thesis
      using L 1 [OF False st [symmetric]] by simp
  qed
qed

lemma step_connection_close: "ok_dec d \<Longrightarrow> step_ok d (decode_connection_close t d) valid_frame"
  by (auto intro!: dv_bind vvec_bind simp: decode_connection_close_def utf8_lossy_idem bind_res_assoc
      split: if_splits)

lemma step_padding: "ok_dec d \<Longrightarrow> step_ok d (skip_while align d 0) (\<lambda>_. True)"
  using length_takeWhile_le [of "\<lambda>v. v = 0" "decoder_as_ref d"]
  by (simp add: skip_while_eq skip_while_ref_def Let_def ok_dec_def wf_decoder_def remaining_def) linarith

lemma step_path_data:
  "ok_dec d \<Longrightarrow> (\<And>x. length x = PATH_CHALLENGE_LEN \<Longrightarrow> valid_frame (F x)) \<Longrightarrow>
     step_ok d (decode_path_data F d) valid_frame"
  by (auto intro!: decode_bind simp: decode_path_data_def)

lemma vvec_len_field:
  assumes "ok_dec d" "decode_vvec d = (Some x, d')"
  shows "\<exists>n\<in>{1, 2, 4, 8}. doffset d' = doffset d + n + length x"
proof -
  obtain v n where vn: "varint_spec (decoder_as_ref d) = Some (v, n)"
    using assms by (auto simp: decode_vvec_def decode_varint_spec ok_dec_def decode_checked_def
        split: option.splits)
  then have "decode_varint d = (Some (word_of_nat v), d\<lparr>doffset := doffset d + n\<rparr>)"
    using assms(1) by (simp add: decode_varint_spec ok_dec_def)
  then have "doffset d' = doffset d + n + length x"
    using assms(2) by (auto simp: decode_vvec_def decode_checked_def decode_def remaining_def split: if_splits)
  then show ?thesis
    using varint_spec_bounds(2) [OF vn] by blast
qed

lemma step_datagram:
  assumes "ok_dec d"
  shows "step_ok d (decode_body align FT_DatagramWithLen d) valid_frame"
proof (cases "decode_vvec d")
  case (Pair xo d')
  then show ?thesis
  proof (cases xo)
    case None
    then show ?thesis
      using Pair by (simp add: decode_body_def)
  next
    case (Some x)
    then have "doffset d' - doffset d - length x \<in> {1, 2, 4, 8}"
      using vvec_len_field [OF assms, of x d'] Pair by auto
    then show ?thesis
      using step_vvec [OF assms] Pair Some by (auto simp: decode_body_def Let_def)
  qed
qed

lemma step_body:
  assumes "ok_dec d"
  shows "step_ok d (decode_body align t d) valid_frame"
proof (cases "t = FT_DatagramWithLen")
  case True
  then show ?thesis
    using step_datagram [OF assms] by simp
next
  case False
  have len: "off + length x \<le> MAX_VARINT"
    if "length x \<le> MAX_VARINT" "off \<le> MAX_VARINT" "u64_add off (length x) \<le> MAX_VARINT" for x :: bytes and off
    using that offset_len_valid [of off "length x"] by (simp add: MAX_VARINT_def)
  have rem: "step_ok d (case decode_remainder d of (data, d) \<Rightarrow> Ok (Frame_Datagram data None, d)) valid_frame"
    using step_remainder [OF assms] by (cases "decode_remainder d") simp
  show ?thesis
    using False assms
    by (cases t) (auto simp: decode_body_def step_ack step_stream step_new_connection_id step_ack_frequency
        step_connection_close step_path_data stream_type_try_from_def not_less len rem
        intro!: dv_bind vvec_bind step_bind [OF step_padding])
qed

lemma step_frame_decode:
  assumes "ok_dec d"
  shows "step_ok d (frame_decode align d) valid_frame"
proof -
  have vl: "varint_len t = Ok (varint_size t)" if "t \<le> MAX_VARINT" for t
    using that by (simp add: varint_len_size le_MAX_VARINT)
  have body: "step_ok d' (bind_res (frame_type_try_from t) (\<lambda>t. decode_body align t d')) valid_frame"
    if "ok_dec d'" for d' t
    using step_body [OF that] by (auto simp: frame_type_try_from_def split: option.split)
  show ?thesis
    unfolding frame_decode_def Let_def
    by (rule dv_bind [OF assms]) (auto simp: vl body)
qed

lemma frame_decode_progress:
  assumes "ok_dec d" "frame_decode align d = Ok (f, d')"
  shows "doffset d < doffset d'"
proof -
  obtain t d1 where d1: "dv d = Ok (t, d1)"
    and rest: "bind_res (varint_len t) (\<lambda>n. if n \<noteq> doffset d1 - doffset d then Err ProtocolViolation
      else bind_res (frame_type_try_from t) (\<lambda>t. decode_body align t d1)) = Ok (f, d')"
    using assms(2) unfolding frame_decode_def Let_def by (auto elim!: bind_res_OkE)
  have s1: "t \<le> MAX_VARINT" "ok_dec d1"
    using step_dv [OF assms(1)] d1 by simp_all
  then have "varint_len t = Ok (varint_size t)"
    by (simp add: varint_len_size le_MAX_VARINT)
  then obtain ft where "varint_size t = doffset d1 - doffset d" "decode_body align ft d1 = Ok (f, d')"
    using rest by (auto elim!: bind_res_OkE split: if_splits)
  moreover have "0 < varint_size t"
    by (simp add: varint_size_def)
  ultimately show ?thesis
    using step_body [OF s1(2), of align ft] by simp
qed

subsection \<open>Properties\<close>

text \<open>
  C7: Parsing the wire format of any frame gives the frame back and stops right behind it, whatever precedes
  and follows it in the packet (what follows must not be able to belong to the frame: a frame without a length runs
  to the end of the packet, and padding to the next non-zero byte).
\<close>

theorem frame_roundtrip:
  assumes "canonical_frame f" and "may_follow f rest"
  shows "frame_decode align \<lparr>dbuf = pre @ frame_bytes f @ rest, doffset = length pre\<rparr>
    = Ok (f, \<lparr>dbuf = pre @ frame_bytes f @ rest, doffset = length (pre @ frame_bytes f)\<rparr>)"
  using decode_frame_bytes [OF assms, of align pre] by (simp add: dcur_def)

theorem frame_roundtrip_witness:
  "frame_decode 3 \<lparr>dbuf = [1, 2] @ frame_bytes (Frame_Stream 4 300 [7, 8] True False) @ [0], doffset = length [1, 2 :: u8]\<rparr>
    = Ok (Frame_Stream 4 300 [7, 8] True False,
          \<lparr>dbuf = [1, 2] @ frame_bytes (Frame_Stream 4 300 [7, 8] True False) @ [0],
           doffset = length ([1, 2] @ frame_bytes (Frame_Stream 4 300 [7, 8] True False))\<rparr>)"
  by (rule frame_roundtrip) (simp_all add: canonical_frame_def may_follow_def MAX_VARINT_def)

text \<open>
  C13: Parsing any bytes whatsoever does not panic. When a frame is returned, its fields satisfy the
  conditions of the format (limits of stream counts, offsets, lengths of tokens and connection IDs), and the decoder
  has moved forward by at least one byte, within the same buffer.
\<close>

theorem frame_decode_valid:
  assumes "wf_decoder d" and "length (dbuf d) < 2 ^ 63"
  shows "case frame_decode align d of
      Ok (f, d') \<Rightarrow> valid_frame f \<and> dbuf d' = dbuf d \<and> doffset d < doffset d' \<and> doffset d' \<le> length (dbuf d)
    | Err e \<Rightarrow> True
    | Panic \<Rightarrow> False"
proof -
  have d: "ok_dec d"
    using assms by (simp add: ok_dec_def)
  show ?thesis
    using step_frame_decode [OF d, of align] frame_decode_progress [OF d, of align]
    by (auto simp: step_ok_def ok_dec_def wf_decoder_def split: res.splits)
qed

theorem frame_decode_valid_witness:
  "case frame_decode 0 (decoder_new [0x12, 0x7f, 0xff, 0xff]) of
      Ok (f, d') \<Rightarrow> valid_frame f \<and> dbuf d' = [0x12, 0x7f, 0xff, 0xff] \<and> 0 < doffset d' \<and> doffset d' \<le> length [0x12, 0x7f, 0xff, 0xff :: u8]
    | Err e \<Rightarrow> True
    | Panic \<Rightarrow> False"
  using frame_decode_valid [of "decoder_new [0x12, 0x7f, 0xff, 0xff]" 0]
  by (auto simp: wf_decoder_def decoder_new_def split: res.splits)

end
