(* ===== verification/Frame_Writer.thy ===== *)
theory Frame_Writer
  imports Packet Frame_Codec
begin

text \<open>
  What the components that write frames rely on from the \<open>Builder\<close>, over any lawful buffer: \<open>write_varint_frame\<close> appends
  the frame when it fits the limit of the builder, and does nothing otherwise.
\<close>

definition varints_bytes :: "nat list \<Rightarrow> bytes" where
  "varints_bytes vs = concat (map varint_bytes vs)"

lemma varints_bytes_simps [simp]:
  "varints_bytes [] = []" "varints_bytes (v # vs) = varint_bytes v @ varints_bytes vs"
  by (simp_all add: varints_bytes_def)

lemma sum_varint_len_ok:
  "list_all (\<lambda>v. v < 2 ^ 62) vs \<Longrightarrow> sum_varint_len vs = Ok (length (varints_bytes vs))"
  by (induction vs) (simp_all add: varint_len_size)

context lawful_buffer
begin

text \<open>A builder in use: within its limit, over a buffer with room up to it.\<close>

definition wf_builder :: "'b builder \<Rightarrow> bool" where
  "wf_builder b \<longleftrightarrow> wf_enc (b_enc b) \<and> builder_len B b \<le> b_limit b
     \<and> room (ebuf (b_enc b)) (b_limit b - builder_len B b)"

text \<open>\<open>b'\<close> is \<open>b\<close> with \<open>data\<close> written.\<close>

definition wrote :: "'b builder \<Rightarrow> bytes \<Rightarrow> 'b builder \<Rightarrow> bool" where
  "wrote b data b' \<longleftrightarrow> wf_builder b' \<and> b' = b\<lparr>b_enc := b_enc b'\<rparr>
     \<and> enc_as_ref B (b_enc b') = enc_as_ref B (b_enc b) @ data"

lemma enc_len_appended: "wf_enc e \<Longrightarrow> appended e data e' \<Longrightarrow> enc_len B e' = enc_len B e + length data"
  by (auto simp: appended_def wf_enc_def enc_len_def position_eq)

lemma wrote_appended:
  assumes "wf_builder b" "appended (b_enc b) data e'" "length data \<le> builder_remaining B b"
  shows "wrote b data (b\<lparr>b_enc := e'\<rparr>)"
proof -
  have wf: "wf_enc (b_enc b)" and lim: "builder_len B b \<le> b_limit b"
    and rm: "room (ebuf (b_enc b)) (b_limit b - builder_len B b)"
    using assms(1) by (simp_all add: wf_builder_def)
  have len: "enc_len B e' = enc_len B (b_enc b) + length data"
    by (rule enc_len_appended [OF wf assms(2)])
  then have "b_limit b - builder_len B b = length data + (b_limit b - enc_len B e')"
    using assms(3) lim by (simp add: builder_len_def builder_remaining_def)
  then have "room (ebuf e') (b_limit b - enc_len B e')"
    using rm assms(2) by (simp add: appended_def)
  moreover have "wf_enc e'"
    by (rule appended_wf [OF assms(2)])
  ultimately show ?thesis
    using assms len appended_as_ref [OF wf assms(2)]
    by (auto simp: wrote_def wf_builder_def builder_len_def builder_remaining_def)
qed

lemma encode_varints_ok:
  assumes "wf_enc e" "list_all (\<lambda>v. v < 2 ^ 62) vs" "room (ebuf e) (length (varints_bytes vs))"
  shows "\<exists>e'. encode_varints B vs e = Ok e' \<and> appended e (varints_bytes vs) e'"
  using assms
proof (induction vs arbitrary: e)
  case Nil
  then show ?case by (simp add: appended_def)
next
  case (Cons v vs)
  have v: "unat (word_of_nat v :: u64) = v"
    using Cons.prems(2) by (simp add: unat_of_nat)
  have "room (ebuf e) (varint_size v)"
    by (rule room_mono [OF Cons.prems(3)]) simp
  then obtain e1 where e1: "encode_varint B e (word_of_nat v) = Ok e1" "appended e (varint_bytes v) e1"
    using encode_varint_ok [of e "word_of_nat v"] Cons.prems(1,2) v by auto
  moreover have "room (ebuf e1) (length (varints_bytes vs))"
    using e1(2) Cons.prems(3) by (simp add: appended_def)
  ultimately obtain e2 where "encode_varints B vs e1 = Ok e2" "appended e1 (varints_bytes vs) e2"
    using Cons.IH [OF appended_wf [OF e1(2)]] Cons.prems(2) by auto
  then show ?case
    using e1 appended_trans by auto
qed

lemma write_varint_frame_ok:
  assumes "wf_builder b" "list_all (\<lambda>v. v < 2 ^ 62) vs" "length (varints_bytes vs) \<le> builder_remaining B b"
  shows "\<exists>b'. write_varint_frame B b vs = Ok (True, b') \<and> wrote b (varints_bytes vs) b'"
proof -
  have "room (ebuf (b_enc b)) (length (varints_bytes vs))"
    using assms room_mono by (simp add: wf_builder_def builder_remaining_def) blast
  then obtain e' where e': "encode_varints B vs (b_enc b) = Ok e'" "appended (b_enc b) (varints_bytes vs) e'"
    using encode_varints_ok [of "b_enc b" vs] assms by (auto simp: wf_builder_def)
  have w: "wrote b (varints_bytes vs) (b\<lparr>b_enc := e'\<rparr>)"
    by (rule wrote_appended [OF assms(1) e'(2) assms(3)])
  have "(case vs of [] \<Rightarrow> Ok (b_enc b) | t # rest \<Rightarrow> encode_frame B (b_enc b) t (encode_varints B rest)) = Ok e'"
    using e'(1) by (cases vs) (simp_all add: encode_frame_def)
  moreover have "enc_len B e' \<le> b_limit b"
    using w by (simp add: wrote_def wf_builder_def builder_len_def)
  ultimately show ?thesis
    using w assms(3) by (simp add: write_varint_frame_def sum_varint_len_ok [OF assms(2)])
qed

lemma write_varint_frame_full:
  assumes "list_all (\<lambda>v. v < 2 ^ 62) vs" "builder_remaining B b < length (varints_bytes vs)"
  shows "write_varint_frame B b vs = Ok (False, b)"
  using assms by (simp add: write_varint_frame_def sum_varint_len_ok)

lemmas write_varint_frame_cases = write_varint_frame_ok write_varint_frame_full

end

end
