(* ===== verification/Ack_Frame.thy ===== *)
theory Ack_Frame
  imports Frame_Codec
begin

text \<open>
  The ranges of an ACK frame: \<open>Frame::decode_ack_frame\<close> (\<open>neqo-transport/src/frame.rs\<close>) against the
  definition of RFC 9000, Section 19.3.1.
\<close>

subsection \<open>ACK ranges\<close>

text \<open>
  RFC 9000, Section 19.3.1: the largest packet of a range is the smallest of the one before, minus the gap,
  minus two; a number below zero is an error.
\<close>

fun rfc_ranges :: "nat \<Rightarrow> ack_range list \<Rightarrow> (nat \<times> nat) list option" where
  "rfc_ranges smallest [] = Some []"
| "rfc_ranges smallest (r # rs) =
     (if smallest < ar_gap r + 2 \<or> smallest - ar_gap r - 2 < ar_range r then None
      else (let largest = smallest - ar_gap r - 2
            in map_option ((#) (largest - ar_range r, largest)) (rfc_ranges (largest - ar_range r) rs)))"

definition rfc_ack_ranges :: "nat \<Rightarrow> nat \<Rightarrow> ack_range list \<Rightarrow> (nat \<times> nat) list option" where
  "rfc_ack_ranges largest first rs =
     (if largest < first then None
      else map_option ((#) (largest - first, largest)) (rfc_ranges (largest - first) rs))"

text \<open>What the loop computes: it also takes packet 0 on its own right below a range that ends at 1.\<close>

fun loop_ranges :: "nat \<Rightarrow> ack_range list \<Rightarrow> (nat \<times> nat) list option" where
  "loop_ranges smallest [] = Some []"
| "loop_ranges smallest (r # rs) =
     (if smallest = 1 \<and> r = \<lparr>ar_gap = 0, ar_range = 0\<rparr> \<and> rs = [] then Some [(0, 0)]
      else if smallest < ar_gap r + 2 \<or> smallest - ar_gap r - 2 < ar_range r then None
      else (let largest = smallest - ar_gap r - 2
            in map_option ((#) (largest - ar_range r, largest)) (loop_ranges (largest - ar_range r) rs)))"

lemma decode_ack_loop_zero:
  "decode_ack_loop 0 rs acked = (if rs = [] then Ok acked else Err FrameEncoding)"
  if "list_all valid_range rs"
proof (cases rs)
  case (Cons r rs')
  then have "u64_add (ar_gap r) 1 = ar_gap r + 1"
    using that by (intro u64_add_eq) (simp add: valid_range_def MAX_VARINT_def)
  then show ?thesis
    using Cons by simp
qed simp

lemma decode_ack_loop_eq:
  assumes "s < 2 ^ 62" "list_all valid_range rs"
  shows "decode_ack_loop (if 1 < s then s - 1 else s) rs acked
    = (case loop_ranges s rs of None \<Rightarrow> Err FrameEncoding | Some xs \<Rightarrow> Ok (acked @ xs))"
  using assms
proof (induction rs arbitrary: s acked)
  case Nil
  then show ?case by simp
next
  case (Cons r rs)
  then have r: "ar_gap r < 2 ^ 62" "ar_range r < 2 ^ 62" and s: "s < 2 ^ 62"
    by (simp_all add: valid_range_def MAX_VARINT_def)
  then have adds: "u64_add (ar_gap r) 1 = ar_gap r + 1" "u64_add (ar_range r) 1 = ar_range r + 1"
    by (simp_all add: u64_add_eq)
  have subs: "u64_sub a b = a - b" if "b \<le> a" "a \<le> s" for a b
    using that s by (intro u64_sub_eq) simp_all
  consider "s = 0" | "s = 1" | "1 < s" by linarith
  then show ?case
  proof cases
    case 1
    then show ?thesis
      using Cons.prems(2) decode_ack_loop_zero [of "r # rs" acked] by simp
  next
    case 2
    have "r = \<lparr>ar_gap = 0, ar_range = 0\<rparr> \<longleftrightarrow> ar_gap r = 0 \<and> ar_range r = 0"
      by (cases r) simp
    then show ?thesis
      using 2 adds subs [of 0 1] subs [of 1 1] subs [of 0 0] decode_ack_loop_zero [of rs] Cons.prems(2)
      by (auto simp: Let_def)
  next
    case 3
    define c where "c = s - ar_gap r - 2"
    show ?thesis
    proof (cases "s < ar_gap r + 2 \<or> c < ar_range r")
      case True
      then show ?thesis
        using 3 adds subs [of "ar_gap r" "s - 1"] subs [of 1 "s - 1 - ar_gap r"]
        by (auto simp: Let_def c_def)
    next
      case False
      then have c: "u64_sub (u64_sub (s - 1) (ar_gap r)) 1 = c" "\<not> s - 1 < ar_gap r + 1" "\<not> c < ar_range r"
        "u64_sub c (ar_range r) = c - ar_range r"
        using 3 subs [of "ar_gap r" "s - 1"] subs [of 1 "s - 1 - ar_gap r"] subs [of "ar_range r" c]
        by (auto simp: c_def)
      have "(if ar_range r + 1 < c then u64_sub c (ar_range r + 1) else c - ar_range r)
          = (if 1 < c - ar_range r then c - ar_range r - 1 else c - ar_range r)"
        using c(3) subs [of "ar_range r + 1" c] by (auto simp: c_def)
      then have "decode_ack_loop (s - 1) (r # rs) acked
          = decode_ack_loop (if 1 < c - ar_range r then c - ar_range r - 1 else c - ar_range r) rs
              (acked @ [(c - ar_range r, c)])"
        using c(2,3) by (simp only: decode_ack_loop.simps Let_def adds c(1,4) if_False)
      also have "\<dots> = (case loop_ranges (c - ar_range r) rs of None \<Rightarrow> Err FrameEncoding
          | Some xs \<Rightarrow> Ok ((acked @ [(c - ar_range r, c)]) @ xs))"
        using Cons.prems s by (intro Cons.IH) (auto simp: c_def)
      finally have "decode_ack_loop (s - 1) (r # rs) acked = \<dots>" .
      moreover have "loop_ranges s (r # rs) = map_option ((#) (c - ar_range r, c)) (loop_ranges (c - ar_range r) rs)"
        using 3 False by (simp add: Let_def c_def)
      ultimately show ?thesis
        using 3 by (simp del: decode_ack_loop.simps loop_ranges.simps split: option.split)
    qed
  qed
qed

definition extra_zero :: "nat \<Rightarrow> ack_range list \<Rightarrow> (nat \<times> nat) list \<Rightarrow> bool" where
  "extra_zero s rs xs \<longleftrightarrow>
     (\<exists>rs' ys. rs = rs' @ [\<lparr>ar_gap = 0, ar_range = 0\<rparr>] \<and> rfc_ranges s rs' = Some ys
        \<and> (if ys = [] then s else fst (last ys)) = 1 \<and> xs = ys @ [(0, 0)])"

lemma extra_zero_Nil [simp]: "\<not> extra_zero s [] xs"
  by (simp add: extra_zero_def)

lemma extra_zero_Cons:
  assumes "rfc_ranges s [r] = Some [(a, b)]"
  shows "extra_zero s (r # rs) xs \<longleftrightarrow> (\<exists>zs. xs = (a, b) # zs \<and> extra_zero a rs zs)"
proof -
  have rec: "rfc_ranges s (r # rs') = map_option ((#) (a, b)) (rfc_ranges a rs')" for rs'
    using assms by (auto simp: Let_def split: if_splits)
  have s: "s \<noteq> 1"
    using assms by auto
  show ?thesis
  proof
    assume "extra_zero s (r # rs) xs"
    then obtain rs' ys where *: "r # rs = rs' @ [\<lparr>ar_gap = 0, ar_range = 0\<rparr>]" "rfc_ranges s rs' = Some ys"
      "(if ys = [] then s else fst (last ys)) = 1" "xs = ys @ [(0, 0)]"
      unfolding extra_zero_def by blast
    then obtain rs'' where rs': "rs' = r # rs''" "rs = rs'' @ [\<lparr>ar_gap = 0, ar_range = 0\<rparr>]"
      using s by (cases rs') auto
    then obtain zs where "ys = (a, b) # zs" "rfc_ranges a rs'' = Some zs"
      using *(2) unfolding rs'(1) rec by (auto simp del: rfc_ranges.simps)
    then show "\<exists>zs. xs = (a, b) # zs \<and> extra_zero a rs zs"
      using * rs' unfolding extra_zero_def by (intro exI [of _ "zs @ [(0, 0)]"]) (auto split: if_splits)
  next
    assume "\<exists>zs. xs = (a, b) # zs \<and> extra_zero a rs zs"
    then obtain rs' ys where "rs = rs' @ [\<lparr>ar_gap = 0, ar_range = 0\<rparr>]" "rfc_ranges a rs' = Some ys"
      "(if ys = [] then a else fst (last ys)) = 1" "xs = (a, b) # ys @ [(0, 0)]"
      unfolding extra_zero_def by blast
    then show "extra_zero s (r # rs) xs"
      unfolding extra_zero_def
      by (intro exI [of _ "r # rs'"] exI [of _ "(a, b) # ys"]) (auto simp: rec simp del: rfc_ranges.simps split: if_splits)
  qed
qed

lemma loop_ranges_eq: "loop_ranges s rs = Some xs \<longleftrightarrow> rfc_ranges s rs = Some xs \<or> extra_zero s rs xs"
proof (induction rs arbitrary: s xs)
  case Nil
  then show ?case by auto
next
  case (Cons r rs)
  show ?case
  proof (cases "rfc_ranges s [r]")
    case None
    then have none: "rfc_ranges s (r # rs') = None" for rs'
      by (auto simp: Let_def split: if_splits)
    have "extra_zero s (r # rs) xs
        \<longleftrightarrow> s = 1 \<and> r = \<lparr>ar_gap = 0, ar_range = 0\<rparr> \<and> rs = [] \<and> xs = [(0, 0)]" (is "?L \<longleftrightarrow> ?R")
    proof
      assume ?L
      then obtain rs' ys where *: "r # rs = rs' @ [\<lparr>ar_gap = 0, ar_range = 0\<rparr>]" "rfc_ranges s rs' = Some ys"
        "(if ys = [] then s else fst (last ys)) = 1" "xs = ys @ [(0, 0)]"
        unfolding extra_zero_def by blast
      then show ?R
        using none by (cases rs') auto
    next
      assume ?R
      then show ?L
        unfolding extra_zero_def by (intro exI [of _ "[]"]) auto
    qed
    then show ?thesis
      using None none [of rs] by (auto simp: Let_def split: if_splits)
  next
    case (Some ys)
    then obtain a b where ab: "rfc_ranges s [r] = Some [(a, b)]"
      by (auto simp: Let_def split: if_splits)
    then have "rfc_ranges s (r # rs) = map_option ((#) (a, b)) (rfc_ranges a rs)"
      "loop_ranges s (r # rs) = map_option ((#) (a, b)) (loop_ranges a rs)"
      by (auto simp: Let_def split: if_splits)
    then show ?thesis
      using Cons.IH [of a] by (auto simp: extra_zero_Cons [OF ab])
  qed
qed

text \<open>The frame as a whole, by the smallest packet \<open>s\<close> of the first range.\<close>

lemma decode_ack_frame_eq:
  assumes "L \<le> MAX_VARINT" "F \<le> L" "list_all valid_range rs"
  shows "decode_ack_frame L F rs =
    (case (if L - F = 1 then rfc_ranges 1 rs else loop_ranges (L - F) rs) of
       None \<Rightarrow> Err FrameEncoding | Some xs \<Rightarrow> Ok ((L - F, L) # xs))"
proof -
  have sub: "u64_sub a b = a - b" if "b \<le> a" "a \<le> L" for a b
    using that assms(1) by (intro u64_sub_eq) (simp_all add: MAX_VARINT_def)
  have add: "u64_add F 1 = F + 1"
    using assms(1,2) by (intro u64_add_eq) (simp add: MAX_VARINT_def)
  have s: "L - F < 2 ^ 62"
    using assms(1) by (simp add: MAX_VARINT_def)
  have loop: "decode_ack_frame L F rs = decode_ack_loop (L - F - 1) rs [(L - F, L)]" if "rs \<noteq> []" "F < L"
    using that assms(2) sub [of F L] sub [of 1 "L - F"] by (simp add: decode_ack_frame_def add del: One_nat_def)
  consider "rs = []" | (zero) r rs' where "rs = r # rs'" "L = F" | (one) r rs' where "rs = r # rs'" "L - F = 1"
    | (more) "rs \<noteq> []" "1 < L - F"
    using assms(2) by (cases rs) (auto simp: le_less, linarith)
  then show ?thesis
  proof cases
    case 1
    then show ?thesis
      using assms(2) sub [of F L] by (simp add: decode_ack_frame_def)
  next
    case zero
    then show ?thesis
      by (simp add: decode_ack_frame_def add del: One_nat_def)
  next
    case one
    then have "F < L" by linarith
    then show ?thesis
      using one loop decode_ack_loop_zero [OF assms(3)] by simp
  next
    case more
    then have "F < L" "L - F \<noteq> 1" by linarith+
    then show ?thesis
      using more loop decode_ack_loop_eq [OF s assms(3), of "[(L - F, L)]"]
      by (simp split: option.split)
  qed
qed

lemma loop_ranges_ordered:
  "loop_ranges s rs = Some xs \<Longrightarrow>
     sorted_wrt (\<lambda>(a, b) (c, d). d < a) xs \<and> list_all (\<lambda>(a, b). a \<le> b \<and> b < s) xs"
proof (induction rs arbitrary: s xs)
  case Nil
  then show ?case by simp
next
  case (Cons r rs)
  show ?case
  proof (cases "s = 1 \<and> r = \<lparr>ar_gap = 0, ar_range = 0\<rparr> \<and> rs = []")
    case True
    then show ?thesis
      using Cons.prems by auto
  next
    case False
    define c where "c = s - ar_gap r - 2"
    have c: "c < s" "ar_range r \<le> c"
      and "map_option ((#) (c - ar_range r, c)) (loop_ranges (c - ar_range r) rs) = Some xs"
      using Cons.prems False by (auto simp: c_def Let_def split: if_splits)
    then obtain ys where ys: "loop_ranges (c - ar_range r) rs = Some ys" "xs = (c - ar_range r, c) # ys"
      by auto
    have "list_all (\<lambda>(a, b). a \<le> b \<and> b < s) ys"
      using Cons.IH [OF ys(1)] c by (auto simp: list_all_iff)
    then show ?thesis
      using Cons.IH [OF ys(1)] c ys(2) by (auto simp: list_all_iff)
  qed
qed

subsection \<open>Properties\<close>

text \<open>
  C21: The ranges of an ACK frame are expanded as RFC 9000, Section 19.3.1 says, and every other frame is a
  \<open>FRAME_ENCODING_ERROR\<close>, with one exception: after at least two ranges, the last of which starts at packet 1, a
  final range of gap 0 and length 0 is accepted as packet 0, although its number computes to minus one.
\<close>

theorem decode_ack_frame_ranges:
  assumes "L \<le> MAX_VARINT" and "F \<le> MAX_VARINT" and "list_all valid_range rs"
  shows "(decode_ack_frame L F rs = Ok xs \<longleftrightarrow>
      rfc_ack_ranges L F rs = Some xs
      \<or> (\<exists>rs' ys. rs' \<noteq> [] \<and> rs = rs' @ [\<lparr>ar_gap = 0, ar_range = 0\<rparr>]
           \<and> rfc_ack_ranges L F rs' = Some ys \<and> fst (last ys) = 1 \<and> xs = ys @ [(0, 0)]))
    \<and> (decode_ack_frame L F rs = Err FrameEncoding \<or> (\<exists>ys. decode_ack_frame L F rs = Ok ys))"
proof (cases "F \<le> L")
  case False
  then show ?thesis
    by (simp add: decode_ack_frame_def rfc_ack_ranges_def)
next
  case True
  have one: "rfc_ranges 1 (r # rs') = None" for r rs'
    by simp
  have "(\<exists>rs' ys. rs' \<noteq> [] \<and> rs = rs' @ [\<lparr>ar_gap = 0, ar_range = 0\<rparr>] \<and> rfc_ack_ranges L F rs' = Some ys
        \<and> fst (last ys) = 1 \<and> xs = ys @ [(0, 0)])
      \<longleftrightarrow> L - F \<noteq> 1 \<and> (\<exists>zs. xs = (L - F, L) # zs \<and> extra_zero (L - F) rs zs)" (is "?Q \<longleftrightarrow> ?E")
  proof
    assume ?Q
    then obtain rs' zs where "rs' \<noteq> []" "rs = rs' @ [\<lparr>ar_gap = 0, ar_range = 0\<rparr>]" "rfc_ranges (L - F) rs' = Some zs"
      "fst (last ((L - F, L) # zs)) = 1" "xs = (L - F, L) # zs @ [(0, 0)]"
      using True by (auto simp: rfc_ack_ranges_def)
    then show ?E
      using one unfolding extra_zero_def by (cases rs') (auto split: if_splits)
  next
    assume ?E
    then obtain rs' ys where *: "L - F \<noteq> 1" "rs = rs' @ [\<lparr>ar_gap = 0, ar_range = 0\<rparr>]" "rfc_ranges (L - F) rs' = Some ys"
      "(if ys = [] then L - F else fst (last ys)) = 1" "xs = (L - F, L) # ys @ [(0, 0)]"
      unfolding extra_zero_def by blast
    then have "rs' \<noteq> []"
      by (auto split: if_splits)
    then show ?Q
      using * True by (intro exI [of _ rs'] exI [of _ "(L - F, L) # ys"]) (auto simp: rfc_ack_ranges_def split: if_splits)
  qed
  moreover define R where "R = (if L - F = 1 then rfc_ranges 1 rs else loop_ranges (L - F) rs)"
  then have R: "R = Some zs \<longleftrightarrow> rfc_ranges (L - F) rs = Some zs \<or> L - F \<noteq> 1 \<and> extra_zero (L - F) rs zs" for zs
    by (simp add: loop_ranges_eq)
  have dec: "decode_ack_frame L F rs = (case R of None \<Rightarrow> Err FrameEncoding | Some xs \<Rightarrow> Ok ((L - F, L) # xs))"
    unfolding R_def by (rule decode_ack_frame_eq [OF assms(1) True assms(3)])
  moreover have "decode_ack_frame L F rs = Ok xs \<longleftrightarrow> (\<exists>zs. R = Some zs \<and> xs = (L - F, L) # zs)"
    unfolding dec by (auto split: option.splits)
  moreover have "rfc_ack_ranges L F rs = Some xs \<longleftrightarrow> (\<exists>zs. rfc_ranges (L - F) rs = Some zs \<and> xs = (L - F, L) # zs)"
    using True by (auto simp: rfc_ack_ranges_def)
  ultimately show ?thesis
    unfolding R by (auto split: option.split)
qed

theorem decode_ack_frame_ranges_witness:
  "decode_ack_frame 9 2 [\<lparr>ar_gap = 1, ar_range = 3\<rparr>, \<lparr>ar_gap = 0, ar_range = 0\<rparr>] = Ok [(7, 9), (1, 4), (0, 0)]
    \<and> rfc_ack_ranges 9 2 [\<lparr>ar_gap = 1, ar_range = 3\<rparr>, \<lparr>ar_gap = 0, ar_range = 0\<rparr>] = None"
proof -
  have "decode_ack_frame 9 2 ([\<lparr>ar_gap = 1, ar_range = 3\<rparr>] @ [\<lparr>ar_gap = 0, ar_range = 0\<rparr>]) = Ok ([(7, 9), (1, 4)] @ [(0, 0)])"
    using decode_ack_frame_ranges [of 9 2 "[\<lparr>ar_gap = 1, ar_range = 3\<rparr>] @ [\<lparr>ar_gap = 0, ar_range = 0\<rparr>]"
        "[(7, 9), (1, 4)] @ [(0, 0)]"]
    by (force simp: valid_range_def MAX_VARINT_def rfc_ack_ranges_def)
  then show ?thesis
    by (simp add: rfc_ack_ranges_def)
qed

text \<open>
  C22: The ranges \<open>decode_ack_frame\<close> returns are non-empty, lie at or below the largest acknowledged packet, and
  are pairwise disjoint in descending order.
\<close>

theorem decode_ack_frame_ordered:
  assumes "L \<le> MAX_VARINT" and "F \<le> MAX_VARINT" and "list_all valid_range rs"
    and "decode_ack_frame L F rs = Ok xs"
  shows "sorted_wrt (\<lambda>(a, b) (c, d). d < a) xs \<and> list_all (\<lambda>(a, b). a \<le> b \<and> b \<le> L) xs"
proof -
  have FL: "F \<le> L"
    using assms(4) by (auto simp: decode_ack_frame_def split: if_splits)
  obtain ys where xs: "xs = (L - F, L) # ys" and ys: "loop_ranges (L - F) rs = Some ys"
    using assms(4) unfolding decode_ack_frame_eq [OF assms(1) FL assms(3)]
    by (auto simp: loop_ranges_eq split: option.splits if_splits)
  show ?thesis
    using loop_ranges_ordered [OF ys] FL by (auto simp: xs list_all_iff)
qed

theorem decode_ack_frame_ordered_witness:
  "sorted_wrt (\<lambda>(a, b) (c, d). d < a) [(7, 9), (2, 4 :: nat)]
    \<and> list_all (\<lambda>(a, b). a \<le> b \<and> b \<le> 9) [(7, 9), (2, 4 :: nat)]"
proof -
  have "decode_ack_frame 9 2 [\<lparr>ar_gap = 1, ar_range = 2\<rparr>] = Ok [(7, 9), (2, 4)]"
    by (simp add: decode_ack_frame_def u64_add_def u64_sub_def Let_def)
  then show ?thesis
    using decode_ack_frame_ordered [of 9 2 "[\<lparr>ar_gap = 1, ar_range = 2\<rparr>]"]
    by (simp add: valid_range_def MAX_VARINT_def)
qed

end
