(* ===== verification/Ack_Replay.thy ===== *)
theory Ack_Replay
  imports Ack_Tracking Frame_Writer Ack_Frame
begin

text \<open>
  Received packets as a set of packet numbers: the ranges stay disjoint, descending and apart, a packet that was
  accepted is a duplicate ever after, and the ACK frames acknowledge received packets only.
\<close>

subsection \<open>Ranges as sets\<close>

definition range_set :: "packet_range \<Rightarrow> nat set" where
  "range_set r = {pr_smallest r..pr_largest r}"

definition ranges_set :: "packet_range list \<Rightarrow> nat set" where
  "ranges_set rs = \<Union> (range_set ` set rs)"

definition range_ok :: "packet_range \<Rightarrow> bool" where
  "range_ok r \<longleftrightarrow> pr_smallest r \<le> pr_largest r \<and> pr_largest r < 2 ^ 62"

text \<open>Descending, with at least one missing packet between two ranges.\<close>

definition apart :: "packet_range \<Rightarrow> packet_range \<Rightarrow> bool" where
  "apart r r' \<longleftrightarrow> pr_largest r' + 2 \<le> pr_smallest r"

definition ranges_ok :: "packet_range list \<Rightarrow> bool" where
  "ranges_ok rs \<longleftrightarrow> sorted_wrt apart rs \<and> list_all range_ok rs"

named_theorems range_simps

lemmas [range_simps] = range_set_def range_ok_def apart_def range_new_def range_contains_def

lemma ranges_set_simps [simp]:
  "ranges_set [] = {}" "ranges_set (r # rs) = range_set r \<union> ranges_set rs"
  "ranges_set (rs @ rs') = ranges_set rs \<union> ranges_set rs'"
  by (auto simp: ranges_set_def)

lemma ranges_ok_Nil [simp]: "ranges_ok []"
  by (simp add: ranges_ok_def)

lemma ranges_ok_Cons: "ranges_ok (r # rs) \<longleftrightarrow> list_all (apart r) rs \<and> range_ok r \<and> ranges_ok rs"
  by (auto simp: ranges_ok_def list_all_iff)

lemma apart_iff: "list_all range_ok rs \<Longrightarrow> list_all (apart r) rs \<longleftrightarrow> (\<forall>x\<in>ranges_set rs. x + 2 \<le> pr_smallest r)"
  by (induction rs) (fastforce simp: range_simps)+

lemma ranges_ok_Cons_set:
  "ranges_ok (r # rs) \<longleftrightarrow> (\<forall>x\<in>ranges_set rs. x + 2 \<le> pr_smallest r) \<and> range_ok r \<and> ranges_ok rs"
  unfolding ranges_ok_Cons using apart_iff [of rs r] by (auto simp: ranges_ok_def)

lemma range_ok_u64 [u64]:
  "range_ok r \<Longrightarrow> u64_add (pr_largest r) 1 = pr_largest r + 1"
  "range_ok r \<Longrightarrow> u64_add (pr_largest r) (Suc 0) = pr_largest r + 1"
  "range_ok r \<Longrightarrow> u64_add (pr_largest r) 2 = pr_largest r + 2"
  by (simp_all add: range_ok_def u64_add_eq)

lemma range_len_eq [u64]:
  assumes "range_ok r"
  shows "range_len r = pr_largest r - pr_smallest r + 1" "u64_sub (range_len r) 1 = pr_largest r - pr_smallest r"
proof -
  have "u64_add (pr_largest r - pr_smallest r) 1 = pr_largest r - pr_smallest r + 1"
    using assms by (intro u64_add_eq) (simp add: range_ok_def, linarith)
  then show len: "range_len r = pr_largest r - pr_smallest r + 1"
    using assms by (simp add: range_len_def range_ok_def u64_sub_eq)
  show "u64_sub (range_len r) 1 = pr_largest r - pr_smallest r"
    unfolding len using assms by (subst u64_sub_eq) (simp_all add: range_ok_def, linarith)
qed

text \<open>The outcome of adding to one range.\<close>

lemma range_add_cases:
  assumes "range_ok r" "pn < 2 ^ 62" "\<not> range_contains r pn"
  obtains (largest) "pn = pr_largest r + 1" "range_add r pn = Ok (Largest, r\<lparr>pr_largest := pn, pr_ack_needed := True\<rparr>)"
    | (smallest) "pr_smallest r = pn + 1"
        "range_add r pn = Ok (Smallest, r\<lparr>pr_smallest := pn, pr_ack_needed := True\<rparr>)"
    | (larger) "pr_largest r + 2 \<le> pn" "range_add r pn = Ok (NotInserted, r)"
    | (smaller) "pn + 2 \<le> pr_smallest r" "range_add r pn = Ok (NotInserted, r)"
proof -
  have u: "u64_add (pr_largest r) 1 = pr_largest r + 1" "u64_add pn 1 = pn + 1"
    using assms by (simp_all add: range_ok_def u64_add_eq)
  have v: "u64_sub (pr_smallest r) 1 = pr_smallest r - 1" if "pr_smallest r = pn + 1"
    using that assms(2) by (simp add: u64_sub_eq)
  have "pn < pr_smallest r \<or> pr_largest r < pn" "pr_smallest r \<le> pr_largest r"
    using assms by (auto simp: range_simps)
  then consider "pn = pr_largest r + 1" | "pr_smallest r = pn + 1" | "pr_largest r + 2 \<le> pn" | "pn + 2 \<le> pr_smallest r"
    by linarith
  then show ?thesis
    using assms(3) u v \<open>pr_smallest r \<le> pr_largest r\<close> that by cases (auto simp: range_add_def)
qed

lemma rp_add_ok:
  assumes "ranges_ok rs" "pn < 2 ^ 62" "pn \<notin> ranges_set rs"
  shows "\<exists>rs'. rp_add rs pn = Ok rs' \<and> ranges_ok rs' \<and> ranges_set rs' = insert pn (ranges_set rs)
    \<and> rs' \<noteq> [] \<and> length rs' \<le> length rs + 1"
  using assms
proof (induction rs)
  case Nil
  then show ?case
    by (auto simp: ranges_ok_def range_simps)
next
  case (Cons r rs)
  have r: "range_ok r" and rs: "ranges_ok rs" and below: "\<forall>x\<in>ranges_set rs. x + 2 \<le> pr_smallest r"
    and pn: "\<not> range_contains r pn" "pn \<notin> ranges_set rs"
    using Cons.prems by (auto simp: ranges_ok_Cons_set range_simps)
  from r Cons.prems(2) pn(1) show ?case
  proof (cases rule: range_add_cases)
    case largest
    then show ?thesis
      using r rs below Cons.prems(2) by (auto simp: ranges_ok_Cons_set range_simps)
  next
    case larger
    then show ?thesis
      using r rs below Cons.prems(2)
      by (auto simp: ranges_ok_Cons_set range_simps)
  next
    case smaller
    moreover from smaller have "\<not> pr_largest r < pn"
      using r by (simp add: range_ok_def)
    ultimately show ?thesis
      using Cons.IH [OF rs Cons.prems(2) pn(2)] r below by (auto simp: ranges_ok_Cons_set)
  next
    case smallest
    show ?thesis
    proof (cases "\<exists>nxt rs'. rs = nxt # rs' \<and> u64_sub pn 1 = pr_largest nxt")
      case False
      then have "rp_add (r # rs) pn = Ok (r\<lparr>pr_smallest := pn, pr_ack_needed := True\<rparr> # rs)"
        using smallest by (auto split: list.split)
      moreover have "\<forall>x\<in>ranges_set rs. x + 2 \<le> pn"
      proof (cases rs)
        case (Cons nxt rs')
        then have "pr_largest nxt + 2 \<le> pn + 1" "range_ok nxt"
          using rs below smallest(1) by (auto simp: ranges_ok_Cons_set range_simps)
        moreover have "pr_largest nxt + 1 \<noteq> pn"
          using False Cons Cons.prems(2) by (auto simp: u64_sub_eq)
        ultimately show ?thesis
          using rs Cons by (fastforce simp: ranges_ok_Cons_set range_simps)
      qed simp
      ultimately show ?thesis
        using smallest(1) r rs by (auto simp: ranges_ok_Cons_set range_simps)
    next
      case True
      then obtain nxt rs' where nxt: "rs = nxt # rs'" "u64_sub pn 1 = pr_largest nxt" by blast
      have "range_ok nxt"
        using rs nxt by (simp add: ranges_ok_Cons_set)
      moreover have "pn \<noteq> 0"
        using nxt(2) \<open>range_ok nxt\<close> by (cases "pn = 0") (auto simp: u64_sub_def range_ok_def)
      ultimately have pn1: "pr_largest nxt + 1 = pn"
        using nxt(2) Cons.prems(2) by (simp add: u64_sub_eq)
      define m where "m = nxt\<lparr>pr_largest := pr_largest r, pr_ack_needed := True\<rparr>"
      have "merge_larger nxt (r\<lparr>pr_smallest := pn, pr_ack_needed := True\<rparr>) = Ok m"
        using pn1 range_ok_u64(1) [OF \<open>range_ok nxt\<close>] by (simp add: merge_larger_def m_def)
      then have "rp_add (r # rs) pn = Ok (m # rs')"
        using smallest(2) nxt by simp
      moreover have "range_set m = insert pn (range_set r \<union> range_set nxt)" "range_ok m"
        using smallest(1) pn1 r \<open>range_ok nxt\<close> by (auto simp: m_def range_simps)
      moreover have "\<forall>x\<in>ranges_set rs'. x + 2 \<le> pr_smallest m" "ranges_ok rs'"
        using rs nxt(1) by (simp_all add: ranges_ok_Cons_set m_def)
      ultimately show ?thesis
        using nxt(1) by (auto simp: ranges_ok_Cons_set)
    qed
  qed
qed

lemma range_contains_set: "range_contains r pn \<longleftrightarrow> pn \<in> range_set r"
  by (simp add: range_simps)

lemma list_ex_contains:
  "ranges_ok rs \<Longrightarrow> list_ex (\<lambda>r. range_contains r pn) (takeWhile (\<lambda>r. pn \<le> pr_largest r) rs) \<longleftrightarrow> pn \<in> ranges_set rs"
proof (induction rs)
  case (Cons r rs)
  then show ?case
    by (auto simp: ranges_ok_Cons_set range_contains_set range_set_def) (fastforce simp: range_ok_def)+
qed simp

subsection \<open>The state of one packet number space\<close>

text \<open>The packets that count as duplicates.\<close>

definition seen :: "recvd_packets \<Rightarrow> nat set" where
  "seen s = {..<min_tracked s} \<union> ranges_set (rp_ranges s)"

definition recvd_inv :: "recvd_packets \<Rightarrow> bool" where
  "recvd_inv s \<longleftrightarrow> ranges_ok (rp_ranges s) \<and> length (rp_ranges s) \<le> MAX_TRACKED_RANGES
     \<and> (\<forall>x\<in>ranges_set (rp_ranges s). min_tracked s \<le> x) \<and> (rp_ranges s \<noteq> [] \<longrightarrow> largest_pn_time s \<noteq> None)"

lemma is_duplicate_seen: "recvd_inv s \<Longrightarrow> is_duplicate s pn \<longleftrightarrow> pn \<in> seen s"
  using list_ex_contains [of "rp_ranges s" pn] by (auto simp: recvd_inv_def is_duplicate_def seen_def)

lemma ranges_ok_hd:
  assumes "ranges_ok rs" "rs \<noteq> []"
  shows "pr_largest (hd rs) \<in> ranges_set rs" "x \<in> ranges_set rs \<Longrightarrow> x \<le> pr_largest (hd rs)"
  using assms by (cases rs; force simp: ranges_ok_Cons_set range_simps)+

lemma ranges_ok_append:
  "ranges_ok (rs @ [r]) \<longleftrightarrow> ranges_ok rs \<and> range_ok r \<and> list_all (\<lambda>r'. apart r' r) rs"
  by (auto simp: ranges_ok_def sorted_wrt_append list_all_iff)

lemma apart_above: "list_all range_ok rs \<Longrightarrow> list_all (\<lambda>r'. apart r' r) rs \<Longrightarrow> x \<in> ranges_set rs \<Longrightarrow> pr_largest r + 2 \<le> x"
  by (auto simp: ranges_set_def list_all_iff range_simps)

text \<open>Trimming forgets the lowest range, whose packets stay duplicates.\<close>

lemma trim_ranges_ok:
  assumes "ranges_ok rs" "rs \<noteq> []" "length rs \<le> MAX_TRACKED_RANGES + 1" "rp_ranges s = rs"
    and "\<forall>x\<in>ranges_set rs. min_tracked s \<le> x" "largest_pn_time s \<noteq> None"
  shows "recvd_inv (trim_ranges s) \<and> seen s \<subseteq> seen (trim_ranges s)
    \<and> ranges_set (rp_ranges (trim_ranges s)) \<subseteq> ranges_set rs
    \<and> rp_ranges (trim_ranges s) \<noteq> [] \<and> hd (rp_ranges (trim_ranges s)) = hd rs"
proof (cases "MAX_TRACKED_RANGES < length rs")
  case False
  then show ?thesis
    using assms by (simp add: trim_ranges_def recvd_inv_def)
next
  case True
  define r where "r = last rs"
  have rs: "rs = butlast rs @ [r]"
    using assms(2) by (simp add: r_def)
  have len: "length (butlast rs) = MAX_TRACKED_RANGES"
    using True assms(3) by simp
  then have ne: "butlast rs \<noteq> []"
    using list.size(3) by (force simp: MAX_TRACKED_RANGES_def simp del: length_butlast)
  have ok: "ranges_ok (butlast rs)" "range_ok r" "list_all (\<lambda>r'. apart r' r) (butlast rs)"
    using assms(1) by (subst (asm) rs, simp add: ranges_ok_append)+
  have above: "pr_largest r + 2 \<le> x" if "x \<in> ranges_set (butlast rs)" for x
    using ok that apart_above by (auto simp: ranges_ok_def)
  have "ranges_set rs = ranges_set (butlast rs) \<union> range_set r"
    by (subst rs) simp
  moreover have "min_tracked s \<le> pr_largest r"
    using assms(5) ok(2) calculation by (auto simp: range_simps)
  moreover have "hd (butlast rs) = hd rs"
    using ne by (subst (2) rs) simp
  moreover have "trim_ranges s = s\<lparr>rp_ranges := butlast rs, min_tracked := pr_largest r + 1\<rparr>"
    using True assms(4) ok(2) by (simp add: trim_ranges_def r_def range_ok_u64)
  moreover have "\<forall>x\<in>ranges_set (butlast rs). pr_largest r + 1 \<le> x"
    using above by fastforce
  ultimately show ?thesis
    using assms(4,6) ok(1) len ne by (auto simp: recvd_inv_def seen_def range_set_def simp del: length_butlast)
qed

definition range_bounds :: "packet_range \<Rightarrow> nat \<times> nat" where
  "range_bounds r = (pr_smallest r, pr_largest r)"

lemma rp_acknowledged_bounds: "map range_bounds (rp_acknowledged acked rs) = map range_bounds rs"
proof (induction acked rs rule: rp_acknowledged.induct)
  case (3 ack acks cur rs)
  then show ?case
    by (cases rs) (auto simp: range_acknowledged_def range_bounds_def)
qed auto

lemma bounds_ranges:
  assumes "map range_bounds rs = map range_bounds rs'"
  shows "ranges_ok rs = ranges_ok rs'" "ranges_set rs = ranges_set rs'" "length rs = length rs'"
    "rs = [] \<longleftrightarrow> rs' = []" "rs \<noteq> [] \<Longrightarrow> pr_largest (hd rs) = pr_largest (hd rs')"
proof -
  have "list_all2 (\<lambda>r r'. range_bounds r = range_bounds r') rs rs'"
    using assms by (simp add: list_all2_conv_all_nth list_eq_iff_nth_eq)
  then show "ranges_ok rs = ranges_ok rs'" "ranges_set rs = ranges_set rs'"
  proof (induction rule: list_all2_induct)
    case (Cons r rs r' rs')
    { case 1 then show ?case using Cons by (simp add: ranges_ok_Cons_set range_bounds_def range_ok_def) }
    { case 2 then show ?case using Cons by (simp add: range_bounds_def range_set_def) }
  qed simp_all
  show len: "length rs = length rs'"
    using assms map_eq_imp_length_eq by blast
  then show "rs = [] \<longleftrightarrow> rs' = []" by auto
  then show "pr_largest (hd rs) = pr_largest (hd rs')" if "rs \<noteq> []"
    using assms that by (cases rs; cases rs') (auto simp: range_bounds_def)
qed

subsection \<open>Histories\<close>

text \<open>
  What happens to one packet number space: \<open>pns\<close> are the packets accepted so far. A packet is added only when it is not a
  duplicate (\<open>Connection::input_path\<close> tests this first); packet numbers are below \<open>2 ^ 62\<close>.
\<close>

inductive receives :: "'b Buffer \<Rightarrow> pn_space \<Rightarrow> nat list \<Rightarrow> recvd_packets \<Rightarrow> bool" for B space where
  start: "receives B space [] (recvd_packets_new space)"
| accept: "receives B space pns s \<Longrightarrow> \<not> is_duplicate s pn \<Longrightarrow> pn < 2 ^ 62 \<Longrightarrow>
    set_received s now pn eliciting = Ok (largest, s') \<Longrightarrow> receives B space (pns @ [pn]) s'"
| acked: "receives B space pns s \<Longrightarrow> acknowledged s ranges = Ok s' \<Longrightarrow> receives B space pns s'"
| ping: "receives B space pns s \<Longrightarrow> receives B space pns (rp_immediate_ack s now)"
| ack_freq: "receives B space pns s \<Longrightarrow> receives B space pns (rp_ack_freq s seqno tol delay ignore)"
| ecn_marks: "receives B space pns s \<Longrightarrow> receives B space pns (s\<lparr>rp_ecn_count := c\<rparr>)"
| write_frame: "receives B space pns s \<Longrightarrow> rp_write_frame B s now rtt b ts = Ok (s', b', ts') \<Longrightarrow> receives B space pns s'"

text \<open>\<open>s\<close> tracks the packets \<open>pns\<close>.\<close>

definition tracks :: "nat list \<Rightarrow> recvd_packets \<Rightarrow> bool" where
  "tracks pns s \<longleftrightarrow> recvd_inv s \<and> distinct pns \<and> set pns \<subseteq> seen s \<and> ranges_set (rp_ranges s) \<subseteq> set pns
     \<and> (if pns = [] then rp_ranges s = [] else rp_ranges s \<noteq> [] \<and> (\<forall>x\<in>set pns. x \<le> pr_largest (hd (rp_ranges s))))"

lemma tracks_same:
  assumes "tracks pns s" "map range_bounds (rp_ranges s') = map range_bounds (rp_ranges s)"
    "min_tracked s' = min_tracked s" "largest_pn_time s' = largest_pn_time s"
  shows "tracks pns s'"
proof -
  note b = bounds_ranges [OF assms(2)]
  show ?thesis
    using assms(1,3,4) b by (auto simp: tracks_def recvd_inv_def seen_def split: if_splits)
qed

lemma note_eliciting_simps [simp]:
  "rp_ranges (note_eliciting s now pn nxt) = rp_ranges s" "min_tracked (note_eliciting s now pn nxt) = min_tracked s"
  "largest_pn_time (note_eliciting s now pn nxt) = largest_pn_time s"
  by (simp_all add: note_eliciting_def Let_def)

lemma rp_write_frame_state:
  assumes "rp_write_frame B s now rtt b ts = Ok (s', b', ts')"
  shows "rp_ranges s' = rp_ranges s \<and> min_tracked s' = min_tracked s \<and> largest_pn_time s' = largest_pn_time s"
  using assms unfolding rp_write_frame_def
  by (auto simp: bind_res_Ok_iff Let_def split: if_splits list.splits option.splits)

text \<open>A packet that is no duplicate is recorded; whether it is the largest so far is the result.\<close>

lemma set_received_ok:
  assumes t: "tracks pns s" and new: "\<not> is_duplicate s pn" "pn < 2 ^ 62"
  shows "\<exists>s'. set_received s now pn eliciting = Ok (list_all (\<lambda>q. q < pn) pns, s') \<and> tracks (pns @ [pn]) s'"
proof -
  have inv: "recvd_inv s" and ok: "ranges_ok (rp_ranges s)"
    using t by (simp_all add: tracks_def recvd_inv_def)
  have pn: "pn \<notin> seen s"
    using new inv by (simp add: is_duplicate_seen)
  then have fresh: "pn \<notin> set pns" "pn \<notin> ranges_set (rp_ranges s)" "min_tracked s \<le> pn"
    using t by (auto simp: tracks_def seen_def)
  then obtain rs where rs: "rp_add (rp_ranges s) pn = Ok rs" "ranges_ok rs"
    "ranges_set rs = insert pn (ranges_set (rp_ranges s))" "rs \<noteq> []" "length rs \<le> length (rp_ranges s) + 1"
    using rp_add_ok [OF ok new(2)] by blast
  define nxt where "nxt = (case rp_ranges s of [] \<Rightarrow> 0 | r # _ \<Rightarrow> u64_add (pr_largest r) 1)"
  have nxt: "nxt \<le> pn \<longleftrightarrow> (\<forall>q\<in>set pns. q < pn)"
  proof (cases "rp_ranges s")
    case (Cons r rs')
    have "range_ok r"
      using ok Cons by (simp add: ranges_ok_Cons)
    moreover have "pr_largest r \<in> ranges_set (rp_ranges s)"
      using ranges_ok_hd(1) [OF ok] Cons by simp
    ultimately show ?thesis
      using t Cons by (fastforce simp: nxt_def tracks_def range_ok_u64 split: if_splits)
  qed (use t in \<open>auto simp: nxt_def tracks_def split: if_splits\<close>)
  have time: "largest_pn_time s \<noteq> None \<or> nxt \<le> pn"
    using t nxt by (cases "rp_ranges s") (auto simp: nxt_def tracks_def recvd_inv_def)
  define s0 where "s0 = (if nxt \<le> pn then s\<lparr>rp_ranges := rs, largest_pn_time := Some now\<rparr> else s\<lparr>rp_ranges := rs\<rparr>)"
  have s0: "trim_ranges s0 = (if nxt \<le> pn then (trim_ranges (s\<lparr>rp_ranges := rs\<rparr>))\<lparr>largest_pn_time := Some now\<rparr>
      else trim_ranges (s\<lparr>rp_ranges := rs\<rparr>))" "rp_ranges s0 = rs" "min_tracked s0 = min_tracked s" "largest_pn_time s0 \<noteq> None"
    using time by (auto simp: s0_def trim_ranges_def)
  have trim: "recvd_inv (trim_ranges s0)" "seen s0 \<subseteq> seen (trim_ranges s0)" "ranges_set (rp_ranges (trim_ranges s0)) \<subseteq> ranges_set rs"
    "rp_ranges (trim_ranges s0) \<noteq> []" "hd (rp_ranges (trim_ranges s0)) = hd rs"
    using trim_ranges_ok [OF rs(2,4) _ s0(2)] rs(3,5) s0(3,4) fresh(3) inv by (auto simp: recvd_inv_def)
  have "\<forall>x\<in>set (pns @ [pn]). x \<le> pr_largest (hd rs)"
    using t rs(3) ranges_ok_hd(2) [OF rs(2,4)] ranges_ok_hd(1) [OF ok]
    by (fastforce simp: tracks_def split: if_splits)
  then have "tracks (pns @ [pn]) (trim_ranges s0)"
    using t trim fresh(1) rs(3) s0(2,3) by (auto simp: tracks_def seen_def)
  then show ?thesis
    unfolding set_received_def Let_def nxt_def [symmetric] rs(1) bind_res.simps
    using s0(1) nxt by (auto simp: list_all_iff elim!: tracks_same split: if_splits)
qed

lemma receives_tracks: "receives B space pns s \<Longrightarrow> tracks pns s"
proof (induction rule: receives.induct)
  case start
  then show ?case
    by (simp add: tracks_def recvd_inv_def recvd_packets_new_def seen_def)
next
  case (accept pns s pn now eliciting largest s')
  then show ?case
    using set_received_ok [of pns s pn now eliciting] by auto
next
  case (acked pns s ranges s')
  then show ?case
    by (auto simp: acknowledged_def intro!: tracks_same [of pns s] rp_acknowledged_bounds)
next
  case (write_frame pns s now rtt b ts s' b' ts')
  then show ?case
    using rp_write_frame_state [OF write_frame(2)] by (auto intro!: tracks_same [of pns s])
qed (auto simp: rp_immediate_ack_def rp_ack_freq_def elim!: tracks_same)

subsection \<open>The ACK frame\<close>

text \<open>The gaps and lengths of the ranges below packet \<open>s\<close>.\<close>

fun ack_ranges_of :: "nat \<Rightarrow> packet_range list \<Rightarrow> ack_range list" where
  "ack_ranges_of s [] = []"
| "ack_ranges_of s (r # rs) =
     \<lparr>ar_gap = s - pr_largest r - 2, ar_range = pr_largest r - pr_smallest r\<rparr> # ack_ranges_of (pr_smallest r) rs"

lemma length_ack_ranges_of [simp]: "length (ack_ranges_of s rs) = length rs"
  by (induction rs arbitrary: s) simp_all

lemma valid_ack_ranges_of: "s < 2 ^ 62 \<Longrightarrow> list_all range_ok rs \<Longrightarrow> list_all valid_range (ack_ranges_of s rs)"
proof (induction rs arbitrary: s)
  case (Cons r rs)
  then have "pr_smallest r < 2 ^ 62" "s - pr_largest r - 2 \<le> MAX_VARINT" "pr_largest r - pr_smallest r \<le> MAX_VARINT"
    by (auto simp: range_ok_def MAX_VARINT_def)
  then show ?case
    using Cons by (simp add: valid_range_def)
qed simp

lemma loop_ranges_of:
  "ranges_ok (r # rs) \<Longrightarrow> loop_ranges (pr_smallest r) (ack_ranges_of (pr_smallest r) rs) = Some (map range_bounds rs)"
proof (induction rs arbitrary: r)
  case (Cons r' rs)
  then have "pr_largest r' + 2 \<le> pr_smallest r" "pr_smallest r' \<le> pr_largest r'" "ranges_ok (r' # rs)"
    by (auto simp: ranges_ok_Cons apart_def range_ok_def)
  moreover from this have "pr_smallest r - (pr_smallest r - pr_largest r' - 2) - 2 = pr_largest r'"
    by linarith
  ultimately show ?case
    using Cons.IH [of r'] by (simp add: range_bounds_def Let_def, linarith)
qed simp

text \<open>A peer that parses the frame finds exactly the ranges.\<close>

lemma decode_ack_ranges_of:
  assumes "ranges_ok (r # rs)"
  shows "decode_ack_frame (pr_largest r) (pr_largest r - pr_smallest r) (ack_ranges_of (pr_smallest r) rs)
    = Ok (map range_bounds (r # rs))"
proof -
  have r: "range_ok r" "list_all range_ok rs"
    using assms by (auto simp: ranges_ok_def)
  have s: "pr_largest r - (pr_largest r - pr_smallest r) = pr_smallest r" "pr_smallest r < 2 ^ 62" "pr_largest r \<le> MAX_VARINT"
    using r(1) by (auto simp: range_ok_def MAX_VARINT_def)
  have one: "rs = []" if "pr_smallest r = 1"
    using that assms by (cases rs) (auto simp: ranges_ok_Cons apart_def)
  have "decode_ack_frame (pr_largest r) (pr_largest r - pr_smallest r) (ack_ranges_of (pr_smallest r) rs) =
    (case (if pr_smallest r = 1 then rfc_ranges 1 (ack_ranges_of (pr_smallest r) rs)
           else loop_ranges (pr_smallest r) (ack_ranges_of (pr_smallest r) rs)) of
       None \<Rightarrow> Err FrameEncoding | Some xs \<Rightarrow> Ok ((pr_smallest r, pr_largest r) # xs))"
    by (rule decode_ack_frame_eq [OF s(3) diff_le_self [of _ "pr_smallest r"] valid_ack_ranges_of [OF s(2) r(2)], unfolded s(1)])
  also have "\<dots> = Ok (map range_bounds (r # rs))"
    using one loop_ranges_of [OF assms] by (auto simp: range_bounds_def)
  finally show ?thesis .
qed

lemma ranges_ok_filter: "ranges_ok rs \<Longrightarrow> ranges_ok (filter P rs)"
  by (auto simp: ranges_ok_def list_all_iff intro: sorted_wrt_filter)

lemma ranges_ok_take: "ranges_ok rs \<Longrightarrow> ranges_ok (take n rs)"
  by (auto simp: ranges_ok_def list_all_iff dest: in_set_takeD intro: sorted_wrt_take)

context lawful_buffer
begin

lemma appended_position: "wf_enc e \<Longrightarrow> appended e data e' \<Longrightarrow> position B (ebuf e') = position B (ebuf e) + length data"
  by (auto simp: appended_def wf_enc_def position_eq)

lemma overwrite_appended:
  assumes "wf_enc e" "appended e (xs @ old @ ys) e'" "length new = length old"
    and "rsv = position B (ebuf e) + length xs"
  shows "\<exists>e''. overwrite B e' rsv new = Ok e'' \<and> appended e (xs @ new @ ys) e''"
proof -
  have e': "wf_enc e'" "estart e' = estart e"
    using assms(2) by (simp_all add: appended_def)
  have pos: "position B (ebuf e) = length (as_slice B (ebuf e))"
    using assms(1) by (simp add: wf_enc_def position_eq)
  have "estart e' \<le> rsv" "rsv + length new \<le> position B (ebuf e')"
    using appended_position [OF assms(1,2)] assms(1,3,4) e' by (auto simp: wf_enc_def)
  then obtain e'' where e'': "overwrite B e' rsv new = Ok e''" "wf_enc e''" "estart e'' = estart e'"
    "room (ebuf e'') = room (ebuf e')" "as_slice B (ebuf e'') = copy_slice (as_slice B (ebuf e')) rsv new"
    using overwrite_ok [OF e'(1)] by blast
  moreover have "copy_slice (as_slice B (ebuf e')) rsv new = as_slice B (ebuf e) @ xs @ new @ ys"
    using assms(2-4) pos by (simp add: appended_def copy_slice_def)
  ultimately show ?thesis
    using assms(2,3) e'(2) by (auto simp: appended_def)
qed

lemma encode_range_loop_ok:
  assumes "ranges_ok (r # rs)" "wf_enc e" "enc_len B e \<le> bound" "room (ebuf e) (bound - enc_len B e)"
  shows "\<exists>k e'. encode_range_loop B bound rs (pr_smallest r) acked e = Ok (acked @ take k rs, e')
    \<and> appended e (concat (map ack_range_bytes (ack_ranges_of (pr_smallest r) (take k rs)))) e' \<and> enc_len B e' \<le> bound"
  using assms
proof (induction rs arbitrary: r acked e)
  case Nil
  then show ?case
    by (auto simp: appended_def)
next
  case (Cons r' rs)
  show ?case
  proof (cases "bound < enc_len B e + ASSUMED_ACK_RANGE_LEN")
    case True
    then show ?thesis
      using Cons.prems by (intro exI [of _ 0] exI [of _ e]) (simp add: appended_def)
  next
    case False
    have r': "range_ok r'" "ranges_ok (r' # rs)" and gap: "pr_largest r' + 2 \<le> pr_smallest r" "pr_smallest r < 2 ^ 62"
      using Cons.prems(1) by (auto simp: ranges_ok_Cons apart_def range_ok_def)
    let ?g = "pr_smallest r - pr_largest r' - 2" and ?l = "pr_largest r' - pr_smallest r'"
    have g: "u64_sub (u64_sub (pr_smallest r) (pr_largest r')) 2 = ?g"
      using gap by (simp add: u64_sub_eq)
    have small: "list_all (\<lambda>v. v < 2 ^ 62) [?g, ?l]"
      using gap(2) r'(1) by (auto simp: range_ok_def)
    have len: "length (varints_bytes [?g, ?l]) \<le> 16"
      by (simp add: varint_size_def)
    then have "room (ebuf e) (length (varints_bytes [?g, ?l]))"
      using False by (intro room_mono [OF Cons.prems(4)]) (simp add: ASSUMED_ACK_RANGE_LEN_def)
    then obtain e1 where e1: "encode_varints B [?g, ?l] e = Ok e1" "appended e (varints_bytes [?g, ?l]) e1"
      using encode_varints_ok [OF Cons.prems(2) small] by blast
    have l1: "enc_len B e1 = enc_len B e + length (varints_bytes [?g, ?l])"
      by (rule enc_len_appended [OF Cons.prems(2) e1(2)])
    then have l1': "enc_len B e1 \<le> bound"
      using len False by (simp add: ASSUMED_ACK_RANGE_LEN_def)
    have "bound - enc_len B e = length (varints_bytes [?g, ?l]) + (bound - enc_len B e1)"
      using l1 l1' by linarith
    then have "room (ebuf e1) (bound - enc_len B e1)"
      using Cons.prems(4) e1(2) by (simp add: appended_def)
    then obtain k e2 where e2:
      "encode_range_loop B bound rs (pr_smallest r') (acked @ [r']) e1 = Ok ((acked @ [r']) @ take k rs, e2)"
      "appended e1 (concat (map ack_range_bytes (ack_ranges_of (pr_smallest r') (take k rs)))) e2" "enc_len B e2 \<le> bound"
      using Cons.IH [OF r'(2) appended_wf [OF e1(2)] l1'] by blast
    have "encode_range_loop B bound (r' # rs) (pr_smallest r) acked e = Ok (acked @ take (Suc k) (r' # rs), e2)"
      using False e1(1) e2(1) gap(1)
      by (auto simp: g range_ok_u64 [OF r'(1)] range_len_eq(2) [OF r'(1)] bind_res_Ok_iff simp del: One_nat_def)
    moreover have "appended e (concat (map ack_range_bytes (ack_ranges_of (pr_smallest r) (take (Suc k) (r' # rs))))) e2"
      using appended_trans [OF e1(2) e2(2)] by (simp add: ack_range_bytes_def)
    ultimately show ?thesis
      using e2(3) by blast
  qed
qed

lemma encode_ack_fixed_ok:
  assumes "wf_enc e" "range_ok first" "delay < 2 ^ 62"
    and room: "room (ebuf e) (length (varints_bytes [pr_largest first, delay, pr_largest first - pr_smallest first]) + 1)"
  shows "\<exists>e'. encode_ack_fixed B e first delay = Ok (position B (ebuf e) + length (varints_bytes [pr_largest first, delay]), e')
    \<and> appended e (varints_bytes [pr_largest first, delay] @ [0] @ varint_bytes (pr_largest first - pr_smallest first)) e'"
proof -
  let ?A = "varints_bytes [pr_largest first, delay]" and ?F = "varint_bytes (pr_largest first - pr_smallest first)"
  have small: "list_all (\<lambda>v. v < 2 ^ 62) [pr_largest first, delay]"
    "list_all (\<lambda>v. v < 2 ^ 62) [pr_largest first - pr_smallest first]"
    using assms(2,3) by (auto simp: range_ok_def)
  have room': "room (ebuf e) n" if "n \<le> length (?A @ [0] @ ?F)" for n
    using that by (intro room_mono [OF room]) simp
  obtain e1 where e1: "encode_varints B [pr_largest first, delay] e = Ok e1" "appended e ?A e1"
    using encode_varints_ok [OF assms(1) small(1)] room' by force
  obtain e2 where e2: "reserve B e1 1 = Ok (position B (ebuf e1), e2)" "appended e1 [0] e2"
    using reserve_ok [of e1 1] appended_wf [OF e1(2)] e1(2) room' by (force simp: appended_def)
  have a2: "appended e (?A @ [0]) e2"
    by (rule appended_trans [OF e1(2) e2(2)])
  obtain e3 where e3: "encode_varints B [pr_largest first - pr_smallest first] e2 = Ok e3" "appended e2 ?F e3"
    using encode_varints_ok [OF appended_wf [OF e2(2)] small(2)] a2 room' by (force simp: appended_def)
  have "appended e (?A @ [0] @ ?F) e3"
    using appended_trans [OF a2 e3(2)] by simp
  moreover have "encode_ack_fixed B e first delay = Ok (position B (ebuf e) + length ?A, e3)"
    using e1(1) e2(1) e3(1) appended_position [OF assms(1) e1(2)]
    by (auto simp: encode_ack_fixed_def bind_res_Ok_iff range_len_eq(2) [OF assms(2)] simp del: One_nat_def)
  ultimately show ?thesis by blast
qed

lemma encode_ack_ranges_ok:
  assumes ok: "ranges_ok (first # pending)" and wf: "wf_enc e" and a: "appended e (xs @ [0] @ ys) e3"
    and rsv: "rsv = position B (ebuf e) + length xs" and room: "room (ebuf e3) space"
  shows "\<exists>k e'. encode_ack_ranges B pending e3 first rsv space = Ok (first # take k pending, e') \<and> k \<le> MAX_EXTRA_ACK_RANGES
    \<and> appended e (xs @ varint_bytes (length (take k pending)) @ ys
        @ concat (map ack_range_bytes (ack_ranges_of (pr_smallest first) (take k pending)))) e'
    \<and> length (concat (map ack_range_bytes (ack_ranges_of (pr_smallest first) (take k pending)))) \<le> space"
proof -
  define budget where "budget = min RANGE_FRAME_SPACE space"
  have okt: "ranges_ok (first # take MAX_EXTRA_ACK_RANGES pending)"
    using ranges_ok_take [OF ok, of "Suc MAX_EXTRA_ACK_RANGES"] by simp
  have "room (ebuf e3) budget"
    by (rule room_mono [OF room]) (simp add: budget_def)
  then obtain k0 e4 where e4:
    "encode_range_loop B (enc_len B e3 + budget) (take MAX_EXTRA_ACK_RANGES pending) (pr_smallest first) [first] e3
      = Ok ([first] @ take k0 (take MAX_EXTRA_ACK_RANGES pending), e4)"
    "appended e3 (concat (map ack_range_bytes (ack_ranges_of (pr_smallest first) (take k0 (take MAX_EXTRA_ACK_RANGES pending))))) e4"
    "enc_len B e4 \<le> enc_len B e3 + budget"
    using encode_range_loop_ok [OF okt appended_wf [OF a], of "enc_len B e3 + budget" "[first]"] by auto
  define k where "k = min k0 MAX_EXTRA_ACK_RANGES"
  have k: "take k0 (take MAX_EXTRA_ACK_RANGES pending) = take k pending" "k \<le> MAX_EXTRA_ACK_RANGES"
    by (simp_all add: k_def)
  define R where "R = concat (map ack_range_bytes (ack_ranges_of (pr_smallest first) (take k pending)))"
  define n where "n = length (take k pending)"
  have n: "n \<le> 63" "length (first # take k pending) - 1 = n"
    using k(2) by (simp_all add: n_def MAX_EXTRA_ACK_RANGES_def)
  have a4: "appended e3 R e4"
    using e4(2) unfolding k(1) R_def .
  have len: "length R \<le> budget" "enc_len B e4 - enc_len B e3 \<le> budget"
    using enc_len_appended [OF appended_wf [OF a] a4] e4(3) by simp_all
  have "appended e (xs @ [0] @ (ys @ R)) e4"
    using appended_trans [OF a a4] by simp
  then obtain e5 where e5: "overwrite B e4 rsv [word_of_nat n] = Ok e5" "appended e (xs @ [word_of_nat n] @ (ys @ R)) e5"
    using overwrite_appended [OF wf _ _ rsv, of "[0]" "ys @ R" e4 "[word_of_nat n]"] by auto
  have "encode_ack_ranges B pending e3 first rsv space = Ok (first # take k pending, e5)"
    using e4(1) e5(1) len(2) n unfolding encode_ack_ranges_def Let_def budget_def [symmetric] k(1)
    by simp
  moreover have "appended e (xs @ varint_bytes n @ ys @ R) e5"
    using e5(2) n(1) by (simp add: varint_bytes_def)
  ultimately show ?thesis
    using k(2) len(1) unfolding R_def n_def budget_def by (intro exI [of _ k] exI [of _ e5]) simp
qed

lemma encode_ack_body_ok:
  assumes ok: "ranges_ok (first # pending)" and wf: "wf_enc e" and delay: "delay < 2 ^ 62" and counts: "list_all (\<lambda>v. v < 2 ^ 62) E"
    and E: "E = (case ecn of None \<Rightarrow> [] | Some (a, b, c) \<Rightarrow> [a, b, c])"
    and room: "room (ebuf e) (length (varints_bytes ([pr_largest first, delay, pr_largest first - pr_smallest first] @ E)) + 1 + space)"
  shows "\<exists>k e'. encode_ack_body B first pending delay space ecn e = Ok (first # take k pending, e') \<and> k \<le> MAX_EXTRA_ACK_RANGES
    \<and> appended e (varints_bytes [pr_largest first, delay] @ varint_bytes (length (take k pending))
        @ varint_bytes (pr_largest first - pr_smallest first)
        @ concat (map ack_range_bytes (ack_ranges_of (pr_smallest first) (take k pending))) @ varints_bytes E) e'
    \<and> length (concat (map ack_range_bytes (ack_ranges_of (pr_smallest first) (take k pending)))) \<le> space"
proof -
  let ?A = "varints_bytes [pr_largest first, delay]" and ?F = "varint_bytes (pr_largest first - pr_smallest first)"
  have first: "range_ok first"
    using ok by (simp add: ranges_ok_Cons)
  have room': "room (ebuf e) n" if "n \<le> length (?A @ [0] @ ?F @ varints_bytes E) + space" for n
    using that by (intro room_mono [OF room]) (simp add: varints_bytes_def)
  obtain e3 where e3: "encode_ack_fixed B e first delay = Ok (position B (ebuf e) + length ?A, e3)" "appended e (?A @ [0] @ ?F) e3"
    using encode_ack_fixed_ok [OF wf first delay] room' by fastforce
  have "room (ebuf e3) space"
    using e3(2) room' by (simp add: appended_def)
  then obtain k e4 where e4: "encode_ack_ranges B pending e3 first (position B (ebuf e) + length ?A) space = Ok (first # take k pending, e4)"
    "k \<le> MAX_EXTRA_ACK_RANGES"
    "appended e (?A @ varint_bytes (length (take k pending)) @ ?F
        @ concat (map ack_range_bytes (ack_ranges_of (pr_smallest first) (take k pending)))) e4"
    "length (concat (map ack_range_bytes (ack_ranges_of (pr_smallest first) (take k pending)))) \<le> space"
    using encode_ack_ranges_ok [OF ok wf e3(2) refl] by blast
  have "varint_size (length (take k pending)) = 1"
    using e4(2) by (simp add: varint_size_def MAX_EXTRA_ACK_RANGES_def min_def)
  then have "room (ebuf e4) (length (varints_bytes E))"
    using e4(3,4) room' by (simp add: appended_def)
  then obtain e5 where e5: "encode_varints B E e4 = Ok e5" "appended e4 (varints_bytes E) e5"
    using encode_varints_ok [OF appended_wf [OF e4(3)] counts] by blast
  have "encode_ack_body B first pending delay space ecn e = Ok (first # take k pending, e5)"
    using e5(1) E unfolding encode_ack_body_def e3(1) bind_res.simps case_prod_conv e4(1)
    by (auto split: option.splits)
  then show ?thesis
    using appended_trans [OF e4(3) e5(2)] e4(2,4) by (intro exI [of _ k] exI [of _ e5]) simp
qed

end

lemma varints_bytes_append [simp]: "varints_bytes (vs @ ws) = varints_bytes vs @ varints_bytes ws"
  by (simp add: varints_bytes_def)

lemma varints_bytes_le: "length (varints_bytes vs) \<le> 8 * length vs"
  by (induction vs) (simp_all add: varint_size_def)

text \<open>The frame that acknowledges \<open>first\<close> and the ranges \<open>lower\<close> below it.\<close>

definition ack_frame_of :: "packet_range \<Rightarrow> packet_range list \<Rightarrow> nat \<Rightarrow> ecn_count \<Rightarrow> frame" where
  "ack_frame_of first lower delay c =
     Frame_Ack (pr_largest first) delay (pr_largest first - pr_smallest first) (ack_ranges_of (pr_smallest first) lower)
       (map_option (\<lambda>(ect0, ect1, ce). ecn_count_new 0 ect0 ect1 ce) (ecn_triple c))"

definition ack_type :: "ecn_count \<Rightarrow> frame_type" where
  "ack_type c = (if ecn_triple c \<noteq> None then FT_AckEcn else FT_Ack)"

lemma ack_frame_of_bytes:
  "frame_bytes (ack_frame_of first lower delay c) =
     varint_bytes (frame_type_code (ack_type c)) @ varints_bytes [pr_largest first, delay] @ varint_bytes (length lower)
     @ varint_bytes (pr_largest first - pr_smallest first)
     @ concat (map ack_range_bytes (ack_ranges_of (pr_smallest first) lower))
     @ varints_bytes (case ecn_triple c of None \<Rightarrow> [] | Some (a, b, c) \<Rightarrow> [a, b, c])"
  by (auto simp: ack_frame_of_def ack_type_def ft_bytes_def ecn_bytes_def ecn_count_new_def split: option.split)

definition counts_ok :: "ecn_count \<Rightarrow> bool" where
  "counts_ok c \<longleftrightarrow> ec_ect0 c < 2 ^ 62 \<and> ec_ect1 c < 2 ^ 62 \<and> ec_ce c < 2 ^ 62"

definition ack_delay_field :: "recvd_packets \<Rightarrow> nat \<Rightarrow> nat" where
  "ack_delay_field s now = (case largest_pn_time s of None \<Rightarrow> 0 | Some t \<Rightarrow> min MAX_VARINT ((now - t) div 8))"

context lawful_buffer
begin

lemma encode_ack_frame_ok:
  assumes ok: "ranges_ok (first # pending)" and b: "wf_builder b" and delay: "delay < 2 ^ 62" and counts: "list_all (\<lambda>v. v < 2 ^ 62) E"
    and E: "E = (case ecn of None \<Rightarrow> [] | Some (a, b, c) \<Rightarrow> [a, b, c])"
    and n: "n = length (varints_bytes ([T, pr_largest first, delay, pr_largest first - pr_smallest first] @ E)) + 1"
    and T: "T < 64" and fits: "n \<le> builder_remaining B b"
  shows "\<exists>k e1 e2. encode_varint B (b_enc b) (word_of_nat T) = Ok e1
    \<and> encode_ack_body B first pending delay (builder_remaining B b - n) ecn e1 = Ok (first # take k pending, e2)
    \<and> k \<le> MAX_EXTRA_ACK_RANGES
    \<and> wrote b (varint_bytes T @ varints_bytes [pr_largest first, delay] @ varint_bytes (length (take k pending))
        @ varint_bytes (pr_largest first - pr_smallest first)
        @ concat (map ack_range_bytes (ack_ranges_of (pr_smallest first) (take k pending))) @ varints_bytes E)
       (b\<lparr>b_enc := e2\<rparr>)"
proof -
  have wf: "wf_enc (b_enc b)" and room: "room (ebuf (b_enc b)) (builder_remaining B b)"
    using b by (simp_all add: wf_builder_def builder_remaining_def)
  have "room (ebuf (b_enc b)) (length (varints_bytes [T]))"
    using fits n by (intro room_mono [OF room]) simp
  then obtain e1 where e1: "encode_varints B [T] (b_enc b) = Ok e1" "appended (b_enc b) (varint_bytes T) e1"
    using encode_varints_ok [OF wf, of "[T]"] T by force
  have "builder_remaining B b = varint_size T
      + (length (varints_bytes ([pr_largest first, delay, pr_largest first - pr_smallest first] @ E)) + 1 + (builder_remaining B b - n))"
    using fits n by simp
  then have "room (ebuf e1) (length (varints_bytes ([pr_largest first, delay, pr_largest first - pr_smallest first] @ E)) + 1
      + (builder_remaining B b - n))"
    using e1(2) room by (simp add: appended_def)
  then obtain k e2 where e2: "encode_ack_body B first pending delay (builder_remaining B b - n) ecn e1 = Ok (first # take k pending, e2)"
    "k \<le> MAX_EXTRA_ACK_RANGES"
    "appended e1 (varints_bytes [pr_largest first, delay] @ varint_bytes (length (take k pending))
        @ varint_bytes (pr_largest first - pr_smallest first)
        @ concat (map ack_range_bytes (ack_ranges_of (pr_smallest first) (take k pending))) @ varints_bytes E) e2"
    "length (concat (map ack_range_bytes (ack_ranges_of (pr_smallest first) (take k pending)))) \<le> builder_remaining B b - n"
    using encode_ack_body_ok [OF ok appended_wf [OF e1(2)] delay counts E] by blast
  have "varint_size (length (take k pending)) = 1"
    using e2(2) by (simp add: varint_size_def MAX_EXTRA_ACK_RANGES_def min_def)
  then show ?thesis
    using e1(1) e2(1,2,4) fits n wrote_appended [OF b appended_trans [OF e1(2) e2(3)]]
    by (intro exI [of _ k] exI [of _ e1] exI [of _ e2]) auto
qed

lemma rp_write_frame_ok:
  assumes inv: "recvd_inv s" and b: "wf_builder b" and c: "counts_ok (rp_ecn_count s)"
  shows "rp_write_frame B s now rtt b ts = Ok (s, b, ts)
      \<and> (\<not> ack_now s now rtt \<or> \<not> list_ex pr_ack_needed (rp_ranges s) \<or> builder_remaining B b < USEFUL_ACK_LEN)
    \<or> (\<exists>first pending k b'. ack_now s now rtt \<and> filter pr_ack_needed (rp_ranges s) = first # pending
        \<and> rp_write_frame B s now rtt b ts
          = Ok (s\<lparr>rp_ack_time := None, last_ack_time := Some now, unacknowledged_count := 0\<rparr>, b',
                ts @ [Tok_Ack (first # take k pending)])
        \<and> k \<le> MAX_EXTRA_ACK_RANGES
        \<and> wrote b (frame_bytes (ack_frame_of first (take k pending) (ack_delay_field s now) (rp_ecn_count s))) b')"
proof (cases "ack_now s now rtt \<and> list_ex pr_ack_needed (rp_ranges s)")
  case False
  then have "\<not> ack_now s now rtt \<or> filter pr_ack_needed (rp_ranges s) = []"
    by (auto simp: filter_empty_conv list_ex_iff)
  then show ?thesis
    using False by (auto simp: rp_write_frame_def)
next
  case True
  then obtain first pending where f: "filter pr_ack_needed (rp_ranges s) = first # pending"
    by (cases "filter pr_ack_needed (rp_ranges s)") (auto simp: filter_empty_conv list_ex_iff)
  have ok: "ranges_ok (first # pending)" "rp_ranges s \<noteq> []"
    using inv ranges_ok_filter [of "rp_ranges s" pr_ack_needed] f by (auto simp: recvd_inv_def)
  then have first: "range_ok first"
    by (simp add: ranges_ok_Cons)
  obtain t where t: "largest_pn_time s = Some t"
    using inv ok(2) by (auto simp: recvd_inv_def)
  define delay where "delay = ack_delay_field s now"
  define ecn where "ecn = ecn_triple (rp_ecn_count s)"
  define E where "E = (case ecn of None \<Rightarrow> [] | Some (a, b, c) \<Rightarrow> [a, b, c])"
  define T where "T = frame_type_code (ack_type (rp_ecn_count s))"
  define F where "F = pr_largest first - pr_smallest first"
  have delay: "delay < 2 ^ 62" "delay = min MAX_VARINT ((now - t) div 8)"
    by (simp_all add: delay_def ack_delay_field_def t MAX_VARINT_def)
  have T: "T < 64" "T = frame_type_code (if ecn \<noteq> None then FT_AckEcn else FT_Ack)"
    by (simp_all add: T_def ack_type_def ecn_def)
  have E: "list_all (\<lambda>v. v < 2 ^ 62) E" "length E \<le> 3"
    using c by (auto simp: E_def ecn_def ecn_triple_def counts_ok_def)
  define n where "n = length (varints_bytes ([T, pr_largest first, delay, F] @ E)) + 1"
  have sum: "sum_varint_len ([T, pr_largest first, delay, F] @ E) = Ok (length (varints_bytes ([T, pr_largest first, delay, F] @ E)))"
    using T(1) first delay(1) E(1) by (intro sum_varint_len_ok) (auto simp: range_ok_def F_def)
  have n: "ack_fixed_len (if ecn \<noteq> None then FT_AckEcn else FT_Ack) first delay ecn = Ok n"
    unfolding ack_fixed_len_def range_len_eq(2) [OF first] T(2) [symmetric] E_def [symmetric] F_def [symmetric] n_def
      sum bind_res.simps ..
  have wr: "rp_write_frame B s now rtt b ts =
    (if builder_remaining B b < n then Ok (s, b, ts)
     else bind_res (encode_varint B (b_enc b) (word_of_nat T)) (\<lambda>e1.
            bind_res (encode_ack_body B first pending delay (builder_remaining B b - n) ecn e1) (\<lambda>(acked, e2).
              assert_res (builder_len B (b\<lparr>b_enc := e2\<rparr>) \<le> b_limit b)
                (Ok (s\<lparr>rp_ack_time := None, last_ack_time := Some now, unacknowledged_count := 0\<rparr>,
                     b\<lparr>b_enc := e2\<rparr>, ts @ [Tok_Ack acked])))))"
    using True unfolding rp_write_frame_def f t list.case option.case Let_def delay(2) [symmetric] ecn_def [symmetric] n T(2)
    by simp
  show ?thesis
  proof (cases "builder_remaining B b < n")
    case True
    moreover have "n \<le> USEFUL_ACK_LEN"
      using varints_bytes_le [of E] E(2) T(1) by (simp add: n_def USEFUL_ACK_LEN_def varint_size_def varints_bytes_append)
    ultimately show ?thesis
      using wr by simp
  next
    case False
    then obtain k e1 e2 where "encode_varint B (b_enc b) (word_of_nat T) = Ok e1"
      "encode_ack_body B first pending delay (builder_remaining B b - n) ecn e1 = Ok (first # take k pending, e2)"
      "k \<le> MAX_EXTRA_ACK_RANGES"
      and w: "wrote b (frame_bytes (ack_frame_of first (take k pending) delay (rp_ecn_count s))) (b\<lparr>b_enc := e2\<rparr>)"
      using encode_ack_frame_ok [OF ok(1) b delay(1) E(1) E_def n_def [unfolded F_def] T(1)]
      unfolding ack_frame_of_bytes T_def E_def ecn_def by fastforce
    moreover have "builder_len B (b\<lparr>b_enc := e2\<rparr>) \<le> b_limit b"
      using w by (simp add: wrote_def wf_builder_def)
    ultimately show ?thesis
      using False True f wr unfolding delay_def by auto
  qed
qed

end

subsection \<open>Properties\<close>

lemma set_received_ack_time:
  assumes "set_received s now pn eliciting = Ok (l, s')"
  shows "if eliciting then rp_ack_time s' \<noteq> None \<and> (if rp_space s = Space_ApplicationData then True else rp_ack_time s' = Some now)
      else rp_ack_time s' = rp_ack_time s"
proof -
  define nxt where "nxt = (case rp_ranges s of [] \<Rightarrow> 0 | r # _ \<Rightarrow> u64_add (pr_largest r) 1)"
  define s2 where "s2 rs = (if nxt \<le> pn then (trim_ranges (s\<lparr>rp_ranges := rs\<rparr>))\<lparr>largest_pn_time := Some now\<rparr>
    else trim_ranges (s\<lparr>rp_ranges := rs\<rparr>))" for rs
  obtain rs where s': "s' = (if eliciting then note_eliciting (s2 rs) now pn nxt else s2 rs)"
    using assms unfolding set_received_def Let_def nxt_def [symmetric] s2_def [symmetric] bind_res_Ok_iff by blast
  have "rp_space (s2 rs) = rp_space s" "rp_ack_time (s2 rs) = rp_ack_time s"
    by (simp_all add: s2_def trim_ranges_def)
  then show ?thesis
    unfolding s' by (simp add: note_eliciting_def Let_def)
qed

lemma ranges_set_mono: "set rs \<subseteq> set rs' \<Longrightarrow> ranges_set rs \<subseteq> ranges_set rs'"
  by (auto simp: ranges_set_def)

text \<open>A space that has received packets 0, 1 and 5.\<close>

definition sample_recvd :: recvd_packets where
  "sample_recvd = (recvd_packets_new Space_ApplicationData)
     \<lparr>rp_ranges := [range_new 5, \<lparr>pr_largest = 1, pr_smallest = 0, pr_ack_needed = True\<rparr>],
      largest_pn_time := Some 30, rp_ack_time := Some 30, unacknowledged_count := 3\<rparr>"

lemma sample_recvd_receives: "receives B Space_ApplicationData [0, 1, 5] sample_recvd"
proof -
  note eval = set_received_def note_eliciting_def recvd_packets_new_def Let_def trim_ranges_def range_new_def range_add_def range_contains_def
    u64_add_def u64_sub_def MAX_TRACKED_RANGES_def DEFAULT_ACK_PACKET_TOLERANCE_def DEFAULT_LOCAL_ACK_DELAY_def is_duplicate_def
  define s1 where "s1 = (recvd_packets_new Space_ApplicationData)
    \<lparr>rp_ranges := [range_new 0], largest_pn_time := Some 10, rp_ack_time := Some 20010, unacknowledged_count := 1\<rparr>"
  define s2 where "s2 = (recvd_packets_new Space_ApplicationData)
    \<lparr>rp_ranges := [\<lparr>pr_largest = 1, pr_smallest = 0, pr_ack_needed = True\<rparr>],
     largest_pn_time := Some 20, rp_ack_time := Some 20, unacknowledged_count := 2\<rparr>"
  have "receives B Space_ApplicationData ([] @ [0]) s1"
    by (rule receives.accept [OF receives.start, where now = 10 and eliciting = True and largest = True])
      (simp_all add: eval s1_def)
  then have "receives B Space_ApplicationData (([] @ [0]) @ [1]) s2"
    by (rule receives.accept [where now = 20 and eliciting = True and largest = True]) (simp_all add: eval s1_def s2_def)
  then have "receives B Space_ApplicationData ((([] @ [0]) @ [1]) @ [5]) sample_recvd"
    by (rule receives.accept [where now = 30 and eliciting = True and largest = True])
      (simp_all add: eval s2_def sample_recvd_def)
  then show ?thesis by simp
qed

lemma ack_delay_field_le: "ack_delay_field s now \<le> MAX_VARINT"
  by (simp add: ack_delay_field_def split: option.split)

lemma canonical_ack_frame_of:
  assumes "ranges_ok (first # take k pending)" "delay \<le> MAX_VARINT" "k \<le> MAX_EXTRA_ACK_RANGES" "counts_ok c"
  shows "canonical_frame (ack_frame_of first (take k pending) delay c)"
proof -
  have "range_ok first" "list_all range_ok (take k pending)"
    using assms(1) by (simp_all add: ranges_ok_def)
  moreover from this have "list_all valid_range (ack_ranges_of (pr_smallest first) (take k pending))"
    by (intro valid_ack_ranges_of) (auto simp: range_ok_def)
  ultimately show ?thesis
    using assms(2-4) by (auto simp: canonical_frame_def ack_frame_of_def range_ok_def MAX_VARINT_def MAX_ACK_RANGE_COUNT_def
      MAX_EXTRA_ACK_RANGES_def valid_ecn_def ecn_count_new_def ecn_triple_def counts_ok_def)
qed

text \<open>
  C5: Whatever happens to a packet number space, no packet number is accepted twice: the packets accepted so far are distinct,
  each of them is a duplicate from then on, although at most 128 ranges are remembered; and the ranges hold no packet
  that was not received.
\<close>

theorem replay_protection:
  assumes "receives B space pns s"
  shows "distinct pns \<and> list_all (is_duplicate s) pns \<and> ranges_set (rp_ranges s) \<subseteq> set pns
    \<and> length (rp_ranges s) \<le> MAX_TRACKED_RANGES"
proof -
  have t: "tracks pns s"
    by (rule receives_tracks [OF assms])
  then have "recvd_inv s" by (simp add: tracks_def)
  then show ?thesis
    using t by (auto simp: tracks_def recvd_inv_def list_all_iff is_duplicate_seen)
qed

theorem replay_protection_witness:
  "distinct [0, 1, 5 :: nat] \<and> list_all (is_duplicate sample_recvd) [0, 1, 5] \<and> ranges_set (rp_ranges sample_recvd) \<subseteq> set [0, 1, 5]
    \<and> length (rp_ranges sample_recvd) \<le> MAX_TRACKED_RANGES"
  by (rule replay_protection [OF sample_recvd_receives [of vec_buffer]])

text \<open>
  C31: Recording a packet that is no duplicate never fails. It reports whether the packet is larger than all before, makes the
  packet a duplicate, and arms the ACK timer exactly if the packet is ack-eliciting, for now unless this is the
  application data space.
\<close>

theorem packet_recorded:
  assumes "receives B space pns s" "\<not> is_duplicate s pn" "pn < 2 ^ 62"
  shows "\<exists>s'. set_received s now pn eliciting = Ok (list_all (\<lambda>q. q < pn) pns, s') \<and> is_duplicate s' pn
    \<and> (if eliciting then rp_ack_time s' \<noteq> None \<and> (if rp_space s = Space_ApplicationData then True else rp_ack_time s' = Some now)
       else rp_ack_time s' = rp_ack_time s)"
proof -
  obtain s' where s': "set_received s now pn eliciting = Ok (list_all (\<lambda>q. q < pn) pns, s')" "tracks (pns @ [pn]) s'"
    using set_received_ok [OF receives_tracks [OF assms(1)] assms(2,3)] by blast
  moreover have "is_duplicate s' pn"
    using s'(2) by (auto simp: tracks_def is_duplicate_seen)
  ultimately show ?thesis
    using set_received_ack_time [OF s'(1)] by blast
qed

theorem packet_recorded_witness:
  "\<exists>s'. set_received sample_recvd 40 3 True = Ok (list_all (\<lambda>q. q < (3 :: nat)) [0, 1, 5], s') \<and> is_duplicate s' 3
    \<and> (if True then rp_ack_time s' \<noteq> None \<and> (if rp_space sample_recvd = Space_ApplicationData then True else rp_ack_time s' = Some 40)
       else rp_ack_time s' = rp_ack_time sample_recvd)"
proof -
  have "\<not> is_duplicate sample_recvd 3"
    by (simp add: is_duplicate_def sample_recvd_def range_contains_def range_new_def recvd_packets_new_def)
  then show ?thesis
    by (rule packet_recorded [OF sample_recvd_receives [of vec_buffer]]) simp
qed



end
