(* ===== verification/Packet_Protection.thy ===== *)
theory Packet_Protection
  imports Packet Frame_Codec
begin

text \<open>
  Correctness of packet protection: packet numbers are recovered from their truncated form, and a packet made by the
  \<open>Builder\<close> is decoded and opened by \<open>Public\<close> to what was put in, for short and long headers, given an AEAD that opens
  what it seals.
\<close>

subsection \<open>Packet numbers\<close>

lemma push_bit_1_unat:
  "w \<le> 4 \<Longrightarrow> unat (push_bit (w * 8) 1 :: u64) = 256 ^ w"
proof -
  assume "w \<le> 4"
  then consider "w = 0" | "w = 1" | "w = 2" | "w = 3" | "w = 4" by linarith
  then show ?thesis by cases simp_all
qed

lemma and_not_mask_or:
  fixes e x :: u64
  assumes "unat x < 2 ^ n" "n < 64"
  shows "unat ((e AND NOT (push_bit n 1 - 1)) OR x) = unat e div 2 ^ n * 2 ^ n + unat x"
proof -
  have eb: "unat e < 2 ^ 64"
    using unsigned_less [where w = e and 'a = nat] by simp
  have m: "push_bit n 1 - 1 = (mask n :: u64)"
    by (simp add: mask_eq_exp_minus_1 push_bit_eq_mult)
  have x: "take_bit n x = x"
    using assms(1) by (simp add: word_unat_eq_iff unsigned_take_bit_eq take_bit_nat_eq_self)
  have disj: "(e AND NOT (mask n)) AND take_bit n x = 0"
    by (rule bit_eqI) (auto simp: bit_simps)
  have eq: "e AND NOT (mask n) = push_bit n (drop_bit n e)"
    by (rule bit_eqI) (auto simp: bit_simps)
  have u: "unat (e AND NOT (mask n)) = unat e div 2 ^ n * 2 ^ n"
  proof -
    have "unat e div 2 ^ n * 2 ^ n < 2 ^ 64"
      using div_times_less_eq_dividend [of "unat e" "2 ^ n"] eb by (rule order_le_less_trans)
    then show ?thesis
      unfolding eq unsigned_push_bit_eq unsigned_drop_bit_eq using eb
      by (simp add: take_bit_nat_eq_self drop_bit_eq_div push_bit_eq_mult)
  qed
  have "(e AND NOT (mask n)) OR x = (e AND NOT (mask n)) + x"
    using disjunctive_add_eq_or [OF disj] x by simp
  moreover have "unat e div 2 ^ n * 2 ^ n + unat x < 2 ^ 64"
  proof -
    have "unat e div 2 ^ n < 2 ^ (64 - n)"
      using assms(2) eb by (simp add: less_mult_imp_div_less flip: power_add)
    then have "(unat e div 2 ^ n + 1) * 2 ^ n \<le> 2 ^ (64 - n) * 2 ^ n"
      by (intro mult_le_mono1) simp
    also have "\<dots> = 2 ^ 64"
      using assms(2) by (simp flip: power_add)
    finally show ?thesis
      using assms(1) by (simp add: algebra_simps)
  qed
  ultimately show ?thesis
    unfolding m using u by (simp add: unat_word_ariths)
qed

lemma decode_pn_nat:
  assumes w: "1 \<le> w" "w \<le> 4" and e: "unat e < 2 ^ 62" and x: "unat x < 256 ^ w"
  defines "win \<equiv> 256 ^ w" and "cand \<equiv> unat e div 256 ^ w * 256 ^ w + unat x"
  shows "unat (decode_pn e x w) =
    (if cand + win div 2 \<le> unat e then cand + win
     else if unat e + win div 2 < cand \<and> win \<le> cand then cand - win else cand)"
proof -
  have pw: "(256 :: nat) ^ w = 2 ^ (w * 8)"
    by (simp add: power_mult mult.commute [of w])
  define W :: u64 where "W = push_bit (w * 8) 1"
  define C where "C = (e AND NOT (W - 1)) OR x"
  have win: "unat W = win" "unat (W div 2) = win div 2"
    using push_bit_1_unat [OF w(2)] unfolding W_def [symmetric] by (simp_all add: win_def unat_div)
  have c: "unat C = cand"
    using and_not_mask_or [of x "w * 8" e] x w unfolding cand_def pw C_def W_def by simp
  have winb: "win \<le> 2 ^ 32"
    using power_increasing [of w 4 "256 :: nat"] w by (simp add: win_def)
  have "cand < 2 ^ 62 + 2 ^ 32"
    using div_times_less_eq_dividend [of "unat e" "256 ^ w"] e x winb unfolding cand_def win_def by linarith
  then have nowrap: "cand + win < 2 ^ 64" "cand + win div 2 < 2 ^ 64" "unat e + win div 2 < 2 ^ 64"
    using winb e by simp_all
  have 1: "C + W div 2 \<le> e \<longleftrightarrow> cand + win div 2 \<le> unat e"
    using nowrap by (simp add: word_le_nat_alt unat_word_ariths c win)
  have 2: "e + W div 2 < C \<longleftrightarrow> unat e + win div 2 < cand"
    using nowrap by (simp add: word_less_nat_alt unat_word_ariths c win)
  have 3: "W \<le> C \<longleftrightarrow> win \<le> cand"
    by (simp add: word_le_nat_alt c win)
  have 4: "unat (C + W) = cand + win"
    using nowrap by (simp add: unat_word_ariths c win)
  have 5: "win \<le> cand \<Longrightarrow> unat (C - W) = cand - win"
    using 3 by (simp add: unat_sub c win)
  show ?thesis
    unfolding decode_pn_def Let_def W_def [symmetric] C_def [symmetric] 1 2 3 using 4 5 c by simp
qed

lemma decode_pn_window:
  fixes p e :: nat
  assumes w: "1 \<le> w" "w \<le> 4" and b: "e < 2 ^ 62"
    and near: "e < p + 256 ^ w div 2" "p \<le> e + 256 ^ w div 2"
  shows "unat (decode_pn (word_of_nat e) (word_of_nat (p mod 256 ^ w)) w) = p"
proof -
  define win :: nat where "win = 256 ^ w"
  have win: "0 < win" "win \<le> 2 ^ 32"
    using power_increasing [of w 4 "256 :: nat"] w by (simp_all add: win_def)
  have r: "p mod win < win"
    using win by simp
  then have r2: "p mod win < 2 ^ 64"
    using win(2) by simp
  have ue: "unat (word_of_nat e :: u64) = e" and ux: "unat (word_of_nat (p mod win) :: u64) = p mod win"
    using b r2 by (simp_all add: unat_of_nat)
  define c where "c = e div win * win + p mod win"
  have near': "e < p + win div 2" "p \<le> e + win div 2"
    using near by (simp_all add: win_def)
  have res: "unat (decode_pn (word_of_nat e) (word_of_nat (p mod win)) w) =
    (if c + win div 2 \<le> e then c + win else if e + win div 2 < c \<and> win \<le> c then c - win else c)"
    using decode_pn_nat [OF w, of "word_of_nat e" "word_of_nat (p mod win)"] b r
    by (simp add: ue ux win_def [symmetric] c_def)
  have p: "p = p div win * win + p mod win" and e: "e = e div win * win + e mod win" and em: "e mod win < win"
    using win by simp_all
  consider "p div win = e div win" | "p div win = Suc (e div win)" | "e div win = Suc (p div win)"
  proof -
    have "p < e + win" "e < p + win"
      using near' win by linarith+
    moreover have "(x + win) div win = Suc (x div win)" for x
      using win(1) by (simp add: div_add_self2)
    ultimately have "p div win \<le> Suc (e div win)" "e div win \<le> Suc (p div win)"
      using div_le_mono [of p "e + win" win] div_le_mono [of e "p + win" win] by simp_all
    then show thesis
      using that by linarith
  qed
  then have "(if c + win div 2 \<le> e then c + win else if e + win div 2 < c \<and> win \<le> c then c - win else c) = p"
  proof cases
    case 1
    then have "c = p" using p by (simp add: c_def)
    then show ?thesis using near' by simp
  next
    case 2
    then have "p = c + win" using p by (simp add: c_def)
    then show ?thesis using near' by auto
  next
    case 3
    then have "c = p + win" using p by (simp add: c_def)
    then show ?thesis using near' by auto
  qed
  then show ?thesis
    using res by (simp add: win_def)
qed

subsection \<open>Building on a vector\<close>

text \<open>The encoder over a vector with \<open>pre\<close> before its start and \<open>c\<close> written.\<close>

definition venc :: "bytes \<Rightarrow> bytes \<Rightarrow> bytes encoder" where
  "venc pre c = \<lparr>ebuf = pre @ c, estart = length pre\<rparr>"

lemma venc_of: "estart e \<le> length (ebuf e) \<Longrightarrow> e = venc (take (estart e) (ebuf e)) (enc_as_ref vec_buffer e)"
  by (cases e) (simp add: venc_def vec_enc_simps)

lemma copy_slice_one: "i < length xs \<Longrightarrow> copy_slice xs i [x] = xs[i := x]"
  by (simp add: copy_slice_def upd_conv_take_nth_drop)

lemma vec_ops:
  "copy_into vec_buffer b i d = assert_res (i + length d \<le> length b) (Ok (copy_slice b i d))"
  "buf_pad_to vec_buffer b n v = Ok (vec_resize b n v)"
  by (simp_all add: vec_buffer_def)

lemma venc_simps [simp]:
  "enc_len vec_buffer (venc pre c) = length c"
  "enc_as_ref vec_buffer (venc pre c) = c"
  "encode vec_buffer (venc pre c) d = Ok (venc pre (c @ d))"
  "encode_byte vec_buffer (venc pre c) x = Ok (venc pre (c @ [x]))"
  "enc_pad_to vec_buffer (venc pre c) n v = Ok (venc pre (c @ replicate (n - length c) v))"
  "enc_get vec_buffer (venc pre c) i = assert_res (i < length c) (Ok (c ! i))"
  "enc_put vec_buffer (venc pre c) i x = assert_res (i < length c) (Ok (venc pre (c[i := x])))"
  "enc_truncate vec_buffer (venc pre c) n = venc pre (take n c)"
  by (auto simp: venc_def vec_enc_simps encode_byte_def enc_pad_to_def Let_def vec_ops vec_resize_def
      enc_get_def enc_put_def assert_res_def copy_slice_one list_update_append enc_truncate_def min_def)

declare encode_vec_buffer [simp del]

lemma venc_encode_uint [simp]:
  "encode_uint vec_buffer (venc pre c) n v = assert_res (0 < n \<and> n \<le> 8) (Ok (venc pre (c @ to_be n (unat v))))"
  by (simp add: encode_uint_def assert_res_def drop_to_be_bytes)

lemma venc_encode_vec [simp]:
  "encode_vec vec_buffer (venc pre c) n d =
     assert_res (0 < n \<and> n \<le> 8) (Ok (venc pre (c @ to_be n (length d mod 2 ^ 64) @ d)))"
  by (simp add: encode_vec_def assert_res_def unat_of_nat)

lemma venc_replace [simp]:
  "length d = length c \<Longrightarrow> enc_replace vec_buffer (venc pre c) d = Ok (venc pre d)"
  by (simp add: enc_replace_def venc_def vec_ops copy_slice_def)

lemma length_xor_bytes [simp]: "length (xor_bytes xs ys) = min (length xs) (length ys)"
  by (simp add: xor_bytes_def)

lemma xor_at_venc:
  "xor_at vec_buffer (venc pre (xs @ ys @ zs)) (length xs) ms = Ok (venc pre (xs @ xor_bytes ys ms @ zs))"
  if "length ms = length ys"
  using that
proof (induction ms arbitrary: xs ys)
  case (Cons m ms)
  then obtain y ys' where "ys = y # ys'"
    by (cases ys) auto
  with Cons show ?case
    using Cons.IH [of ys' "xs @ [y XOR m]"] by (simp add: xor_bytes_def)
qed (simp add: xor_bytes_def)

text \<open>
  A protected packet, from the first byte, the rest of the header, the bytes of the packet number, the sealed
  payload and the mask.
\<close>

definition protect :: "u8 \<Rightarrow> bytes \<Rightarrow> u8 \<Rightarrow> bytes \<Rightarrow> bytes \<Rightarrow> bytes \<Rightarrow> bytes" where
  "protect bits m f hdr pnb ct =
     (f XOR (m ! 0 AND bits)) # hdr @ xor_bytes pnb (take (length pnb) (drop 1 m)) @ ct"

lemma length_protect [simp]:
  "length pnb < length m \<Longrightarrow> length (protect bits m f hdr pnb ct) = Suc (length hdr + length pnb + length ct)"
  by (simp add: protect_def)

lemma apply_mask_venc:
  assumes "b_enc b = venc pre (pk @ (f # hdr @ pnb) @ ct)" "fst (b_header b) = length pk"
    "off_pn b = (length pk + Suc (length hdr), length pk + Suc (length hdr) + length pnb)"
    "length pnb < length m"
  shows "apply_mask vec_buffer b m = Ok (venc pre (pk @ protect (off_first_byte_mask b) m f hdr pnb ct))"
proof -
  have 1: "xor_at vec_buffer (venc pre (pk @ (f # hdr @ pnb) @ ct)) (length pk) [x] =
    Ok (venc pre ((pk @ (f XOR x) # hdr) @ pnb @ ct))" for x
    using xor_at_venc [of "[x]" "[f]" pre pk "hdr @ pnb @ ct"] by (simp add: xor_bytes_def)
  have 2: "xor_at vec_buffer (venc pre ((pk @ y # hdr) @ pnb @ ct)) (length pk + Suc (length hdr))
      (take (length pnb) (drop 1 m))
    = Ok (venc pre ((pk @ y # hdr) @ xor_bytes pnb (take (length pnb) (drop 1 m)) @ ct))" for y
    using xor_at_venc [of "take (length pnb) (drop 1 m)" pnb pre "pk @ y # hdr" ct] assms(4) by simp
  show ?thesis
    using assms(2,4) 2 unfolding apply_mask_def assms(1,3) Let_def
    by (simp only: 1 bind_res.simps fst_conv snd_conv) (simp add: protect_def)
qed

subsection \<open>Sealing\<close>

text \<open>Keys that can seal packet \<open>pn\<close>; \<open>2^16\<close> invocations are enough for every size the code allows.\<close>

definition can_seal :: "crypto_dx \<Rightarrow> nat \<Rightarrow> bool" where
  "can_seal dx pn \<longleftrightarrow> dx_direction dx = Dir_Write \<and> 2 ^ 16 \<le> invocations dx \<and> pn = next_pn dx \<and> min_pn dx \<le> pn"

text \<open>\<open>a'\<close> opens what \<open>a\<close> seals: the contract of authenticated encryption.\<close>

definition opens :: "aead \<Rightarrow> aead \<Rightarrow> bool" where
  "opens a a' \<longleftrightarrow>
     (\<forall>pn aad body. \<exists>ct pt. encrypt_in_place a pn aad (body @ replicate (aead_expansion a) 0) = Ok ct
        \<and> length ct = length body + aead_expansion a \<and> decrypt_in_place a' pn aad ct = Ok (pt, length body)
        \<and> length pt = length ct \<and> take (length body) pt = body)"

text \<open>A header protection key gives a mask of at least five bytes for every sample.\<close>

definition hp_ok :: "hp_key \<Rightarrow> bool" where
  "hp_ok k \<longleftrightarrow> (\<forall>s. length s = SAMPLE_SIZE \<longrightarrow> (\<exists>m. k s = Ok m \<and> 4 < length m))"

lemma bit_length_le: "n < 2 ^ k \<Longrightarrow> bit_length n \<le> k"
proof (induction k arbitrary: n)
  case 0
  then show ?case by (simp add: bit_length.simps)
next
  case (Suc k)
  then have "bit_length (n div 2) \<le> k" by simp
  then show ?case by (simp add: bit_length.simps [of n])
qed

lemma dx_encrypt_ok:
  assumes "can_seal dx pn" "h0 \<le> h1" "h1 + dx_expansion dx \<le> length data"
    "length data \<le> 65535 + (h1 - h0) + dx_expansion dx"
    "encrypt_in_place (dx_aead dx) pn (drop h0 (take h1 data)) (drop h1 data) = Ok ct"
  shows "\<exists>dx'. dx_encrypt dx pn (h0, h1) data = Ok (take h1 data @ ct, dx') \<and> dx_hpkey dx' = dx_hpkey dx
    \<and> next_pn dx' = max (u64_add pn 1) pn \<and> dx_aead dx' = dx_aead dx"
proof -
  let ?n = "length data - (h1 - h0) - dx_expansion dx"
  have n: "?n \<le> 65535" using assms by simp
  then have "bit_length (?n - 1) \<le> 16"
    by (intro bit_length_le) simp
  then have "leading_zeros (largest_packet_len dx - 1) - leading_zeros (?n - 1) \<le> 16"
    by (simp add: leading_zeros_def)
  then have "2 ^ (leading_zeros (largest_packet_len dx - 1) - leading_zeros (?n - 1)) \<le> (2 :: nat) ^ 16"
    by (rule power_increasing) simp
  then have "1 \<le> drop_bit (leading_zeros (largest_packet_len dx - 1) - leading_zeros (?n - 1)) (invocations dx)"
    using assms(1) by (simp add: can_seal_def drop_bit_eq_div Suc_le_eq div_greater_zero_iff)
  then show ?thesis
    using assms n
    by (auto simp: dx_encrypt_def Let_def can_seal_def invoked_def next_pn_def dx_used_def dx_expansion_def
        bind_res_Ok_iff)
qed

text \<open>What a builder holds when its header is complete, and a body has been written.\<close>

definition holds :: "bytes builder \<Rightarrow> bytes \<Rightarrow> bytes \<Rightarrow> u8 \<Rightarrow> bytes \<Rightarrow> bytes \<Rightarrow> bytes \<Rightarrow> bool" where
  "holds b pre pk f hdr pnb body \<longleftrightarrow>
     b_enc b = venc pre (pk @ (f # hdr @ pnb) @ body)
     \<and> b_header b = (length pk, length pk + Suc (length hdr + length pnb))
     \<and> off_pn b = (length pk + Suc (length hdr), length pk + Suc (length hdr) + length pnb)
     \<and> 1 \<le> length pnb \<and> length pnb \<le> 4"

lemma build_protect_venc:
  assumes b: "holds b pre pk f hdr pnb body" and dx: "can_seal dx (b_pn b)"
    and a: "opens (dx_aead dx) a'" and hp: "hp_ok (dx_hpkey dx)"
    and size: "length pk + length body \<le> 65535" "4 + 16 \<le> length pnb + length body + dx_expansion dx"
  shows "\<exists>ct pt m dx'.
    build_protect vec_buffer b dx = Ok (venc pre (pk @ protect (off_first_byte_mask b) m f hdr pnb ct), dx')
    \<and> length ct = length body + dx_expansion dx
    \<and> decrypt_in_place a' (b_pn b) (f # hdr @ pnb) ct = Ok (pt, length body)
    \<and> length pt = length ct \<and> take (length body) pt = body
    \<and> dx_hpkey dx (take SAMPLE_SIZE (drop (4 - length pnb) ct)) = Ok m \<and> 4 < length m
    \<and> next_pn dx' = max (u64_add (b_pn b) 1) (b_pn b)"
proof -
  let ?h = "f # hdr @ pnb" and ?z = "replicate (dx_expansion dx) 0"
  obtain ct pt where ct: "encrypt_in_place (dx_aead dx) (b_pn b) ?h (body @ ?z) = Ok ct"
    "length ct = length body + dx_expansion dx" "decrypt_in_place a' (b_pn b) ?h ct = Ok (pt, length body)"
    "length pt = length ct" "take (length body) pt = body"
    using a unfolding opens_def dx_expansion_def by blast
  have hd: "b_header b = (length pk, length pk + length ?h)"
    using b by (simp add: holds_def)
  let ?data = "pk @ ?h @ body @ ?z"
  obtain dx' where dx': "dx_encrypt dx (b_pn b) (length pk, length pk + length ?h) ?data
      = Ok (take (length pk + length ?h) ?data @ ct, dx')"
    "dx_hpkey dx' = dx_hpkey dx" "next_pn dx' = max (u64_add (b_pn b) 1) (b_pn b)"
    using dx_encrypt_ok [OF dx, of "length pk" "length pk + length ?h" ?data ct] ct(1) size(1) by auto
  let ?n = "4 - length pnb"
  have l4: "length pnb \<le> 4" using b by (simp add: holds_def)
  have "length (take SAMPLE_SIZE (drop ?n ct)) = SAMPLE_SIZE"
    using size(2) ct(2) l4 by (simp add: SAMPLE_SIZE_def)
  then obtain m where m: "dx_hpkey dx (take SAMPLE_SIZE (drop ?n ct)) = Ok m" "4 < length m"
    using hp unfolding hp_ok_def by blast
  have mask: "apply_mask vec_buffer (b\<lparr>b_enc := venc pre (pk @ ?h @ ct)\<rparr>) m
      = Ok (venc pre (pk @ protect (off_first_byte_mask b) m f hdr pnb ct))"
    using apply_mask_venc [of "b\<lparr>b_enc := venc pre (pk @ ?h @ ct)\<rparr>" pre pk f hdr pnb ct m] b m(2)
    by (simp add: holds_def)
  have pad: "enc_pad_to vec_buffer (b_enc b) (enc_len vec_buffer (b_enc b) + dx_expansion dx) 0 = Ok (venc pre ?data)"
    using b by (simp add: holds_def)
  have off: "snd (off_pn b) - fst (off_pn b) = length pnb"
    using b by (simp add: holds_def)
  have ss: "length pk + length ?h + SAMPLE_OFFSET - length pnb = length pk + length ?h + ?n"
    using l4 by (simp add: SAMPLE_OFFSET_def)
  have tk: "take (length pk + length ?h) ?data @ ct = pk @ ?h @ ct"
    by simp
  have dr: "drop (length pk + length ?h + ?n) (pk @ ?h @ ct) = drop ?n ct"
    by simp
  have len: "length pk + length ?h + ?n + SAMPLE_SIZE \<le> length (pk @ ?h @ ct)"
    using size(2) ct(2) l4 by (simp add: SAMPLE_SIZE_def)
  have "build_protect vec_buffer b dx
    = Ok (venc pre (pk @ protect (off_first_byte_mask b) m f hdr pnb ct), dx')"
    unfolding build_protect_def Let_def hd pad bind_res.simps venc_simps dx'(1) tk prod.case snd_conv off ss
    using len mask ct(2) m(1) unfolding dr compute_mask_def dx'(2)
    by simp
  then show ?thesis
    using ct(2-) m dx'(3) by blast
qed

subsection \<open>Opening\<close>

lemma xor_bytes_append:
  "length xs \<le> length ms \<Longrightarrow>
   xor_bytes (xs @ ys) ms = xor_bytes xs (take (length xs) ms) @ xor_bytes ys (drop (length xs) ms)"
  by (simp add: xor_bytes_def zip_append1)

lemma xor_bytes_cancel: "length ms = length xs \<Longrightarrow> xor_bytes (xor_bytes xs ms) ms = xs"
proof (induction xs arbitrary: ms)
  case (Cons x xs)
  then show ?case
    by (cases ms) (simp_all add: xor_bytes_def xor.assoc)
qed (simp add: xor_bytes_def)

lemma drop_bit_from_be:
  assumes "length xs + length ys = 4"
  shows "drop_bit (8 * length ys) (from_be_bytes (xs @ ys) :: u64) = word_of_nat (be_val xs)"
proof -
  have pw: "(2 :: nat) ^ (8 * length ys) = 256 ^ length ys"
    by (simp add: power_mult)
  have lt: "be_val (xs @ ys) < 2 ^ 64"
    using be_val_less [of "xs @ ys"] assms by simp
  moreover have "be_val xs < 2 ^ 64"
    using be_val_less [of xs] power_increasing [of "length xs" 4 "256 :: nat"] assms by simp
  moreover have "be_val (xs @ ys) div 256 ^ length ys = be_val xs"
    using be_val_less [of ys] by (simp add: be_val_append)
  ultimately show ?thesis
    unfolding word_unat_eq_iff from_be_bytes_def unsigned_drop_bit_eq
    by (simp add: unat_of_nat take_bit_nat_eq_self drop_bit_eq_div pw)
qed

lemma copy_slice_middle:
  "length ys = length zs \<Longrightarrow> copy_slice (x # xs @ ys @ ws) (Suc (length xs)) zs = x # xs @ zs @ ws"
  by (simp add: copy_slice_def)

lemma decrypt_header_protect:
  assumes p: "pub_data p = protect bits m f hdr pnb ct" "pub_header_len p = Suc (length hdr)"
      "bits = (if pub_type p = PT_Short then HP_MASK_SHORT else HP_MASK_LONG)"
      "pub_type p \<noteq> PT_Retry" "pub_type p \<noteq> PT_VersionNegotiation"
    and m: "dx_hpkey dx (take SAMPLE_SIZE (drop (4 - length pnb) ct)) = Ok m" "4 < length m"
    and n: "1 \<le> length pnb" "length pnb \<le> 4" "unat (f AND 3) = length pnb - 1" "20 \<le> length pnb + length ct"
  shows "decrypt_header p dx =
    Ok (pub_type p = PT_Short \<and> f AND BIT_KEY_PHASE = BIT_KEY_PHASE,
        unat (decode_pn (word_of_nat (next_pn dx)) (word_of_nat (be_val pnb)) (length pnb)),
        Suc (length hdr + length pnb), (f # hdr @ pnb) @ ct)"
proof -
  define M where "M = take 4 (drop 1 m)"
  define X where "X = xor_bytes pnb (take (length pnb) (drop 1 m))"
  have X: "length X = length pnb" "take (length pnb) M = take (length pnb) (drop 1 m)" "length M = 4"
    using n m(2) by (auto simp: X_def M_def min_def)
  have data: "pub_data p = (f XOR (m ! 0 AND bits)) # hdr @ X @ ct"
    by (simp add: p(1) protect_def X_def)
  have smp: "drop (Suc (length hdr) + SAMPLE_OFFSET) (pub_data p) = drop (4 - length pnb) ct"
    using n(2) X(1) by (simp add: data p(2) SAMPLE_OFFSET_def drop_Cons')
  have len: "\<not> length (pub_data p) < Suc (length hdr) + SAMPLE_OFFSET + SAMPLE_SIZE"
    using n X(1) by (simp add: data p(2) SAMPLE_OFFSET_def SAMPLE_SIZE_def)
  define Y where "Y = xor_bytes (take (4 - length pnb) ct) (drop (length pnb) M)"
  have pn: "xor_bytes (take 4 (drop (Suc (length hdr)) (pub_data p))) M = pnb @ Y" and Y: "length Y = 4 - length pnb"
  proof -
    have "take 4 (drop (Suc (length hdr)) (pub_data p)) = X @ take (4 - length pnb) ct"
      using n(2) X(1) by (simp add: data)
    moreover have "xor_bytes X (take (length pnb) M) = pnb"
      unfolding X(2) unfolding X_def using n(2) m(2) by (intro xor_bytes_cancel) simp
    ultimately show "xor_bytes (take 4 (drop (Suc (length hdr)) (pub_data p))) M = pnb @ Y"
      using X n(2) by (simp add: xor_bytes_append Y_def)
    show "length Y = 4 - length pnb"
      using n X(3) by (simp add: Y_def min_def)
  qed
  have first: "pub_data p ! 0 XOR (m ! 0 AND bits) = f"
    by (simp add: data xor.assoc)
  have enc: "drop_bit (8 * (4 - length pnb)) (from_be_bytes (pnb @ Y) :: u64) = word_of_nat (be_val pnb)"
    using drop_bit_from_be [of pnb Y] Y n(2) by simp
  have copy: "copy_slice ((pub_data p)[0 := f]) (Suc (length hdr)) (take (length pnb) (pnb @ Y)) = (f # hdr @ pnb) @ ct"
    using copy_slice_middle [of X pnb f hdr ct] X(1) by (simp add: data)
  have pl: "unat (f AND 3) + 1 = length pnb"
    using n by simp
  show ?thesis
    unfolding decrypt_header_def Let_def compute_mask_def smp m(1) p(2) MAX_PACKET_NUMBER_LEN_def bind_res.simps
      p(3) [symmetric] first pl M_def [symmetric] pn enc copy
    using len p(4,5) m(2) by simp
qed

text \<open>Keys that can open packet \<open>pn\<close>, which do not call for a key update when they do.\<close>

definition can_open :: "crypto_dx \<Rightarrow> nat \<Rightarrow> bool" where
  "can_open dx pn \<longleftrightarrow> dx_direction dx = Dir_Read \<and> 1 \<le> invocations dx \<and> min_pn dx \<le> pn
     \<and> (dx_epoch dx \<le> epoch_index Epoch_ApplicationData \<or> fst (used_pn dx) + 1 < snd (used_pn dx))
     \<and> snd (used_pn dx) < 2 ^ 62 \<and> pn < 2 ^ 62"

text \<open>The keys after they have opened packet \<open>pn\<close>.\<close>

definition opened :: "crypto_dx \<Rightarrow> nat \<Rightarrow> crypto_dx" where
  "opened dx pn = dx\<lparr>invocations := invocations dx - 1,
     used_pn := (if fst (used_pn dx) = snd (used_pn dx) then pn else fst (used_pn dx),
                 max (pn + 1) (snd (used_pn dx)))\<rparr>"

lemma dx_decrypt_ok:
  assumes "can_open dx pn" "decrypt_in_place (dx_aead dx) pn hs ct = Ok (pt, n)"
  shows "dx_decrypt dx pn (0, length hs) (hs @ ct) = Ok (Inr (opened dx pn, hs @ pt, n))"
  using assms by (simp add: dx_decrypt_def can_open_def invoked_def dx_used_def opened_def u64 Let_def)

lemma opened_no_update: "can_open dx pn \<Longrightarrow> \<not> needs_update (opened dx pn)"
  by (auto simp: can_open_def needs_update_def opened_def u64 max_def split: if_splits)

lemma slot_put_update_time [simp]: "read_update_time (slot_put s slot dx) = read_update_time s"
  by (cases slot) simp_all

lemma packet_decrypt_protect:
  assumes p: "pub_data p = protect bits m f hdr pnb ct" "pub_header_len p = Suc (length hdr)"
      "bits = (if pub_type p = PT_Short then HP_MASK_SHORT else HP_MASK_LONG)"
      "pub_type p \<noteq> PT_Retry" "pub_type p \<noteq> PT_VersionNegotiation"
    and m: "dx_hpkey hdx (take SAMPLE_SIZE (drop (4 - length pnb) ct)) = Ok m" "4 < length m"
    and n: "1 \<le> length pnb" "length pnb \<le> 4" "unat (f AND 3) = length pnb - 1" "20 \<le> length pnb + length ct"
    and ep: "epoch_try_from (pub_type p) = Ok ep" "v = (case public_version p of None \<Rightarrow> Version1 | Some v \<Rightarrow> v)"
    and hp: "rx_hp s0 v ep = Ok (Some hslot, s)" "slot_get s hslot = Some hdx"
    and pn: "unat (decode_pn (word_of_nat (next_pn hdx)) (word_of_nat (be_val pnb)) (length pnb)) = pn"
    and kp: "kp = (pub_type p = PT_Short \<and> f AND BIT_KEY_PHASE = BIT_KEY_PHASE)"
    and rx: "rx s v ep kp = Some slot" "slot_get s slot = Some dx" "can_open dx pn" "read_update_time s = None"
    and dec: "decrypt_in_place (dx_aead dx) pn (f # hdr @ pnb) ct = Ok (pt, len)" "len \<le> length pt"
    and reserved: "f AND (if is_long_type (pub_type p) then 0x0c else 0x18) = 0"
  shows "packet_decrypt N s0 p t =
    Ok (Inr \<lparr>dec_version = dx_version dx, dec_type = pub_type p, dec_pn = pn, dec_data = take len pt,
             dec_dcid = pub_dcid p, dec_scid = pub_scid p, dec_scone = pub_scone p\<rparr>,
        slot_put s slot (opened dx pn))"
proof -
  have hdr: "decrypt_header p hdx = Ok (kp, pn, Suc (length hdr + length pnb), (f # hdr @ pnb) @ ct)"
    using decrypt_header_protect [OF p m n] pn kp by simp
  have hl: "Suc (length hdr + length pnb) = length (f # hdr @ pnb)"
    by simp
  have "dx_decrypt dx pn (0, Suc (length hdr + length pnb)) ((f # hdr @ pnb) @ ct)
    = Ok (Inr (opened dx pn, (f # hdr @ pnb) @ pt, len))"
    unfolding hl by (rule dx_decrypt_ok [OF rx(3) dec(1)])
  moreover have "decrypt_finish N (slot_put s slot (opened dx pn)) p (opened dx pn) pn (Suc (length hdr + length pnb))
      ((f # hdr @ pnb) @ pt) len t
    = Ok (Inr \<lparr>dec_version = dx_version dx, dec_type = pub_type p, dec_pn = pn, dec_data = take len pt,
             dec_dcid = pub_dcid p, dec_scid = pub_scid p, dec_scone = pub_scone p\<rparr>,
        slot_put s slot (opened dx pn))"
    using reserved dec(2) rx(4) opened_no_update [OF rx(3)]
    by (simp add: decrypt_finish_def Let_def check_pn_overlap_def opened_def split: if_splits)
  ultimately show ?thesis
    using hdr ep hp rx(1,2) by (simp add: packet_decrypt_def Let_def)
qed

subsection \<open>Short header packets\<close>

text \<open>A short header packet with one payload, built as the connection does.\<close>

definition short_packet ::
    "bytes encoder \<Rightarrow> bool \<Rightarrow> bytes \<Rightarrow> nat \<Rightarrow> nat \<Rightarrow> nat \<Rightarrow> bytes \<Rightarrow> crypto_dx \<Rightarrow> (bytes encoder \<times> crypto_dx) res"
    where
  "short_packet e kp dcid limit pn pn_len payload dx =
     bind_res (builder_short vec_buffer e kp (Some dcid) limit) (\<lambda>b.
     bind_res (builder_pn vec_buffer b pn pn_len) (\<lambda>b'.
     bind_res (encode vec_buffer (b_enc b') payload) (\<lambda>e'.
       build vec_buffer (b'\<lparr>b_enc := e'\<rparr>) dx)))"

definition short_first :: "bool \<Rightarrow> nat \<Rightarrow> u8" where
  "short_first kp n = (BIT_SHORT OR BIT_FIXED_QUIC OR push_bit 2 (if kp then 1 else 0)) OR word_of_nat (n - 1)"

lemma short_first_bits:
  assumes "1 \<le> n" "n \<le> 4"
  shows "unat (short_first kp n AND 3) = n - 1" "short_first kp n AND 0x80 = 0" "short_first kp n AND 0x18 = 0"
    "(short_first kp n AND BIT_KEY_PHASE = BIT_KEY_PHASE) = kp"
proof -
  have "n = 1 \<or> n = 2 \<or> n = 3 \<or> n = 4" using assms by linarith
  then show "unat (short_first kp n AND 3) = n - 1" "short_first kp n AND 0x80 = 0" "short_first kp n AND 0x18 = 0"
    "(short_first kp n AND BIT_KEY_PHASE = BIT_KEY_PHASE) = kp"
    by (cases kp; auto simp: short_first_def BIT_SHORT_def BIT_FIXED_QUIC_def BIT_KEY_PHASE_def)+
qed

lemma xor_outside: "a AND b = 0 \<Longrightarrow> (f XOR (x AND a)) AND b = f AND (b :: u8)"
  by (simp add: bit.conj_xor_distrib2 and.assoc)

lemma masked_first:
  "(f XOR (x AND HP_MASK_SHORT)) AND (0x80 :: u8) = f AND 0x80" "(f XOR (x AND HP_MASK_LONG)) AND (0x80 :: u8) = f AND 0x80"
  "(f XOR (x AND HP_MASK_LONG)) AND (0x30 :: u8) = f AND 0x30"
  by (simp_all add: xor_outside HP_MASK_SHORT_def HP_MASK_LONG_def)

lemma extra_padding_sum: "16 \<le> extra_padding dx + dx_expansion dx"
  by (simp add: extra_padding_def HP_SAMPLE_SIZE_def)

definition crypto_pad :: "crypto_dx \<Rightarrow> nat \<Rightarrow> nat \<Rightarrow> bytes" where
  "crypto_pad dx pn_len len = replicate (4 + extra_padding dx - (pn_len + len)) 0"

lemma short_packet_build:
  assumes n: "1 \<le> n" "n \<le> 4" and room: "length pk + length dcid + 5 < limit"
      "length pk + 1 + length dcid + n + length payload \<le> limit" and pn: "pn < 2 ^ 64"
  shows "\<exists>b. short_packet (venc pre pk) kp dcid limit pn n payload dx = build_protect vec_buffer b dx
    \<and> holds b pre pk (short_first kp n) dcid (to_be n pn) (payload @ crypto_pad dx n (length payload))
    \<and> b_pn b = pn \<and> off_first_byte_mask b = HP_MASK_SHORT"
proof -
  define g :: u8 where "g = BIT_SHORT OR BIT_FIXED_QUIC OR push_bit 2 (if kp then 1 else 0)"
  have f80: "g AND 0x80 \<noteq> BIT_LONG"
    by (simp add: g_def BIT_SHORT_def BIT_FIXED_QUIC_def BIT_LONG_def)
  let ?b0 = "builder_new (venc pre (pk @ g # dcid)) (length pk) HP_MASK_SHORT limit"
  have b0: "builder_short vec_buffer (venc pre pk) kp (Some dcid) limit = Ok ?b0"
    using room(1) by (simp add: builder_short_def opt_len_def Let_def g_def)
  let ?b1 = "?b0\<lparr>b_enc := venc pre (pk @ short_first kp n # dcid @ to_be n pn),
     off_pn := (length pk + Suc (length dcid), length pk + Suc (length dcid) + n),
     b_header := (length pk, length pk + Suc (length dcid + n)), b_pn := pn\<rparr>"
  have up: "unat (word_of_nat pn :: u64) = pn" using pn by (simp add: unat_of_nat)
  have "\<not> limit - Suc (length pk + length dcid) < 4"
    using room(1) by linarith
  then have "builder_pn vec_buffer ?b0 pn n = write_pn vec_buffer ?b0 pn n"
    using f80
    by (simp add: builder_pn_def builder_remaining_def builder_len_def builder_new_def MAX_PACKET_NUMBER_LEN_def
        builder_is_long_def)
  also have "\<dots> = Ok ?b1"
    using n up by (simp add: write_pn_def Let_def builder_new_def MAX_PACKET_NUMBER_LEN_def short_first_def g_def [symmetric]
        min_absorb2)
  finally have b1: "builder_pn vec_buffer ?b0 pn n = Ok ?b1" .
  let ?c = "pk @ short_first kp n # dcid @ to_be n pn @ payload"
  have len: "length pk + Suc (length dcid) + 4 + extra_padding dx - length ?c
    = 4 + extra_padding dx - (n + length payload)"
    by simp
  let ?b2 = "?b1\<lparr>b_enc := venc pre (?c @ crypto_pad dx n (length payload))\<rparr>"
  have "short_packet (venc pre pk) kp dcid limit pn n payload dx = build_protect vec_buffer ?b2 dx"
    using room(2) unfolding short_packet_def b0 bind_res.simps b1
    by (simp add: build_def pad_for_crypto_def builder_len_def MAX_PACKET_NUMBER_LEN_def crypto_pad_def
        builder_new_def)
  then show ?thesis
    using n by (intro exI [of _ ?b2]) (simp add: holds_def builder_new_def)
qed

lemma unat_ucast_u8 [simp]: "unat (ucast (x :: u8) :: u64) = unat x"
proof -
  have "unat x < 2 ^ 64"
    by (rule order_less_trans [OF unat_u8_less]) simp
  then show ?thesis
    by (simp add: unsigned_ucast_eq take_bit_nat_eq_self)
qed

lemma decode_first:
  "decode_uint (Suc 0) (decoder_new (x # xs)) = Ok (Some (ucast x), \<lparr>dbuf = x # xs, doffset = Suc 0\<rparr>)"
  by (simp add: decode_uint_def decode_n_def decoder_new_def remaining_def)

lemma ucast_ucast_u8 [simp]: "ucast (ucast (x :: u8) :: u64) = x"
  by (rule bit_word_eqI) (simp add: bit_simps)

lemma packet_decode_short:
  assumes "x AND 0x80 = 0" "20 \<le> length rest"
  shows "packet_decode expansion (\<lambda>d. decode d (length dcid)) (x # dcid @ rest) =
    Ok (\<lparr>pub_type = PT_Short, pub_dcid = dcid, pub_scid = None, pub_token = [],
         pub_header_len = Suc (length dcid), pub_version = None, pub_data = x # dcid @ rest, pub_scone = None\<rparr>, [])"
  using assms
  by (simp add: packet_decode_def decode_inner_def decode_round_def decode_first Let_def BIT_SHORT_def decode_def
      remaining_def SAMPLE_OFFSET_def SAMPLE_SIZE_def)

text \<open>A receiver whose current read keys are the other end of \<open>dx\<close>, with \<open>next_pn\<close> close to \<open>pn\<close>.\<close>

definition pn_near :: "nat \<Rightarrow> nat \<Rightarrow> nat \<Rightarrow> bool" where
  "pn_near expected pn n \<longleftrightarrow> expected < pn + 256 ^ n div 2 \<and> pn \<le> expected + 256 ^ n div 2"

definition app_receiver :: "'k crypto_states \<Rightarrow> crypto_dx \<Rightarrow> bool \<Rightarrow> nat \<Rightarrow> nat \<Rightarrow> bool" where
  "app_receiver s dx kp pn n =
     (case app_read s of
        None \<Rightarrow> False
      | Some r \<Rightarrow>
          opens (dx_aead dx) (dx_aead (app_dx r)) \<and> dx_hpkey (app_dx r) = dx_hpkey dx
          \<and> key_phase (app_dx r) = kp \<and> can_open (app_dx r) pn \<and> pn_near (next_pn (app_dx r)) pn n
          \<and> read_update_time s = None
          \<and> (case app_read_next s of None \<Rightarrow> True | Some nx \<Rightarrow> key_phase (app_dx nx) \<noteq> kp))"

lemma short_packet_opens:
  assumes n: "1 \<le> n" "n \<le> 4" and room: "length pk + length dcid + 5 < limit"
      "length pk + 1 + length dcid + n + length payload \<le> limit" "length pk + length payload + 20 \<le> 65535"
    and dx: "can_seal dx pn" "hp_ok (dx_hpkey dx)" and rcv: "app_receiver s dx kp pn n"
  shows "\<exists>out dx' p d s'.
    short_packet (venc pre pk) kp dcid limit pn n payload dx = Ok (venc pre (pk @ out), dx')
    \<and> next_pn dx' = pn + 1
    \<and> packet_decode expansion (\<lambda>d. decode d (length dcid)) out = Ok (p, []) \<and> pub_dcid p = dcid
    \<and> packet_decrypt N s p t = Ok (Inr d, s') \<and> dec_pn d = pn
    \<and> dec_data d = payload @ crypto_pad dx n (length payload)"
proof -
  obtain r where r: "app_read s = Some r" "opens (dx_aead dx) (dx_aead (app_dx r))"
    "dx_hpkey (app_dx r) = dx_hpkey dx" "key_phase (app_dx r) = kp" "can_open (app_dx r) pn"
    "pn_near (next_pn (app_dx r)) pn n" "read_update_time s = None"
    "case app_read_next s of None \<Rightarrow> True | Some nx \<Rightarrow> key_phase (app_dx nx) \<noteq> kp"
    using rcv by (auto simp: app_receiver_def split: option.splits)
  have pn62: "pn < 2 ^ 62" "next_pn (app_dx r) < 2 ^ 62"
    using r(5) by (simp_all add: can_open_def next_pn_def)
  then have pn64: "pn < 2 ^ 64" by simp
  let ?body = "payload @ crypto_pad dx n (length payload)"
  obtain b where b: "short_packet (venc pre pk) kp dcid limit pn n payload dx = build_protect vec_buffer b dx"
    "holds b pre pk (short_first kp n) dcid (to_be n pn) ?body" "b_pn b = pn"
    "off_first_byte_mask b = HP_MASK_SHORT"
    using short_packet_build [OF n room(1,2) pn64] by blast
  have size: "length pk + length ?body \<le> 65535" "4 + 16 \<le> length (to_be n pn) + length ?body + dx_expansion dx"
    using room(3) n extra_padding_sum [of dx]
    by (simp_all add: crypto_pad_def extra_padding_def HP_SAMPLE_SIZE_def)
  obtain ct pt m dx' where bp:
    "build_protect vec_buffer b dx = Ok (venc pre (pk @ protect HP_MASK_SHORT m (short_first kp n) dcid (to_be n pn) ct), dx')"
    "length ct = length ?body + dx_expansion dx"
    "decrypt_in_place (dx_aead (app_dx r)) pn (short_first kp n # dcid @ to_be n pn) ct = Ok (pt, length ?body)"
    "length pt = length ct" "take (length ?body) pt = ?body"
    "dx_hpkey dx (take SAMPLE_SIZE (drop (4 - length (to_be n pn)) ct)) = Ok m" "4 < length m"
    "next_pn dx' = max (u64_add pn 1) pn"
    using build_protect_venc [OF b(2) _ r(2) dx(2) size] dx(1) unfolding b(3,4) by blast
  let ?out = "protect HP_MASK_SHORT m (short_first kp n) dcid (to_be n pn) ct"
  let ?p = "\<lparr>pub_type = PT_Short, pub_dcid = dcid, pub_scid = None, pub_token = [],
    pub_header_len = Suc (length dcid), pub_version = None, pub_data = ?out, pub_scone = None\<rparr>"
  have ct20: "20 \<le> n + length ct"
    using bp(2) size(2) by simp
  have dec: "packet_decode expansion (\<lambda>d. decode d (length dcid)) ?out = Ok (?p, [])"
  proof -
    have "min n (length m - Suc 0) = n"
      using n bp(7) by simp
    then show ?thesis
      unfolding protect_def using ct20 n
      by (subst packet_decode_short) (simp_all add: masked_first short_first_bits min.commute)
  qed
  have pn: "unat (decode_pn (word_of_nat (next_pn (app_dx r))) (word_of_nat (be_val (to_be n pn))) n) = pn"
    using decode_pn_window [OF n pn62(2), of pn] r(6) by (simp add: be_val_to_be pn_near_def)
  have rx: "rx s Version1 Epoch_ApplicationData kp = Some Slot_AppRead"
    using r(1,4,8) by (auto simp: rx_def split: option.splits)
  have "packet_decrypt N s ?p t = Ok (Inr \<lparr>dec_version = dx_version (app_dx r), dec_type = PT_Short, dec_pn = pn,
      dec_data = take (length ?body) pt, dec_dcid = dcid, dec_scid = None, dec_scone = None\<rparr>,
    slot_put s Slot_AppRead (opened (app_dx r) pn))"
    using packet_decrypt_protect [of ?p HP_MASK_SHORT m "short_first kp n" dcid "to_be n pn" ct "app_dx r"
        Epoch_ApplicationData Version1 s Slot_AppRead s pn kp Slot_AppRead "app_dx r" pt "length ?body" N t]
      n r bp rx pn ct20 short_first_bits [OF n] size
    by (simp add: public_version_def rx_hp_def)
  then show ?thesis
    using b(1) bp dec pn62(1) by (fastforce simp: u64)
qed

subsection \<open>Long header packets\<close>

definition long_packet ::
    "bytes encoder \<Rightarrow> packet_type \<Rightarrow> version \<Rightarrow> bytes \<Rightarrow> bytes \<Rightarrow> bytes \<Rightarrow> nat \<Rightarrow> nat \<Rightarrow> nat \<Rightarrow> bytes \<Rightarrow> crypto_dx
      \<Rightarrow> (bytes encoder \<times> crypto_dx) res" where
  "long_packet e pt v dcid scid token limit pn pn_len payload dx =
     bind_res (builder_long vec_buffer e pt v (Some dcid) (Some scid) limit) (\<lambda>b0.
     bind_res (if pt = PT_Initial then initial_token vec_buffer b0 token else Ok b0) (\<lambda>b.
     bind_res (builder_pn vec_buffer b pn pn_len) (\<lambda>b'.
     bind_res (encode vec_buffer (b_enc b') payload) (\<lambda>e'.
       build vec_buffer (b'\<lparr>b_enc := e'\<rparr>) dx))))"

definition long_first :: "packet_type \<Rightarrow> version \<Rightarrow> nat \<Rightarrow> u8" where
  "long_first pt v n =
     (BIT_LONG OR BIT_FIXED_QUIC OR push_bit 4 ((packet_type_repr pt + (if v = Version2 then 1 else 0)) AND 3))
       OR word_of_nat (n - 1)"

definition cids_bytes :: "version \<Rightarrow> bytes \<Rightarrow> bytes \<Rightarrow> bytes" where
  "cids_bytes v dcid scid =
     to_be 4 (unat (wire_version v)) @ to_be 1 (length dcid) @ dcid @ to_be 1 (length scid) @ scid"

definition token_bytes :: "packet_type \<Rightarrow> bytes \<Rightarrow> bytes" where
  "token_bytes pt token = (if pt = PT_Initial then varint_bytes (length token) @ token else [])"

definition len_bytes :: "nat \<Rightarrow> bytes" where
  "len_bytes len = [0x40 OR word_of_nat (drop_bit 8 len AND 0x3f), word_of_nat (len AND 0xff)]"

lemma long_first_bits:
  assumes "1 \<le> n" "n \<le> 4" "is_long_type pt"
  shows "unat (long_first pt v n AND 3) = n - 1" "long_first pt v n AND 0x80 = 0x80" "long_first pt v n AND 0x0c = 0"
    "from_byte (drop_bit 4 (long_first pt v n) AND 3) v = Ok pt"
proof -
  have "n = 1 \<or> n = 2 \<or> n = 3 \<or> n = 4" using assms by linarith
  then show "unat (long_first pt v n AND 3) = n - 1" "long_first pt v n AND 0x80 = 0x80" "long_first pt v n AND 0x0c = 0"
    "from_byte (drop_bit 4 (long_first pt v n) AND 3) v = Ok pt"
    using assms(3)
    by (cases pt; cases v; auto simp: long_first_def BIT_LONG_def BIT_FIXED_QUIC_def from_byte_def)+
qed

lemma drop_bit_4: "drop_bit 4 x AND 3 = drop_bit 4 (x AND (0x30 :: u8))"
  by (simp add: drop_bit_and)

lemma venc_encode_vvec [simp]:
  "length d < 2 ^ 62 \<Longrightarrow>
   encode_vvec vec_buffer (venc pre c) d = Ok (venc pre (c @ varint_bytes (length d) @ d))"
  by (simp add: encode_vvec_def encode_len_def encode_varint_eq unat_of_nat)

lemma unat_wire_version: "unat (ucast (wire_version v) :: u64) = unat (wire_version v)"
  by (cases v) simp_all

lemma builder_long_venc:
  assumes "is_long_type pt" "length pk + 11 + length dcid + length scid < limit" "length dcid \<le> 20" "length scid \<le> 20"
  shows "builder_long vec_buffer (venc pre pk) pt v (Some dcid) (Some scid) limit
    = Ok (builder_new (venc pre (pk @ long_first pt v 1 # cids_bytes v dcid scid)) (length pk) HP_MASK_LONG limit)"
  using assms
  by (simp add: builder_long_def opt_len_def opt_bytes_def Let_def to_byte_def unat_wire_version cids_bytes_def
      long_first_def del: to_be.simps)

lemma initial_token_venc:
  assumes "b_enc b = venc pre c" "length token < 2 ^ 62" "length c + varint_size (length token) + length token < b_limit b"
  shows "initial_token vec_buffer b token = Ok (b\<lparr>b_enc := venc pre (c @ varint_bytes (length token) @ token)\<rparr>)"
  using assms
  by (simp add: initial_token_def vvec_len_def varint_len_size builder_remaining_def builder_len_def less_diff_conv)

lemma builder_pn_long:
  assumes n: "1 \<le> n" "n \<le> 4" and b: "b_enc b = venc pre (pk @ f # hdr)" "b_header b = (length pk, x)"
    and f: "f AND 0x80 = BIT_LONG" and room: "length pk + length hdr + 7 \<le> b_limit b" and pn: "pn < 2 ^ 64"
  shows "builder_pn vec_buffer b pn n = Ok (b\<lparr>
    b_enc := venc pre (pk @ (f OR word_of_nat (n - 1)) # hdr @ [0, 0] @ to_be n pn),
    off_len := length pk + Suc (length hdr),
    off_pn := (length pk + length hdr + 3, length pk + length hdr + 3 + n),
    b_header := (length pk, length pk + length hdr + 3 + n), b_pn := pn\<rparr>)"
proof -
  have up: "unat (word_of_nat pn :: u64) = pn" using pn by (simp add: unat_of_nat)
  have rem: "\<not> b_limit b - Suc (length pk + length hdr) < 4" "\<not> b_limit b - Suc (length pk + length hdr) < 6"
    using room by linarith+
  have rep: "replicate 2 (0 :: u8) = [0, 0]"
    by (simp add: numeral_eq_Suc)
  show ?thesis
    using n f rem b(2) up
    by (simp add: builder_pn_def builder_remaining_def builder_len_def b(1) builder_is_long_def write_pn_def Let_def
        MAX_PACKET_NUMBER_LEN_def LONG_PACKET_LENGTH_LEN_def rep)
qed

lemma write_len_venc:
  assumes "b_enc b = venc pre (pk @ f # hdr @ [x, y] @ rest)" "off_len b = length pk + Suc (length hdr)"
  shows "write_len vec_buffer b expansion =
    Ok (b\<lparr>b_enc := venc pre (pk @ f # hdr @ len_bytes (length rest + expansion) @ rest)\<rparr>)"
  using assms
  by (simp add: write_len_def Let_def LONG_PACKET_LENGTH_LEN_def len_bytes_def list_update_append)

definition long_room :: "bytes \<Rightarrow> packet_type \<Rightarrow> version \<Rightarrow> bytes \<Rightarrow> bytes \<Rightarrow> bytes \<Rightarrow> nat \<Rightarrow> nat \<Rightarrow> bytes \<Rightarrow> bool" where
  "long_room pk pt v dcid scid token limit n payload \<longleftrightarrow>
     1 \<le> n \<and> n \<le> 4 \<and> is_long_type pt \<and> length dcid \<le> 20 \<and> length scid \<le> 20 \<and> length token < 2 ^ 62
     \<and> length pk + 3 + length (cids_bytes v dcid scid) + length (token_bytes pt token) + max 4 (n + length payload) \<le> limit"

lemma build_long:
  "builder_len B b \<le> b_limit b \<Longrightarrow> pad_for_crypto B b dx = Ok b2 \<Longrightarrow> 0 < off_len b2 \<Longrightarrow>
   write_len B b2 (dx_expansion dx) = Ok b3 \<Longrightarrow> build B b dx = build_protect B b3 dx"
  by (simp add: build_def)

lemma long_packet_build:
  fixes dx :: crypto_dx
  assumes room: "long_room pk pt v dcid scid token limit n payload" and pn: "pn < 2 ^ 64"
  defines "body \<equiv> payload @ crypto_pad dx n (length payload)"
  shows "\<exists>b. long_packet (venc pre pk) pt v dcid scid token limit pn n payload dx = build_protect vec_buffer b dx
    \<and> holds b pre pk (long_first pt v n)
        (cids_bytes v dcid scid @ token_bytes pt token @ len_bytes (n + length body + dx_expansion dx)) (to_be n pn) body
    \<and> b_pn b = pn \<and> off_first_byte_mask b = HP_MASK_LONG"
proof -
  have n: "1 \<le> n" "n \<le> 4" and lt: "is_long_type pt" and r: "length dcid \<le> 20" "length scid \<le> 20" "length token < 2 ^ 62"
    and lim: "length pk + 3 + length (cids_bytes v dcid scid) + length (token_bytes pt token) + max 4 (n + length payload) \<le> limit"
    using room by (simp_all add: long_room_def)
  have cl: "length (cids_bytes v dcid scid) = 6 + length dcid + length scid"
    by (simp add: cids_bytes_def)
  define h where "h = cids_bytes v dcid scid @ token_bytes pt token"
  let ?b0 = "builder_new (venc pre (pk @ long_first pt v 1 # cids_bytes v dcid scid)) (length pk) HP_MASK_LONG limit"
  have b0: "builder_long vec_buffer (venc pre pk) pt v (Some dcid) (Some scid) limit = Ok ?b0"
    using lim cl r lt by (intro builder_long_venc) simp_all
  let ?bt = "builder_new (venc pre (pk @ long_first pt v 1 # h)) (length pk) HP_MASK_LONG limit"
  have bt: "(if pt = PT_Initial then initial_token vec_buffer ?b0 token else Ok ?b0) = Ok ?bt"
    using initial_token_venc [of ?b0 pre "pk @ long_first pt v 1 # cids_bytes v dcid scid" token] r(3) lim
    by (cases "pt = PT_Initial") (simp_all add: builder_new_def token_bytes_def h_def)
  have first: "long_first pt v 1 OR word_of_nat (n - 1) = long_first pt v n"
    by (simp add: long_first_def)
  let ?b1 = "?bt\<lparr>b_enc := venc pre (pk @ long_first pt v n # h @ [0, 0] @ to_be n pn), off_len := length pk + Suc (length h),
    off_pn := (length pk + length h + 3, length pk + length h + 3 + n),
    b_header := (length pk, length pk + length h + 3 + n), b_pn := pn\<rparr>"
  have b1: "builder_pn vec_buffer ?bt pn n = Ok ?b1"
    unfolding first [symmetric]
    by (rule builder_pn_long) (use n pn lim lt long_first_bits [of 1 pt v] in \<open>simp_all add: builder_new_def h_def BIT_LONG_def\<close>)
  let ?b2 = "?b1\<lparr>b_enc := venc pre (pk @ long_first pt v n # h @ [0, 0] @ to_be n pn @ body)\<rparr>"
  let ?b3 = "?b1\<lparr>b_enc := venc pre (pk @ long_first pt v n # h @ len_bytes (n + length body + dx_expansion dx)
    @ to_be n pn @ body)\<rparr>"
  have w: "write_len vec_buffer ?b2 (dx_expansion dx) = Ok ?b3"
    using write_len_venc [of ?b2 pre pk "long_first pt v n" h 0 0 "to_be n pn @ body" "dx_expansion dx"] by simp
  let ?bp = "?b1\<lparr>b_enc := venc pre (pk @ long_first pt v n # h @ [0, 0] @ to_be n pn @ payload)\<rparr>"
  have pad: "pad_for_crypto vec_buffer ?bp dx = Ok ?b2"
    by (simp add: pad_for_crypto_def body_def crypto_pad_def MAX_PACKET_NUMBER_LEN_def)
  have "builder_len vec_buffer ?bp \<le> b_limit ?bp"
    using lim by (simp add: builder_len_def builder_new_def h_def)
  then have "build vec_buffer ?bp dx = build_protect vec_buffer ?b3 dx"
    by (rule build_long [OF _ pad _ w]) simp
  then have "long_packet (venc pre pk) pt v dcid scid token limit pn n payload dx = build_protect vec_buffer ?b3 dx"
    unfolding long_packet_def b0 bind_res.simps bt b1 by simp
  moreover have "holds ?b3 pre pk (long_first pt v n) (h @ len_bytes (n + length body + dx_expansion dx)) (to_be n pn) body"
    using n by (simp add: holds_def builder_new_def len_bytes_def)
  ultimately show ?thesis
    by (intro exI [of _ ?b3]) (simp add: h_def builder_new_def)
qed

lemma len_bytes_be:
  assumes "len < 2 ^ 14"
  shows "len_bytes len = to_be 2 (len + 1 * 2 ^ 14)"
proof -
  have d: "len div 256 < 2 ^ 6"
    using assms by simp
  have "drop_bit 8 len AND 0x3f = len div 256" "len AND 0xff = len mod 256"
    using take_bit_eq_mask [of 6 "len div 256"] take_bit_eq_mask [of 8 len] d
    by (simp_all add: drop_bit_eq_div mask_eq_exp_minus_1 take_bit_nat_eq_self take_bit_eq_mod)
  moreover have "(0x40 OR word_of_nat (len div 256) :: u8) = word_of_nat (64 + len div 256)"
  proof (rule word_eq_of_nat)
    have "64 OR len div 256 = 64 + len div 256"
      using or_shifted [OF d, of 1] by (simp add: or.commute)
    moreover have "unat (0x40 :: u8) = 64" "unat (word_of_nat (len div 256) :: u8) = len div 256"
      using d by (simp_all add: unat_of_nat)
    ultimately show "unat (0x40 OR word_of_nat (len div 256) :: u8) = 64 + len div 256"
      by (simp only: unsigned_or_eq)
  qed
  moreover have "(word_of_nat (len mod 256) :: u8) = word_of_nat (len + 1 * 2 ^ 14)"
    using mod_mult_self1 [of len 64 256] by (simp only: word_of_nat_eq_iff take_bit_eq_mod) simp
  moreover have "(len + 1 * 2 ^ 14) div 256 = 64 + len div 256"
    using div_mult_self1 [of 256 len 64] by simp
  moreover have "to_be 2 w = [word_of_nat (w div 256), word_of_nat w]" for w
    by (simp add: numeral_2_eq_2)
  ultimately show ?thesis
    by (simp only: len_bytes_def)
qed

lemma dcur_len:
  assumes "len < 2 ^ 14"
  shows "decode_varint (dcur pre (len_bytes len @ rest)) = (Some (word_of_nat len), dcur (pre @ len_bytes len) rest)"
proof -
  have "varint_spec (len_bytes len @ rest) = Some (len, 2)"
    unfolding len_bytes_be [OF assms] using assms by (intro varint_spec_tagged) simp_all
  moreover have "wf_decoder (dcur pre (len_bytes len @ rest))"
    by (simp add: wf_decoder_def dcur_def)
  ultimately show ?thesis
    using decode_varint_spec [of "dcur pre (len_bytes len @ rest)"]
    by (simp add: dcur_def decoder_as_ref_def len_bytes_def)
qed

lemma dcur_u32:
  "v < 2 ^ 32 \<Longrightarrow> decode_uint 4 (dcur pre (to_be 4 v @ rest)) = Ok (Some (word_of_nat v), dcur (pre @ to_be 4 v) rest)"
  using decode_n_bytes [of 4 v pre rest]
  by (simp add: dcur_def decode_uint_def unat_of_nat del: to_be.simps)

lemma decode_first_dcur: "decode_uint 1 (decoder_new (x # xs)) = Ok (Some (ucast x), dcur [x] xs)"
  using decode_first [of x xs] by (simp add: dcur_def)

lemma decode_long_bytes:
  assumes "is_long_type pt" "pt \<noteq> PT_Retry" "len < 2 ^ 14" "length body = len" "length token < 2 ^ 62"
  shows "decode_long expansion (dcur pre (token_bytes pt token @ len_bytes len @ body @ tail)) pt v
    = Ok (if pt = PT_Initial then token else [], length (pre @ token_bytes pt token @ len_bytes len),
          dcur (pre @ token_bytes pt token @ len_bytes len @ body) tail)"
proof -
  have u: "unat (word_of_nat len :: u64) = len"
    using assms(3) by (simp add: unat_of_nat)
  have tok: "d_opt (decode_vvec (dcur pre (varint_bytes (length token) @ token @ xs)))
    = Ok (token, dcur (pre @ varint_bytes (length token) @ token) xs)" for xs
    using decode_vvec_bytes [OF assms(5), of pre xs] by (simp add: dcur_def add.assoc)
  have body: "d_opt (decode (dcur p (body @ tail)) len) = Ok (body, dcur (p @ body) tail)" for p
    using assms(4) by (auto simp: dcur_def decode_take)
  show ?thesis
    using assms(2) by (cases "pt = PT_Initial") (simp_all add: decode_long_def token_bytes_def tok dcur_len [OF assms(3)] u body)
qed

lemma packet_decode_long:
  assumes "x AND 0x80 = 0x80" "from_byte (drop_bit 4 x AND 3) v = Ok pt" "is_long_type pt" "pt \<noteq> PT_Retry"
    "len < 2 ^ 14" "length body = len" "length token < 2 ^ 62" "length dcid \<le> 20" "length scid \<le> 20"
  defines "out \<equiv> x # (cids_bytes v dcid scid @ token_bytes pt token @ len_bytes len) @ body"
  shows "packet_decode expansion decode_cid (out @ tail) =
    Ok (\<lparr>pub_type = pt, pub_dcid = dcid, pub_scid = Some scid, pub_token = if pt = PT_Initial then token else [],
         pub_header_len = Suc (length (cids_bytes v dcid scid @ token_bytes pt token @ len_bytes len)),
         pub_version = Some (wire_version v), pub_data = out, pub_scone = None\<rparr>, tail)"
proof -
  let ?w = "wire_version v"
  have w: "unat ?w < 2 ^ 32" "(ucast (word_of_nat (unat ?w) :: u64) :: u32) = ?w"
    by (cases v; simp)+
  define rest where "rest = token_bytes pt token @ len_bytes len @ body @ tail"
  have o: "out @ tail = x # to_be 4 (unat ?w) @ to_be 1 (length dcid) @ dcid @ to_be 1 (length scid) @ scid @ rest"
    by (simp add: out_def rest_def cids_bytes_def)
  let ?pre = "x # cids_bytes v dcid scid"
  have dl: "decode_long expansion (dcur ?pre rest) pt v
    = Ok (if pt = PT_Initial then token else [], length (?pre @ token_bytes pt token @ len_bytes len), dcur out tail)"
    using decode_long_bytes [OF assms(3,4,5,6,7), of expansion ?pre tail v] by (simp add: rest_def out_def)
  have v1: "length d \<le> 20 \<Longrightarrow> decode_vec (dcur p (to_be 1 (length d) @ d @ r)) 1
    = Ok (Some d, dcur (p @ to_be 1 (length d) @ d) r)" for d p r
    by (rule dcur_vec1) simp
  have pre: "(([x] @ to_be 4 (unat ?w)) @ to_be 1 (length dcid) @ dcid) @ to_be 1 (length scid) @ scid = ?pre"
    by (simp add: cids_bytes_def)
  have short: "x AND 0x80 \<noteq> BIT_SHORT"
    using assms(1) by (simp add: BIT_SHORT_def)
  have max: "\<not> (CID_MAX_LEN < length dcid \<or> CID_MAX_LEN < length scid)"
    using assms(8,9) by (simp add: CID_MAX_LEN_def)
  have cut: "take (doffset (dcur out tail)) (out @ tail) = out" "drop (doffset (dcur out tail)) (out @ tail) = tail"
    by simp_all
  have "decode_round expansion decode_cid False (out @ tail) None = Ok (Inr
    (\<lparr>pub_type = pt, pub_dcid = dcid, pub_scid = Some scid, pub_token = if pt = PT_Initial then token else [],
      pub_header_len = length (?pre @ token_bytes pt token @ len_bytes len),
      pub_version = Some ?w, pub_data = out, pub_scone = None\<rparr>, tail))"
    unfolding decode_round_def decode_generic_long_def using short max
    by (simp only: o decode_first_dcur bind_res.simps d_opt.simps prod.case Let_def ucast_ucast_u8 if_False
        dcur_u32 [OF w(1)] v1 [OF assms(8)] v1 [OF assms(9)] w(2) wire_version_not_special simp_thms
        version_try_from_wire res.case assms(2) pre dl cut [unfolded o])
  then show ?thesis
    by (simp add: packet_decode_def decode_inner_def)
qed

text \<open>A receiver that has, for this version and epoch, the keys of the other end of \<open>dx\<close>.\<close>

definition long_receiver :: "'k crypto_states \<Rightarrow> crypto_dx \<Rightarrow> version \<Rightarrow> epoch \<Rightarrow> nat \<Rightarrow> nat \<Rightarrow> bool" where
  "long_receiver s dx v ep pn n =
     (case rx_hp s v ep of
        Ok (Some slot, s') \<Rightarrow>
          (case slot_get s' slot of
             None \<Rightarrow> False
           | Some rdx \<Rightarrow>
               rx s' v ep False = Some slot \<and> opens (dx_aead dx) (dx_aead rdx) \<and> dx_hpkey rdx = dx_hpkey dx
               \<and> can_open rdx pn \<and> pn_near (next_pn rdx) pn n \<and> read_update_time s' = None)
      | _ \<Rightarrow> False)"

lemma long_receiverE:
  assumes "long_receiver s dx v ep pn n"
  obtains slot s' rdx where "rx_hp s v ep = Ok (Some slot, s')" "slot_get s' slot = Some rdx"
    "rx s' v ep False = Some slot" "opens (dx_aead dx) (dx_aead rdx)" "dx_hpkey rdx = dx_hpkey dx"
    "can_open rdx pn" "pn_near (next_pn rdx) pn n" "read_update_time s' = None"
  using assms by (auto simp: long_receiver_def split: res.splits option.splits)

lemma long_packet_opens:
  assumes room: "long_room pk pt v dcid scid token limit n payload" "length pk + length payload + 20 \<le> 65535"
      "length payload + dx_expansion dx + 24 < 2 ^ 14"
    and pt: "pt \<noteq> PT_Retry" "epoch_try_from pt = Ok ep"
    and dx: "can_seal dx pn" "hp_ok (dx_hpkey dx)" and rcv: "long_receiver s dx v ep pn n"
  shows "\<exists>out dx' p d s'.
    long_packet (venc pre pk) pt v dcid scid token limit pn n payload dx = Ok (venc pre (pk @ out), dx')
    \<and> next_pn dx' = pn + 1
    \<and> packet_decode expansion decode_cid (out @ tail) = Ok (p, tail)
    \<and> pub_type p = pt \<and> pub_dcid p = dcid \<and> pub_scid p = Some scid \<and> pub_token p = (if pt = PT_Initial then token else [])
    \<and> packet_decrypt N s p t = Ok (Inr d, s') \<and> dec_pn d = pn
    \<and> dec_data d = payload @ crypto_pad dx n (length payload)"
proof -
  obtain slot s1 rdx where r: "rx_hp s v ep = Ok (Some slot, s1)" "slot_get s1 slot = Some rdx"
    "rx s1 v ep False = Some slot" "opens (dx_aead dx) (dx_aead rdx)" "dx_hpkey rdx = dx_hpkey dx"
    "can_open rdx pn" "pn_near (next_pn rdx) pn n" "read_update_time s1 = None"
    using rcv by (rule long_receiverE)
  have n: "1 \<le> n" "n \<le> 4" and lt: "is_long_type pt" and ids: "length dcid \<le> 20" "length scid \<le> 20" "length token < 2 ^ 62"
    using room(1) by (simp_all add: long_room_def)
  have pn62: "pn < 2 ^ 62" "next_pn rdx < 2 ^ 62"
    using r(6) by (simp_all add: can_open_def next_pn_def)
  then have pn64: "pn < 2 ^ 64" by simp
  define body where "body = payload @ crypto_pad dx n (length payload)"
  define h where "h = cids_bytes v dcid scid @ token_bytes pt token @ len_bytes (n + length body + dx_expansion dx)"
  let ?f = "long_first pt v n" and ?pnb = "to_be n pn"
  obtain b where b: "long_packet (venc pre pk) pt v dcid scid token limit pn n payload dx = build_protect vec_buffer b dx"
    "holds b pre pk ?f h ?pnb body" "b_pn b = pn" "off_first_byte_mask b = HP_MASK_LONG"
    using long_packet_build [OF room(1) pn64, of pre dx] unfolding h_def body_def by blast
  have size: "length pk + length body \<le> 65535" "4 + 16 \<le> length ?pnb + length body + dx_expansion dx"
    "n + length body + dx_expansion dx < 2 ^ 14"
    using room(2,3) n extra_padding_sum [of dx]
    by (simp_all add: body_def crypto_pad_def extra_padding_def HP_SAMPLE_SIZE_def)
  obtain ct pt' m dx' where bp:
    "build_protect vec_buffer b dx = Ok (venc pre (pk @ protect HP_MASK_LONG m ?f h ?pnb ct), dx')"
    "length ct = length body + dx_expansion dx"
    "decrypt_in_place (dx_aead rdx) pn (?f # h @ ?pnb) ct = Ok (pt', length body)"
    "length pt' = length ct" "take (length body) pt' = body"
    "dx_hpkey dx (take SAMPLE_SIZE (drop (4 - length ?pnb) ct)) = Ok m" "4 < length m"
    "next_pn dx' = max (u64_add pn 1) pn"
    using build_protect_venc [OF b(2) _ r(4) dx(2) size(1,2)] dx(1) unfolding b(3,4) by blast
  let ?out = "protect HP_MASK_LONG m ?f h ?pnb ct"
  let ?p = "\<lparr>pub_type = pt, pub_dcid = dcid, pub_scid = Some scid, pub_token = if pt = PT_Initial then token else [],
    pub_header_len = Suc (length h), pub_version = Some (wire_version v), pub_data = ?out, pub_scone = None\<rparr>"
  let ?x = "?f XOR (m ! 0 AND HP_MASK_LONG)" and ?body = "xor_bytes ?pnb (take n (drop 1 m)) @ ct"
  have lb: "length ?body = n + length body + dx_expansion dx"
    using n bp(2,7) by simp
  have x: "?x AND 0x80 = 0x80" "from_byte (drop_bit 4 ?x AND 3) v = Ok pt"
    using long_first_bits(2,4) [OF n lt, of v] unfolding masked_first(2) drop_bit_4 masked_first(3) by blast+
  have dec: "packet_decode expansion decode_cid (?out @ tail) = Ok (?p, tail)"
    using packet_decode_long [OF x lt pt(1) size(3) lb ids(3,1,2), of expansion decode_cid tail]
    by (simp add: protect_def h_def)
  have pn: "unat (decode_pn (word_of_nat (next_pn rdx)) (word_of_nat (be_val ?pnb)) n) = pn"
    using decode_pn_window [OF n pn62(2), of pn] r(7) by (simp add: be_val_to_be pn_near_def)
  have ns: "pt \<noteq> PT_Short" "pt \<noteq> PT_VersionNegotiation"
    using lt by auto
  have "packet_decrypt N s ?p t = Ok (Inr \<lparr>dec_version = dx_version rdx, dec_type = pt, dec_pn = pn,
      dec_data = take (length body) pt', dec_dcid = dcid, dec_scid = Some scid, dec_scone = None\<rparr>,
    slot_put s1 slot (opened rdx pn))"
    using packet_decrypt_protect [of ?p HP_MASK_LONG m ?f h ?pnb ct rdx ep v s slot s1 pn False slot rdx pt' "length body" N t]
      n r bp pn pt ns lt long_first_bits [OF n lt] size
    by (simp add: public_version_def)
  then show ?thesis
    using b(1) bp dec pn62(1) by (fastforce simp: u64 body_def)
qed

subsection \<open>Properties\<close>

text \<open>Keys over a binding that seals nothing and masks with the sample itself, for concrete runs.\<close>

definition plain_dx :: "direction \<Rightarrow> nat \<Rightarrow> crypto_dx" where
  "plain_dx dir ep = \<lparr>dx_version = Version1, dx_direction = dir, dx_epoch = ep, dx_aead = null_aead, dx_hpkey = Ok,
     used_pn = (0, 0), min_pn = 0, invocations = 2 ^ 20, largest_packet_len = INITIAL_LARGEST_PACKET_LEN\<rparr>"

definition plain_app :: "nat crypto_states" where
  "plain_app = crypto_states_default\<lparr>
     app_read := Some \<lparr>app_dx = plain_dx Dir_Read 3, app_cipher = TLS_AES_128_GCM_SHA256, next_secret = 0\<rparr>\<rparr>"

definition plain_handshake :: "nat crypto_states" where
  "plain_handshake = crypto_states_default\<lparr>handshake := Some \<lparr>cs_tx = plain_dx Dir_Write 2, cs_rx = plain_dx Dir_Read 2\<rparr>\<rparr>"

lemma null_expansion: "aead_expansion null_aead = 16"
  by (simp add: null_aead_def)

lemma null_aead_opens: "opens null_aead null_aead"
  by (simp add: opens_def null_aead_def)

lemma plain_dx_simps [simp]:
  "can_seal (plain_dx Dir_Write ep) 0" "hp_ok Ok"
  "opens (dx_aead (plain_dx dir ep)) (dx_aead (plain_dx dir' ep'))"
  "dx_expansion (plain_dx dir ep) = 16" "dx_hpkey (plain_dx dir ep) = Ok" "dx_epoch (plain_dx dir ep) = ep"
  "ep \<le> 3 \<Longrightarrow> can_open (plain_dx Dir_Read ep) 0" "next_pn (plain_dx dir ep) = 0"
  by (simp_all add: can_seal_def plain_dx_def hp_ok_def SAMPLE_SIZE_def null_aead_opens dx_expansion_def next_pn_def
      can_open_def null_expansion)

text \<open>
  C26: Packet numbers survive truncation. For any width of 1 to 4 bytes, the low bytes of a packet number that is less than half a
  window below, and at most half a window above, the one the receiver expects give back the whole number.
\<close>

theorem packet_number_recovery:
  assumes "1 \<le> w" "w \<le> 4" "expected < 2 ^ 62"
    and "expected < pn + 256 ^ w div 2" "pn \<le> expected + 256 ^ w div 2"
  shows "unat (decode_pn (word_of_nat expected) (word_of_nat (pn mod 256 ^ w)) w) = pn"
  by (rule decode_pn_window [OF assms])

theorem packet_number_recovery_witness:
  "unat (decode_pn (word_of_nat 0xa82f30eb) (word_of_nat (0xa82f9b32 mod 256 ^ 2)) 2) = 0xa82f9b32"
  by (rule packet_number_recovery) simp_all

text \<open>
  C3: Short header packets round-trip. Building a packet behind whatever the encoder already holds succeeds when it fits the limit, uses up one
  packet number, and appends bytes from which a receiver with matching keys recovers the connection ID,
  the packet number and the payload (followed by the PADDING that header protection needs).
\<close>

theorem short_packet_roundtrip:
  assumes "estart e \<le> length (ebuf e)" "1 \<le> n" "n \<le> 4" "enc_len vec_buffer e + length dcid + 5 < limit"
    "enc_len vec_buffer e + 1 + length dcid + n + length payload \<le> limit"
    "enc_len vec_buffer e + length payload + 20 \<le> 65535"
    "can_seal dx pn" "hp_ok (dx_hpkey dx)" "app_receiver s dx kp pn n"
  shows "\<exists>e' out dx' p d s'.
    short_packet e kp dcid limit pn n payload dx = Ok (e', dx')
    \<and> enc_as_ref vec_buffer e' = enc_as_ref vec_buffer e @ out \<and> next_pn dx' = pn + 1
    \<and> packet_decode expansion (\<lambda>d. decode d (length dcid)) out = Ok (p, []) \<and> pub_dcid p = dcid
    \<and> packet_decrypt N s p t = Ok (Inr d, s') \<and> dec_pn d = pn
    \<and> dec_data d = payload @ crypto_pad dx n (length payload)"
proof -
  let ?pk = "enc_as_ref vec_buffer e" and ?pre = "take (estart e) (ebuf e)"
  have e: "e = venc ?pre ?pk"
    using assms(1) by (rule venc_of)
  have len: "enc_len vec_buffer e = length ?pk"
    by (simp add: vec_enc_simps)
  obtain out dx' p d s' where
    "short_packet (venc ?pre ?pk) kp dcid limit pn n payload dx = Ok (venc ?pre (?pk @ out), dx')"
    "next_pn dx' = pn + 1" "packet_decode expansion (\<lambda>d. decode d (length dcid)) out = Ok (p, [])" "pub_dcid p = dcid"
    "packet_decrypt N s p t = Ok (Inr d, s')" "dec_pn d = pn" "dec_data d = payload @ crypto_pad dx n (length payload)"
    using short_packet_opens [OF assms(2,3) assms(4,5,6) [unfolded len] assms(7-), of ?pre expansion N t] by blast
  then show ?thesis
    using e by (intro exI [of _ "venc ?pre (?pk @ out)"] exI [of _ out] exI [of _ dx'] exI [of _ p] exI [of _ d]
        exI [of _ s']) simp
qed

theorem short_packet_roundtrip_witness:
  "\<exists>e' out dx' p d s'.
    short_packet \<lparr>ebuf = [1, 2, 3], estart = 1\<rparr> False [8, 9] 1200 0 2 [6, 7] (plain_dx Dir_Write 3) = Ok (e', dx')
    \<and> enc_as_ref vec_buffer e' = enc_as_ref vec_buffer \<lparr>ebuf = [1, 2, 3], estart = 1\<rparr> @ out \<and> next_pn dx' = 0 + 1
    \<and> packet_decode (\<lambda>_. 16) (\<lambda>d. decode d (length [8, 9 :: u8])) out = Ok (p, []) \<and> pub_dcid p = [8, 9]
    \<and> packet_decrypt null_nss plain_app p 5 = Ok (Inr d, s') \<and> dec_pn d = 0
    \<and> dec_data d = [6, 7] @ crypto_pad (plain_dx Dir_Write 3) 2 (length [6, 7 :: u8])"
proof (rule short_packet_roundtrip)
  show "app_receiver plain_app (plain_dx Dir_Write 3) False 0 2"
    by (simp add: app_receiver_def plain_app_def crypto_states_default_def pn_near_def key_phase_def)
qed (simp_all add: vec_enc_simps)

text \<open>
  C12: Long header packets round-trip, coalesced or not. For Initial (with its token), 0-RTT and Handshake packets, what is built decodes,
  whatever follows it in the datagram, to its type, connection IDs, and token, and opens to its packet number and payload.
  The length field holds two bytes, hence the bound on the payload.
\<close>

theorem long_packet_roundtrip:
  assumes "estart e \<le> length (ebuf e)" "long_room (enc_as_ref vec_buffer e) pt v dcid scid token limit n payload"
    "enc_len vec_buffer e + length payload + 20 \<le> 65535" "length payload + dx_expansion dx + 24 < 2 ^ 14"
    "pt \<noteq> PT_Retry" "epoch_try_from pt = Ok ep"
    "can_seal dx pn" "hp_ok (dx_hpkey dx)" "long_receiver s dx v ep pn n"
  shows "\<exists>e' out dx' p d s'.
    long_packet e pt v dcid scid token limit pn n payload dx = Ok (e', dx')
    \<and> enc_as_ref vec_buffer e' = enc_as_ref vec_buffer e @ out \<and> next_pn dx' = pn + 1
    \<and> packet_decode expansion decode_cid (out @ tail) = Ok (p, tail)
    \<and> pub_type p = pt \<and> pub_dcid p = dcid \<and> pub_scid p = Some scid \<and> pub_token p = (if pt = PT_Initial then token else [])
    \<and> packet_decrypt N s p t = Ok (Inr d, s') \<and> dec_pn d = pn
    \<and> dec_data d = payload @ crypto_pad dx n (length payload)"
proof -
  let ?pk = "enc_as_ref vec_buffer e" and ?pre = "take (estart e) (ebuf e)"
  have e: "e = venc ?pre ?pk"
    using assms(1) by (rule venc_of)
  have len: "enc_len vec_buffer e = length ?pk"
    by (simp add: vec_enc_simps)
  obtain out dx' p d s' where
    "long_packet (venc ?pre ?pk) pt v dcid scid token limit pn n payload dx = Ok (venc ?pre (?pk @ out), dx')"
    "next_pn dx' = pn + 1" "packet_decode expansion decode_cid (out @ tail) = Ok (p, tail)"
    "pub_type p = pt" "pub_dcid p = dcid" "pub_scid p = Some scid" "pub_token p = (if pt = PT_Initial then token else [])"
    "packet_decrypt N s p t = Ok (Inr d, s')" "dec_pn d = pn" "dec_data d = payload @ crypto_pad dx n (length payload)"
    using long_packet_opens [OF assms(2) assms(3) [unfolded len] assms(4-), of ?pre expansion decode_cid tail N t] by blast
  then show ?thesis
    using e by (intro exI [of _ "venc ?pre (?pk @ out)"] exI [of _ out] exI [of _ dx'] exI [of _ p] exI [of _ d]
        exI [of _ s']) simp
qed

theorem long_packet_roundtrip_witness:
  "\<exists>e' out dx' p d s'.
    long_packet \<lparr>ebuf = [], estart = 0\<rparr> PT_Handshake Version1 [8, 9] [] [] 1200 0 1 [6, 7] (plain_dx Dir_Write 2) = Ok (e', dx')
    \<and> enc_as_ref vec_buffer e' = enc_as_ref vec_buffer \<lparr>ebuf = [], estart = 0\<rparr> @ out \<and> next_pn dx' = 0 + 1
    \<and> packet_decode (\<lambda>_. 16) (\<lambda>d. decode d 2) (out @ [1, 2]) = Ok (p, [1, 2])
    \<and> pub_type p = PT_Handshake \<and> pub_dcid p = [8, 9] \<and> pub_scid p = Some []
    \<and> pub_token p = (if PT_Handshake = PT_Initial then [] else [])
    \<and> packet_decrypt null_nss plain_handshake p 5 = Ok (Inr d, s') \<and> dec_pn d = 0
    \<and> dec_data d = [6, 7] @ crypto_pad (plain_dx Dir_Write 2) 1 (length [6, 7 :: u8])"
proof (rule long_packet_roundtrip)
  show "long_receiver plain_handshake (plain_dx Dir_Write 2) Version1 Epoch_Handshake 0 1"
    by (simp add: long_receiver_def rx_hp_def rx_def plain_handshake_def crypto_states_default_def pn_near_def)
qed (simp_all add: vec_enc_simps long_room_def cids_bytes_def token_bytes_def)

text \<open>
  The error of a packet that cannot be opened carries data whose header protection has been removed, not the
  data that arrived.
\<close>

lemma failed_decrypt_changes_data:
  fixes p :: public
  defines "p \<equiv> \<lparr>pub_type = PT_Short, pub_dcid = [], pub_scid = None, pub_token = [], pub_header_len = 1,
     pub_version = None, pub_data = 0x40 # replicate 4 0 @ replicate 16 7, pub_scone = None\<rparr>"
  shows "\<exists>er s'. packet_decrypt null_nss plain_app p 5 = Ok (Inl er, s') \<and> de_error er = Decrypt
    \<and> de_data er \<noteq> pub_data p"
proof -
  have pd: "pub_data p = protect HP_MASK_SHORT (replicate 16 7) 0x47 [] (replicate 4 7) (replicate 16 7)"
    by (simp add: p_def protect_def HP_MASK_SHORT_def xor_bytes_def numeral_eq_Suc)
  obtain pn where "decrypt_header p (plain_dx Dir_Read 3) = Ok (True, pn, 5, (0x47 # [] @ replicate 4 7) @ replicate 16 7)"
    using decrypt_header_protect [OF pd, of "plain_dx Dir_Read 3"]
    by (simp add: p_def SAMPLE_SIZE_def BIT_KEY_PHASE_def)
  then show ?thesis
    by (simp add: packet_decrypt_def p_def public_version_def rx_hp_def plain_app_def crypto_states_default_def rx_def
       key_phase_def make_err_def)
qed

end
