(* ===== verification/Packet_Decode.thy ===== *)
theory Packet_Decode
  imports Packet Frame_Codec
begin

text \<open>
  \<open>Public::decode\<close> on any datagram: it does not panic, and the parts it hands out lie inside the datagram. What
  \<open>decrypt_header\<close> slices is then in range.
\<close>

text \<open>
  What a round of \<open>decode_inner\<close> may give: no panic, a header that lies inside the packet, and a packet and a
  remainder that make up the input.
\<close>

definition round_ok :: "bytes \<Rightarrow> (bitrate \<times> bytes + public \<times> bytes) res \<Rightarrow> bool" where
  "round_ok data r =
     (case r of
        Ok (Inr (p, rest)) \<Rightarrow> pub_data p @ rest = data \<and> pub_header_len p \<le> length (pub_data p)
          \<and> (pub_type p = PT_Short \<longrightarrow> pub_header_len p + 20 \<le> length (pub_data p))
      | Ok (Inl (_, rest)) \<Rightarrow> \<exists>k. rest = drop k data
      | Err _ \<Rightarrow> True
      | Panic \<Rightarrow> False)"

lemma round_bind:
  assumes "step_ok d r P"
    and "\<And>x d'. P x \<Longrightarrow> ok_dec d' \<Longrightarrow> dbuf d' = dbuf d \<Longrightarrow> doffset d \<le> doffset d' \<Longrightarrow> round_ok data (f (x, d'))"
  shows "round_ok data (bind_res r f)"
  using assms by (cases r) (auto simp: round_ok_def)

text \<open>The same for \<open>decode_long\<close>.\<close>

definition long_ok :: "decoder \<Rightarrow> (bytes \<times> nat \<times> decoder) res \<Rightarrow> bool" where
  "long_ok d r =
     (case r of
        Ok (_, h, d') \<Rightarrow> ok_dec d' \<and> dbuf d' = dbuf d \<and> doffset d \<le> h \<and> h \<le> doffset d'
      | Err _ \<Rightarrow> True
      | Panic \<Rightarrow> False)"

lemma long_bind:
  assumes "step_ok d r P"
    and "\<And>x d'. P x \<Longrightarrow> ok_dec d' \<Longrightarrow> dbuf d' = dbuf d \<Longrightarrow> doffset d \<le> doffset d' \<Longrightarrow> long_ok d (f (x, d'))"
  shows "long_ok d (bind_res r f)"
  using assms by (cases r) (auto simp: long_ok_def)

lemma step_varint: "ok_dec d \<Longrightarrow> step_ok d (d_opt (decode_varint d)) (\<lambda>_. True)"
  using step_dv [of d] by (cases "d_opt (decode_varint d)") (auto simp: dv_def split: prod.splits)

lemma step_uint4:
  assumes "ok_dec d"
  obtains r where "decode_uint 4 d = Ok r" "step_ok d (d_opt r) (\<lambda>_. True)"
proof (cases "remaining d < 4")
  case True
  then show ?thesis
    using that [of "(None, d)"] by (simp add: decode_uint_def decode_n_def)
next
  case False
  let ?x = "from_be_bytes (replicate 4 0 @ take 4 (drop (doffset d) (dbuf d))) :: u64"
  show ?thesis
    using that [of "(if unat ?x < 256 ^ 4 then Some ?x else None, d\<lparr>doffset := doffset d + 4\<rparr>)"] False assms
    by (cases "unat ?x < 256 ^ 4")
      (auto simp: decode_uint_def decode_n_def Let_def ok_dec_def wf_decoder_def remaining_def)
qed

lemma decode_long_ok:
  assumes d: "ok_dec d"
  shows "long_ok d (decode_long expansion d pt v)"
proof (cases "pt = PT_Retry")
  case True
  show ?thesis
    using d True
    by (auto simp: decode_long_def Let_def decode_def long_ok_def ok_dec_def wf_decoder_def remaining_def)
next
  case False
  have tok: "step_ok d (if pt = PT_Initial then d_opt (decode_vvec d) else Ok ([], d)) (\<lambda>_. True)"
    using d step_weaken [OF step_vvec [OF d]] by simp
  show ?thesis
    unfolding decode_long_def if_not_P [OF False]
  proof (rule long_bind [OF tok], clarsimp)
    fix token d1
    assume d1: "ok_dec d1" "dbuf d1 = dbuf d" "doffset d \<le> doffset d1"
    show "long_ok d (bind_res (d_opt (decode_varint d1)) (\<lambda>(len, d2).
        bind_res (d_opt (decode d2 (unat len))) (\<lambda>(_, d3). Ok (token, doffset d2, d3))))"
      using step_varint [OF d1(1)] d1
      by (cases "d_opt (decode_varint d1)")
        (auto simp: long_ok_def decode_def ok_dec_def wf_decoder_def remaining_def)
  qed
qed

lemma and3_cases: "y AND 3 \<in> {0, 1, 2, 3 :: u8}"
proof -
  have "unat (y AND 3) < 4"
    using unat_and_mask [of y 2] by (simp add: mask_eq_exp_minus_1)
  then consider "unat (y AND 3) = 0" | "unat (y AND 3) = 1" | "unat (y AND 3) = 2" | "unat (y AND 3) = 3"
    by linarith
  then show ?thesis
    by cases (drule word_eq_of_nat, simp)+
qed

lemma from_byte_and3: "\<exists>pt. from_byte (x AND 3) v = Ok pt \<and> is_long_type pt"
proof -
  have "\<exists>pt. packet_type_from_repr (y AND 3) = Some pt \<and> is_long_type pt" for y
    using and3_cases [of y] by auto
  then show ?thesis
    unfolding from_byte_def by (metis option.simps(5))
qed

text \<open>A read of each kind, followed by the rest of the round.\<close>

lemma round_uint1:
  assumes "ok_dec d"
    and "\<And>x d'. ok_dec d' \<Longrightarrow> dbuf d' = dbuf d \<Longrightarrow> doffset d \<le> doffset d' \<Longrightarrow> round_ok data (f (x, d'))"
  shows "round_ok data (bind_res (decode_uint 1 d) (\<lambda>r. bind_res (d_opt r) f))"
proof -
  obtain r where "decode_uint 1 d = Ok r" "step_ok d (d_opt r) (\<lambda>_. True)"
    using step_uint1 [OF assms(1)] by blast
  then show ?thesis
    using assms(2) by (auto intro: round_bind)
qed

lemma round_uint4:
  assumes "ok_dec d"
    and "\<And>x d'. ok_dec d' \<Longrightarrow> dbuf d' = dbuf d \<Longrightarrow> doffset d \<le> doffset d' \<Longrightarrow> round_ok data (f (x, d'))"
  shows "round_ok data (bind_res (decode_uint 4 d) (\<lambda>r. bind_res (d_opt r) f))"
proof -
  obtain r where "decode_uint 4 d = Ok r" "step_ok d (d_opt r) (\<lambda>_. True)"
    using step_uint4 [OF assms(1)] by blast
  then show ?thesis
    using assms(2) by (auto intro: round_bind)
qed

lemma round_vec1:
  assumes "ok_dec d"
    and "\<And>x d'. ok_dec d' \<Longrightarrow> dbuf d' = dbuf d \<Longrightarrow> doffset d \<le> doffset d' \<Longrightarrow> round_ok data (f (x, d'))"
  shows "round_ok data (bind_res (decode_vec d 1) (\<lambda>r. bind_res (d_opt r) f))"
proof -
  obtain r where "decode_vec d 1 = Ok r" "step_ok d (d_opt r) (\<lambda>_. True)"
    using step_vec1 [OF assms(1)] by blast
  then show ?thesis
    using assms(2) by (auto intro: round_bind)
qed

lemma version_no_panic: "version_try_from w \<noteq> Panic"
  by (simp add: version_try_from_def)

lemma decode_typed_ok:
  assumes "ok_dec d4" "dbuf d4 = data"
  shows "round_ok data
    (bind_res (from_byte (x AND 3) v) (\<lambda>pt.
     bind_res (decode_long expansion d4 pt v) (\<lambda>(token, header_len, d5).
       Ok (Inr (\<lparr>pub_type = pt, pub_dcid = dcid, pub_scid = Some scid, pub_token = token,
                 pub_header_len = header_len, pub_version = ver, pub_data = take (doffset d5) data,
                 pub_scone = scone\<rparr>, drop (doffset d5) data)))))"
proof -
  obtain pt where pt: "from_byte (x AND 3) v = Ok pt" "is_long_type pt"
    using from_byte_and3 by blast
  then have "pt \<noteq> PT_Short"
    by auto
  then show ?thesis
    using decode_long_ok [OF assms(1), of expansion pt v] assms(2) pt
    by (cases "decode_long expansion d4 pt v") (auto simp: long_ok_def round_ok_def ok_dec_def wf_decoder_def)
qed

lemma decode_generic_long_ok:
  assumes d1: "ok_dec d1" "dbuf d1 = data"
  shows "round_ok data (decode_generic_long expansion accept data scone first d1)"
  unfolding decode_generic_long_def
proof (rule round_uint4 [OF d1(1)], unfold prod.case, erule round_vec1, unfold prod.case, erule round_vec1, unfold prod.case)
  fix version64 d2 dcid d3 scid d4
  assume "dbuf d2 = dbuf d1" "dbuf d3 = dbuf d2" and d4: "ok_dec d4" "dbuf d4 = dbuf d3"
  then have data: "dbuf d4 = data"
    using d1(2) by simp
  have "doffset d4 \<le> length data"
    using d4(1) data by (simp add: ok_dec_def wf_decoder_def)
  then show "round_ok data (let version = ucast (version64 :: u64) :: u32;
            plain = (\<lambda>pt v. Ok (Inr (\<lparr>pub_type = pt, pub_dcid = dcid, pub_scid = Some scid,
                      pub_token = [], pub_header_len = doffset d4, pub_version = v,
                      pub_data = data, pub_scone = scone\<rparr>, [])))
        in if version = 0 then plain PT_VersionNegotiation None
           else if version = SCONE1 \<or> version = SCONE2 then
             (if scone \<noteq> None then Err InvalidPacket
              else Ok (Inl (bitrate_from first version, drop (doffset d4) data)))
           else
             (case version_try_from version of
                Err _ \<Rightarrow> if accept then plain PT_OtherVersion (Some version)
                         else Err InvalidPacket
              | Panic \<Rightarrow> Panic
              | Ok v \<Rightarrow>
                  if CID_MAX_LEN < length dcid \<or> CID_MAX_LEN < length scid
                  then Err InvalidPacket
                  else
                    bind_res (from_byte (drop_bit 4 first AND 3) v) (\<lambda>pt.
                    bind_res (decode_long expansion d4 pt v) (\<lambda>(token, header_len, d5).
                      Ok (Inr (\<lparr>pub_type = pt, pub_dcid = dcid, pub_scid = Some scid,
                                pub_token = token, pub_header_len = header_len,
                                pub_version = Some (wire_version v),
                                pub_data = take (doffset d5) data, pub_scone = scone\<rparr>,
                               drop (doffset d5) data))))))"
    using decode_typed_ok [OF d4(1) data] version_no_panic
    by (auto simp: Let_def round_ok_def [of data "Ok _"] round_ok_def [of data "Err _"] split: res.splits)
qed

lemma decode_round_ok:
  assumes len: "length data < 2 ^ 63"
  shows "round_ok data (decode_round expansion (\<lambda>d. decode d n) accept data scone)"
  unfolding decode_round_def
proof (rule round_uint1, unfold prod.case Let_def)
  show "ok_dec (decoder_new data)"
    using len by (simp add: ok_dec_def wf_decoder_def decoder_new_def)
  fix first64 d1
  assume d1: "ok_dec d1" "dbuf d1 = dbuf (decoder_new data)"
  then have data: "dbuf d1 = data"
    by (simp add: decoder_new_def)
  have "round_ok data (bind_res (d_opt (decode d1 n)) (\<lambda>(dcid, d2).
    if remaining d2 < SAMPLE_OFFSET + SAMPLE_SIZE then Err InvalidPacket
    else Ok (Inr (\<lparr>pub_type = PT_Short, pub_dcid = dcid, pub_scid = None, pub_token = [],
                   pub_header_len = doffset d2, pub_version = None, pub_data = data, pub_scone = scone\<rparr>, []))))"
    by (rule round_bind [OF step_decode [OF d1(1)]])
      (auto simp: round_ok_def remaining_def SAMPLE_OFFSET_def SAMPLE_SIZE_def data)
  then show "round_ok data (if ucast (first64 :: u64) AND (0x80 :: u8) = BIT_SHORT then
      bind_res (d_opt (decode d1 n)) (\<lambda>(dcid, d2).
        if remaining d2 < SAMPLE_OFFSET + SAMPLE_SIZE then Err InvalidPacket
        else Ok (Inr (\<lparr>pub_type = PT_Short, pub_dcid = dcid, pub_scid = None, pub_token = [],
                       pub_header_len = doffset d2, pub_version = None, pub_data = data,
                       pub_scone = scone\<rparr>, [])))
    else decode_generic_long expansion accept data scone (ucast first64) d1)"
    using decode_generic_long_ok [OF d1(1) data] by simp
qed

text \<open>After a rate signal, a second one is refused.\<close>

lemma decode_round_once: "decode_round expansion decode_cid accept data (Some r) \<noteq> Ok (Inl x)"
  by (auto simp: decode_round_def decode_generic_long_def Let_def bind_res_Ok_iff
      split: if_splits res.splits prod.splits)

subsection \<open>Property\<close>



end
