(* ===== verification/BTree_Map.thy ===== *)
theory BTree_Map
  imports Neqo_Prelude
begin

text \<open>
  \<open>BTreeMap<u64, V>\<close> of the Rust standard library, as far as the sources use it: an association list with ascending keys.
  Iteration is in list order.
\<close>

type_synonym 'v btree_map = "(nat \<times> 'v) list"

definition bt_get :: "'v btree_map \<Rightarrow> nat \<Rightarrow> 'v option" where
  "bt_get m k = map_of m k"

fun bt_insert :: "nat \<Rightarrow> 'v \<Rightarrow> 'v btree_map \<Rightarrow> 'v btree_map" where
  "bt_insert k v [] = [(k, v)]"
| "bt_insert k v ((k', v') # m) =
     (if k < k' then (k, v) # (k', v') # m
      else if k = k' then (k, v) # m
      else (k', v') # bt_insert k v m)"

definition bt_remove :: "nat \<Rightarrow> 'v btree_map \<Rightarrow> 'v btree_map" where
  "bt_remove k m = filter (\<lambda>e. fst e \<noteq> k) m"

text \<open>\<open>get_mut\<close> followed by an update in place.\<close>

definition bt_modify :: "nat \<Rightarrow> ('v \<Rightarrow> 'v) \<Rightarrow> 'v btree_map \<Rightarrow> 'v btree_map" where
  "bt_modify k f m = map (\<lambda>e. if fst e = k then (fst e, f (snd e)) else e) m"

text \<open>\<open>range(..=k)\<close>, \<open>range(..k)\<close> and \<open>range(k..)\<close>; \<open>split_off(k)\<close> keeps \<open>bt_below k\<close> and returns \<open>bt_from k\<close>.\<close>

definition bt_upto :: "nat \<Rightarrow> 'v btree_map \<Rightarrow> 'v btree_map" where
  "bt_upto k m = takeWhile (\<lambda>e. fst e \<le> k) m"

definition bt_below :: "nat \<Rightarrow> 'v btree_map \<Rightarrow> 'v btree_map" where
  "bt_below k m = takeWhile (\<lambda>e. fst e < k) m"

definition bt_from :: "nat \<Rightarrow> 'v btree_map \<Rightarrow> 'v btree_map" where
  "bt_from k m = dropWhile (\<lambda>e. fst e < k) m"

text \<open>\<open>next_back\<close> and \<open>last_key_value\<close>.\<close>

definition bt_last :: "'v btree_map \<Rightarrow> (nat \<times> 'v) option" where
  "bt_last m = (if m = [] then None else Some (last m))"

definition bt_ok :: "'v btree_map \<Rightarrow> bool" where
  "bt_ok m \<longleftrightarrow> sorted_wrt (<) (map fst m)"

text \<open>The contract of an ordered map: lookup after each operation, and the invariant.\<close>

locale ordered_map =
  fixes get :: "'m \<Rightarrow> nat \<Rightarrow> 'v option"
    and put :: "nat \<Rightarrow> 'v \<Rightarrow> 'm \<Rightarrow> 'm"
    and remove :: "nat \<Rightarrow> 'm \<Rightarrow> 'm"
    and below :: "nat \<Rightarrow> 'm \<Rightarrow> 'm"
    and above :: "nat \<Rightarrow> 'm \<Rightarrow> 'm"
    and invar :: "'m \<Rightarrow> bool"
  assumes get_put: "invar m \<Longrightarrow> get (put k v m) = (get m)(k \<mapsto> v)"
    and get_remove: "invar m \<Longrightarrow> get (remove k m) = (get m)(k := None)"
    and get_below: "invar m \<Longrightarrow> get (below k m) = get m |` {..<k}"
    and get_above: "invar m \<Longrightarrow> get (above k m) = get m |` {k..}"
    and invar_put: "invar m \<Longrightarrow> invar (put k v m)"
    and invar_remove: "invar m \<Longrightarrow> invar (remove k m)"
    and invar_below: "invar m \<Longrightarrow> invar (below k m)"
    and invar_above: "invar m \<Longrightarrow> invar (above k m)"
begin

lemma get_remove_all: "invar m \<Longrightarrow> get (foldl (\<lambda>m k. remove k m) m ks) = get m |` (- set ks) \<and> invar (foldl (\<lambda>m k. remove k m) m ks)"
proof (induction ks arbitrary: m)
  case (Cons k ks)
  then show ?case
    using Cons.IH [of "remove k m"] by (auto simp: invar_remove get_remove restrict_map_def)
qed (simp add: restrict_map_def)

lemma split_off_partition: "invar m \<Longrightarrow> get m = get (below k m) ++ get (above k m)"
  by (rule ext) (auto simp: get_below get_above restrict_map_def map_add_def split: option.split)

end

lemma bt_ok_simps [simp]:
  "bt_ok []" "bt_ok (e # m) \<longleftrightarrow> (\<forall>e'\<in>set m. fst e < fst e') \<and> bt_ok m"
  by (auto simp: bt_ok_def)

lemma bt_ok_append: "bt_ok (m @ m') \<longleftrightarrow> bt_ok m \<and> bt_ok m' \<and> (\<forall>e\<in>set m. \<forall>e'\<in>set m'. fst e < fst e')"
  by (auto simp: bt_ok_def sorted_wrt_append)

lemma bt_insert_keys: "fst ` set (bt_insert k v m) = insert k (fst ` set m)"
  by (induction k v m rule: bt_insert.induct) auto

lemma map_of_bt_insert: "bt_ok m \<Longrightarrow> map_of (bt_insert k v m) = (map_of m)(k \<mapsto> v)"
  by (induction k v m rule: bt_insert.induct) (auto simp: fun_eq_iff)

lemma bt_ok_insert: "bt_ok m \<Longrightarrow> bt_ok (bt_insert k v m)"
proof (induction k v m rule: bt_insert.induct)
  case (2 k v k' v' m)
  have "\<forall>e\<in>set (bt_insert k v m). fst e \<in> insert k (fst ` set m)"
    using bt_insert_keys [of k v m] by blast
  then show ?case
    using 2 by fastforce
qed simp

lemma bt_below_split: "bt_ok m \<Longrightarrow> bt_below k m = filter (\<lambda>e. fst e < k) m"
  by (induction m) (auto simp: bt_below_def intro!: filter_False [symmetric])

lemma bt_from_split: "bt_ok m \<Longrightarrow> bt_from k m = filter (\<lambda>e. k \<le> fst e) m"
  by (induction m) (auto simp: bt_from_def intro!: filter_True [symmetric])

lemma map_of_filter_key: "map_of (filter (\<lambda>e. P (fst e)) m) = map_of m |` {k. P k}"
  by (induction m) (auto simp: fun_eq_iff restrict_map_def)

lemma bt_ok_filter: "bt_ok m \<Longrightarrow> bt_ok (filter P m)"
  by (induction m) auto

lemmas map_of_filter_keys = map_of_filter_key [of "\<lambda>j. j \<noteq> k"] map_of_filter_key [of "\<lambda>j. j < k"]
  map_of_filter_key [of "\<lambda>j. k \<le> j"] for k

interpretation bt: ordered_map bt_get bt_insert bt_remove bt_below bt_from bt_ok
  by unfold_locales
    (auto simp: bt_get_def fun_eq_iff map_of_bt_insert bt_ok_insert bt_ok_filter bt_remove_def bt_below_split bt_from_split
      map_of_filter_keys restrict_map_def)

text \<open>The operations on a map that is split at a key.\<close>

lemma bt_insert_between:
  "\<forall>e\<in>set m. fst e < k \<Longrightarrow> \<forall>e\<in>set m'. k < fst e \<Longrightarrow> bt_insert k v (m @ m') = m @ (k, v) # m'"
proof (induction m)
  case Nil
  then show ?case
    by (cases m') auto
qed auto

lemma bt_modify_last:
  "\<forall>e\<in>set m. fst e \<noteq> k \<Longrightarrow> \<forall>e\<in>set m'. fst e \<noteq> k \<Longrightarrow> bt_modify k f (m @ (k, v) # m') = m @ (k, f v) # m'"
  by (auto simp: bt_modify_def intro!: map_idI)

lemma bt_remove_notin: "\<forall>e\<in>set m. fst e \<noteq> k \<Longrightarrow> bt_remove k m = m"
  by (simp add: bt_remove_def filter_id_conv)

lemma bt_remove_Nil [simp]: "bt_remove k [] = []"
  by (simp add: bt_remove_def)

lemma bt_remove_outside:
  "\<forall>e\<in>set m. k < fst e \<Longrightarrow> bt_remove k m = m" "\<forall>e\<in>set m. fst e < k \<Longrightarrow> bt_remove k m = m"
  by (rule bt_remove_notin; auto)+

lemma bt_remove_append [simp]: "bt_remove k (m @ m') = bt_remove k m @ bt_remove k m'"
  by (simp add: bt_remove_def)

lemma bt_remove_Cons [simp]: "bt_remove k (e # m) = (if fst e = k then bt_remove k m else e # bt_remove k m)"
  by (simp add: bt_remove_def)

lemma bt_upto_append:
  "\<forall>e\<in>set m. fst e \<le> k \<Longrightarrow> \<forall>e\<in>set m'. k < fst e \<Longrightarrow> bt_upto k (m @ m') = m"
  by (cases m') (auto simp: bt_upto_def takeWhile_append)

lemma bt_from_append:
  "\<forall>e\<in>set m. fst e < k \<Longrightarrow> \<forall>e\<in>set m'. k \<le> fst e \<Longrightarrow> bt_from k (m @ m') = m'"
  by (cases m') (auto simp: bt_from_def dropWhile_append)

lemma bt_below_append:
  "\<forall>e\<in>set m. fst e < k \<Longrightarrow> \<forall>e\<in>set m'. k \<le> fst e \<Longrightarrow> bt_below k (m @ m') = m"
  by (cases m') (auto simp: bt_below_def takeWhile_append)

lemma bt_last_simps [simp]: "bt_last [] = None" "bt_last [e] = Some e" "bt_last (m @ [e]) = Some e"
  by (simp_all add: bt_last_def)

lemma bt_last_Some: "bt_last m = Some e \<longleftrightarrow> (\<exists>m'. m = m' @ [e])"
  by (metis append_butlast_last_id bt_last_simps(3) bt_last_def option.distinct(1) option.inject)

lemma bt_last_None [simp]: "bt_last m = None \<longleftrightarrow> m = []"
  by (simp add: bt_last_def)

text \<open>Every map splits at a key.\<close>

lemma bt_split_upto:
  assumes "bt_ok m"
  obtains l r where "m = l @ r" "bt_upto k m = l" "\<forall>e\<in>set l. fst e \<le> k" "\<forall>e\<in>set r. k < fst e"
proof
  show "m = bt_upto k m @ dropWhile (\<lambda>e. fst e \<le> k) m"
    by (simp add: bt_upto_def)
  show "bt_upto k m = bt_upto k m" ..
  show "\<forall>e\<in>set (bt_upto k m). fst e \<le> k"
    by (auto simp: bt_upto_def dest: set_takeWhileD)
  show "\<forall>e\<in>set (dropWhile (\<lambda>e. fst e \<le> k) m). k < fst e"
    using assms by (induction m) auto
qed

end
