(* ===== verification/Recv_Buffer.thy ===== *)
theory Recv_Buffer
  imports BTree_Map Codec
begin

text \<open>
  \<open>RxStreamOrderer\<close> (\<open>neqo-transport/src/recv_stream.rs\<close>): the reassembly of a byte stream from frames that arrive in any order.
  Offsets are \<open>u64\<close>; the sum that depends on the frame (its end) wraps, the others are ends of data that is already stored.
  An operation that fails returns the error only: the connection is closed and the buffer is not used again.
\<close>

record rx_orderer =
  data_ranges :: "bytes btree_map"
  rx_retired :: nat
  rx_received :: nat
  rx_end :: nat

definition rx_new :: rx_orderer where
  "rx_new = \<lparr>data_ranges = [], rx_retired = 0, rx_received = 0, rx_end = 0\<rparr>"

definition RANGE_TARGET :: nat where "RANGE_TARGET = 4096"
definition MAX_GAPS :: nat where "MAX_GAPS = 4096"

abbreviation entry_end :: "nat \<times> bytes \<Rightarrow> nat" where
  "entry_end e \<equiv> fst e + length (snd e)"

definition check_gap_limit :: "rx_orderer \<Rightarrow> rx_orderer res" where
  "check_gap_limit rx =
     (let span = u64_sub (rx_end rx) (rx_retired rx);
          needed = span div RANGE_TARGET
      in if MAX_GAPS + needed < length (data_ranges rx) then Err ProtocolViolation else Ok rx)"

definition insert_range :: "rx_orderer \<Rightarrow> nat \<Rightarrow> bytes \<Rightarrow> rx_orderer res" where
  "insert_range rx start data = check_gap_limit (rx\<lparr>data_ranges := bt_insert start data (data_ranges rx)\<rparr>)"

text \<open>The loop of \<open>already_received\<close>, on \<open>range(first..end)\<close>.\<close>

fun covers_to :: "bytes btree_map \<Rightarrow> nat \<Rightarrow> nat \<Rightarrow> bool" where
  "covers_to [] covered e = (e \<le> covered)"
| "covers_to ((start, data) # m) covered e = (if covered < start then False else covers_to m (start + length data) e)"

definition already_received :: "rx_orderer \<Rightarrow> nat \<Rightarrow> nat \<Rightarrow> bool" where
  "already_received rx offset len =
     (let e = u64_add offset len
      in if rx_end rx < e then False
         else
           (let covered = max offset (rx_retired rx)
            in if e \<le> covered then True
               else
                 (let first = (case bt_last (bt_upto covered (data_ranges rx)) of None \<Rightarrow> covered | Some (start, _) \<Rightarrow> start)
                  in covers_to (bt_below e (bt_from first (data_ranges rx))) covered e)))"

text \<open>
  The loop over the entries that follow the new data: the entries to remove, and the part of the data to add.
\<close>

fun overlap_loop :: "nat \<Rightarrow> bytes \<Rightarrow> bytes btree_map \<Rightarrow> nat list \<Rightarrow> nat list \<times> bytes" where
  "overlap_loop new_end new_data [] to_remove = (to_remove, new_data)"
| "overlap_loop new_end new_data ((next_start, next_data) # m) to_remove =
     (let next_end = next_start + length next_data;
          overlap = new_end - next_start
      in if overlap = 0 then (to_remove, new_data)
         else if new_end \<le> next_end then (to_remove, take (length new_data - overlap) new_data)
         else overlap_loop new_end new_data m (to_remove @ [next_start]))"

text \<open>The end of \<open>inbound_frame\<close>: add what is left of the data, to the entry before it if \<open>ext\<close> names one.\<close>

definition rx_add :: "rx_orderer \<Rightarrow> nat \<Rightarrow> nat \<Rightarrow> bytes \<Rightarrow> (nat \<times> nat) option \<Rightarrow> rx_orderer res" where
  "rx_add rx new_start new_end to_add ext =
     (if to_add = [] then Ok rx
      else
        (let rx1 = rx\<lparr>rx_received := u64_add (rx_received rx) (length to_add), rx_end := max (rx_end rx) new_end\<rparr>
         in case ext of
              None \<Rightarrow> insert_range rx1 new_start to_add
            | Some (prev_start, prev_len) \<Rightarrow>
                (let add_end = new_start + length to_add;
                     nxt = (case bt_get (data_ranges rx1) add_end of
                              None \<Rightarrow> None
                            | Some n \<Rightarrow> if prev_len + length to_add + length n \<le> RANGE_TARGET then Some n else None);
                     m = (if nxt = None then data_ranges rx1 else bt_remove add_end (data_ranges rx1))
                 in Ok (rx1\<lparr>data_ranges :=
                       bt_modify prev_start (\<lambda>buf. buf @ to_add @ (case nxt of None \<Rightarrow> [] | Some n \<Rightarrow> n)) m\<rparr>))))"

text \<open>The part for data that starts below the end of what was received.\<close>

definition rx_overlap :: "rx_orderer \<Rightarrow> nat \<Rightarrow> nat \<Rightarrow> bytes \<Rightarrow> (nat \<times> nat) option \<Rightarrow> rx_orderer res" where
  "rx_overlap rx new_start new_end new_data ext =
     (case bt_last (data_ranges rx) of
        None \<Rightarrow> rx_add rx new_start new_end new_data ext
      | Some (k, _) \<Rightarrow>
          if new_start \<le> k then
            (let (to_remove, to_add) = overlap_loop new_end new_data (bt_from new_start (data_ranges rx)) []
             in rx_add (rx\<lparr>data_ranges := foldl (\<lambda>m k. bt_remove k m) (data_ranges rx) to_remove\<rparr>) new_start new_end to_add ext)
          else rx_add rx new_start new_end new_data ext)"

definition rx_insert_below :: "rx_orderer \<Rightarrow> nat \<Rightarrow> nat \<Rightarrow> bytes \<Rightarrow> rx_orderer res" where
  "rx_insert_below rx new_start new_end new_data =
     (case bt_last (bt_upto new_start (data_ranges rx)) of
        None \<Rightarrow> rx_overlap rx new_start new_end new_data None
      | Some (prev_start, prev_vec) \<Rightarrow>
          (let prev_len = length prev_vec;
               prev_end = prev_start + prev_len
           in if prev_end < new_end then
                (let overlap = prev_end - new_start;
                     new_start' = new_start + overlap
                 in rx_overlap rx new_start' new_end (drop overlap new_data)
                      (if prev_len < RANGE_TARGET \<and> prev_end = new_start' then Some (prev_start, prev_len) else None))
              else Ok rx))"

text \<open>The common case: data at or beyond the end of what was received.\<close>

definition rx_insert_end :: "rx_orderer \<Rightarrow> nat \<Rightarrow> nat \<Rightarrow> bytes \<Rightarrow> rx_orderer res" where
  "rx_insert_end rx new_start new_end new_data =
     assert_res (rx_end rx = (case bt_last (data_ranges rx) of None \<Rightarrow> rx_retired rx | Some e \<Rightarrow> entry_end e))
     (let adjacent = (new_start = rx_end rx);
          rx1 = rx\<lparr>rx_received := u64_add (rx_received rx) (length new_data), rx_end := new_end\<rparr>
      in case bt_last (data_ranges rx1) of
           Some (k, d) \<Rightarrow>
             if adjacent \<and> length d < RANGE_TARGET
             then Ok (rx1\<lparr>data_ranges := bt_modify k (\<lambda>d. d @ new_data) (data_ranges rx1)\<rparr>)
             else insert_range rx1 new_start new_data
         | None \<Rightarrow> insert_range rx1 new_start new_data)"

definition inbound_frame :: "rx_orderer \<Rightarrow> nat \<Rightarrow> bytes \<Rightarrow> rx_orderer res" where
  "inbound_frame rx start data =
     (let new_end = u64_add start (length data)
      in if new_end \<le> rx_retired rx then Ok rx
         else
           (let (new_start, new_data) =
                  (if start < rx_retired rx then (rx_retired rx, drop (rx_retired rx - start) data) else (start, data))
            in if new_data = [] then Ok rx
               else if rx_end rx \<le> new_start then rx_insert_end rx new_start new_end new_data
               else rx_insert_below rx new_start new_end new_data))"

definition rx_data_ready :: "rx_orderer \<Rightarrow> bool" where
  "rx_data_ready rx = (case data_ranges rx of [] \<Rightarrow> False | (start, _) # _ \<Rightarrow> start \<le> rx_retired rx)"

text \<open>The iterator of \<open>bytes_ready\<close>; the lengths of buffers in memory do not saturate.\<close>

fun ready_len :: "nat \<Rightarrow> bytes btree_map \<Rightarrow> nat \<Rightarrow> nat" where
  "ready_len retired [] prev_end = 0"
| "ready_len retired ((start, data) # m) prev_end =
     (let data_len = u64_sub (length data) (retired - start)
      in if start \<le> prev_end then data_len + ready_len retired m (prev_end + data_len) else 0)"

definition bytes_ready :: "rx_orderer \<Rightarrow> nat" where
  "bytes_ready rx = ready_len (rx_retired rx) (data_ranges rx) (rx_retired rx)"

definition discard_after :: "rx_orderer \<Rightarrow> nat \<Rightarrow> rx_orderer" where
  "discard_after rx offset =
     (let m = bt_below offset (data_ranges rx)
      in case bt_last m of
           Some (start, data) \<Rightarrow>
             (let data' = take (offset - start) data
              in rx\<lparr>data_ranges := bt_modify start (\<lambda>_. data') m, rx_end := start + length data'\<rparr>)
         | None \<Rightarrow> rx\<lparr>data_ranges := m, rx_end := rx_retired rx\<rparr>)"

definition rx_buffered :: "rx_orderer \<Rightarrow> nat" where
  "rx_buffered rx = sum_list (map (\<lambda>(start, data). u64_sub (length data) (rx_retired rx - start)) (data_ranges rx))"

text \<open>
  The loop of \<open>read\<close>: the bytes copied into the space that is left, the new \<open>retired\<close>, and the key of the first entry to
  keep, if there is one.
\<close>

fun read_loop :: "bytes btree_map \<Rightarrow> nat \<Rightarrow> nat \<Rightarrow> bytes \<Rightarrow> (bytes \<times> nat \<times> nat option) res" where
  "read_loop [] retired space out = Ok (out, retired, None)"
| "read_loop ((range_start, range_data) # m) retired space out =
     (if range_start \<le> retired then
        (let copy_offset = retired - range_start
         in assert_res (copy_offset \<le> length range_data)
            (let available = length range_data - copy_offset
             in if space < available
                then Ok (out @ take space (drop copy_offset range_data), retired + space, Some range_start)
                else read_loop m (retired + available) (space - available) (out @ drop copy_offset range_data)))
      else Ok (out, retired, Some range_start))"

definition rx_read :: "rx_orderer \<Rightarrow> nat \<Rightarrow> (bytes \<times> rx_orderer) res" where
  "rx_read rx space =
     bind_res (read_loop (data_ranges rx) (rx_retired rx) space []) (\<lambda>(out, retired, keep).
       case keep of
         Some k \<Rightarrow> Ok (out, rx\<lparr>data_ranges := bt_from k (data_ranges rx), rx_retired := retired\<rparr>)
       | None \<Rightarrow> Ok (out, rx\<lparr>data_ranges := [], rx_retired := retired, rx_end := retired\<rparr>))"

definition read_to_end :: "rx_orderer \<Rightarrow> bytes \<Rightarrow> (nat \<times> bytes \<times> rx_orderer) res" where
  "read_to_end rx buf =
     (let n = bytes_ready rx
      in bind_res (rx_read rx n) (\<lambda>(out, rx'). Ok (length out, buf @ out @ replicate (n - length out) 0, rx')))"

end
