(* ===== verification/Flow_Control.thy ===== *)
theory Flow_Control
  imports Recovery_Token Packet Frame_Codec
begin

text \<open>
  Flow control (\<open>neqo-transport/src/fc.rs\<close>): the sender's side, which counts against a limit of the peer, the receiver's
  side, which grants credit and raises its window by measuring the peer, and the limits on the number of streams. The
  statistics (\<open>FrameStats\<close>) and the log are left out. Times and round trips are microseconds.
\<close>

subsection \<open>Sending\<close>

record 'a sender_fc =
  sfc_subject :: 'a
  sfc_limit :: nat
  sfc_used :: nat
  blocked_at :: "nat option"
  blocked_frame :: bool

definition sender_fc_new :: "'a \<Rightarrow> nat \<Rightarrow> 'a sender_fc" where
  "sender_fc_new subject initial =
     \<lparr>sfc_subject = subject, sfc_limit = initial, sfc_used = 0, blocked_at = None, blocked_frame = False\<rparr>"

definition sfc_available :: "'a sender_fc \<Rightarrow> nat" where
  "sfc_available fc = min (u64_sub (sfc_limit fc) (sfc_used fc)) USIZE_MAX"

definition sfc_update :: "'a sender_fc \<Rightarrow> nat \<Rightarrow> nat option \<times> 'a sender_fc" where
  "sfc_update fc limit =
     (if sfc_limit fc < limit then
        (let fc' = fc\<lparr>sfc_limit := limit, blocked_frame := False\<rparr> in (Some (sfc_available fc'), fc'))
      else (None, fc))"

definition sfc_consume :: "'a sender_fc \<Rightarrow> nat \<Rightarrow> ('a sender_fc) res" where
  "sfc_consume fc amt =
     assert_res (u64_add (sfc_used fc) amt \<le> sfc_limit fc) (Ok (fc\<lparr>sfc_used := u64_add (sfc_used fc) amt\<rparr>))"

definition sfc_blocked :: "'a sender_fc \<Rightarrow> 'a sender_fc" where
  "sfc_blocked fc =
     (if (case blocked_at fc of None \<Rightarrow> False | Some block \<Rightarrow> sfc_limit fc \<le> block) then fc
      else fc\<lparr>blocked_at := Some (sfc_limit fc), blocked_frame := True\<rparr>)"

definition blocked_needed :: "'a sender_fc \<Rightarrow> nat option" where
  "blocked_needed fc =
     (case blocked_at fc of
        None \<Rightarrow> None
      | Some l \<Rightarrow> if blocked_frame fc \<and> sfc_limit fc \<le> l then Some l else None)"

definition is_blocked :: "'a sender_fc \<Rightarrow> bool" where
  "is_blocked fc \<longleftrightarrow> blocked_needed fc \<noteq> None"

definition blocked_sent :: "'a sender_fc \<Rightarrow> 'a sender_fc" where
  "blocked_sent fc = fc\<lparr>blocked_frame := False\<rparr>"

definition sfc_frame_lost :: "'a sender_fc \<Rightarrow> nat \<Rightarrow> 'a sender_fc" where
  "sfc_frame_lost fc limit =
     (case blocked_at fc of
        None \<Rightarrow> fc
      | Some block \<Rightarrow> if block = limit then fc\<lparr>blocked_frame := True\<rparr> else fc)"

text \<open>
  The three \<open>write_frames\<close>, for the connection, a stream, and the number of streams: the same code with another frame and
  token.
\<close>

definition sfc_write ::
    "(nat \<Rightarrow> nat list) \<Rightarrow> (nat \<Rightarrow> stream_recovery_token) \<Rightarrow> 'b Buffer \<Rightarrow> 'a sender_fc \<Rightarrow> 'b builder \<Rightarrow> tokens
      \<Rightarrow> ('a sender_fc \<times> 'b builder \<times> tokens) res" where
  "sfc_write frame tok B fc b ts =
     (case blocked_needed fc of
        None \<Rightarrow> Ok (fc, b, ts)
      | Some limit \<Rightarrow>
          bind_res (write_varint_frame B b (frame limit)) (\<lambda>(written, b').
            if written then Ok (blocked_sent fc, b', ts @ [Tok_Stream (tok limit)]) else Ok (fc, b', ts)))"

definition conn_sfc_write_frames ::
    "'b Buffer \<Rightarrow> unit sender_fc \<Rightarrow> 'b builder \<Rightarrow> tokens \<Rightarrow> (unit sender_fc \<times> 'b builder \<times> tokens) res" where
  "conn_sfc_write_frames B fc = sfc_write (\<lambda>limit. [frame_type_code FT_DataBlocked, limit]) SRT_DataBlocked B fc"

definition stream_sfc_write_frames ::
    "'b Buffer \<Rightarrow> stream_id sender_fc \<Rightarrow> 'b builder \<Rightarrow> tokens \<Rightarrow> (stream_id sender_fc \<times> 'b builder \<times> tokens) res" where
  "stream_sfc_write_frames B fc =
     sfc_write (\<lambda>limit. [frame_type_code FT_StreamDataBlocked, sfc_subject fc, limit])
       (SRT_StreamDataBlocked (sfc_subject fc)) B fc"

definition streams_sfc_write_frames ::
    "'b Buffer \<Rightarrow> stream_type sender_fc \<Rightarrow> 'b builder \<Rightarrow> tokens \<Rightarrow> (stream_type sender_fc \<times> 'b builder \<times> tokens) res"
    where
  "streams_sfc_write_frames B fc =
     sfc_write (\<lambda>limit.
         [frame_type_code (case sfc_subject fc of BiDi \<Rightarrow> FT_StreamsBlockedBiDi | UniDi \<Rightarrow> FT_StreamsBlockedUniDi), limit])
       (SRT_StreamsBlocked (sfc_subject fc)) B fc"

subsection \<open>Receiving\<close>

definition WINDOW_UPDATE_FRACTION :: nat where "WINDOW_UPDATE_FRACTION = 4"
definition WINDOW_INCREASE_MULTIPLIER :: nat where "WINDOW_INCREASE_MULTIPLIER = 4"
definition MAX_LOCAL_MAX_STREAM_DATA :: nat where "MAX_LOCAL_MAX_STREAM_DATA = 10 * 1024 * 1024"
definition CONNECTION_FACTOR :: nat where "CONNECTION_FACTOR = 2"
definition MAX_LOCAL_MAX_DATA :: nat where "MAX_LOCAL_MAX_DATA = MAX_LOCAL_MAX_STREAM_DATA * CONNECTION_FACTOR"

record 'a receiver_fc =
  rfc_subject :: 'a
  max_active :: nat
  max_allowed :: nat
  last_update :: "nat option"
  rfc_consumed :: nat
  rfc_retired :: nat
  frame_pending :: bool

definition receiver_fc_new :: "'a \<Rightarrow> nat \<Rightarrow> 'a receiver_fc" where
  "receiver_fc_new subject m =
     \<lparr>rfc_subject = subject, max_active = m, max_allowed = m, last_update = None, rfc_consumed = 0,
      rfc_retired = 0, frame_pending = False\<rparr>"

definition should_send_update :: "'a receiver_fc \<Rightarrow> bool" where
  "should_send_update fc \<longleftrightarrow>
     u64_sub (max_allowed fc) (rfc_retired fc) < max_active fc - max_active fc div WINDOW_UPDATE_FRACTION"

definition rfc_retire :: "'a receiver_fc \<Rightarrow> nat \<Rightarrow> 'a receiver_fc" where
  "rfc_retire fc retired =
     (if retired \<le> rfc_retired fc then fc
      else
        (let fc' = fc\<lparr>rfc_retired := retired\<rparr>
         in if should_send_update fc' then fc'\<lparr>frame_pending := True\<rparr> else fc'))"

definition send_flowc_update :: "'a receiver_fc \<Rightarrow> 'a receiver_fc" where
  "send_flowc_update fc =
     (if max_allowed fc < u64_add (rfc_retired fc) (max_active fc) then fc\<lparr>frame_pending := True\<rparr> else fc)"

definition frame_needed :: "'a receiver_fc \<Rightarrow> bool" where
  "frame_needed fc = frame_pending fc"

definition next_limit :: "'a receiver_fc \<Rightarrow> nat" where
  "next_limit fc = min (u64_add (rfc_retired fc) (max_active fc)) MAX_VARINT"

definition rfc_frame_lost :: "'a receiver_fc \<Rightarrow> nat \<Rightarrow> 'a receiver_fc" where
  "rfc_frame_lost fc maximum_data = (if maximum_data = max_allowed fc then fc\<lparr>frame_pending := True\<rparr> else fc)"

definition rfc_frame_sent :: "'a receiver_fc \<Rightarrow> nat \<Rightarrow> 'a receiver_fc" where
  "rfc_frame_sent fc new_max = fc\<lparr>max_allowed := new_max, frame_pending := False\<rparr>"

definition set_max_active :: "'a receiver_fc \<Rightarrow> nat \<Rightarrow> 'a receiver_fc" where
  "set_max_active fc m = fc\<lparr>frame_pending := frame_pending fc \<or> max_active fc < m, max_active := m\<rparr>"

text \<open>\<open>duration_since\<close> is zero for a time in the future; \<open>rtt\<close> is at most \<open>u64::MAX\<close> microseconds.\<close>

definition auto_tune_inner :: "'a receiver_fc \<Rightarrow> nat \<Rightarrow> nat \<Rightarrow> nat \<Rightarrow> 'a receiver_fc" where
  "auto_tune_inner fc now rtt max_window =
     (case last_update fc of
        None \<Rightarrow> fc
      | Some sent_at \<Rightarrow>
          (let elapsed = now - sent_at
           in if U64_SIZE \<le> elapsed then fc
              else if rtt = 0 \<or> U64_SIZE \<le> rtt then fc
              else
                (let effective_window = u64_mul (max_active fc) (WINDOW_UPDATE_FRACTION - 1) div WINDOW_UPDATE_FRACTION;
                     expected = u64_mul effective_window elapsed div rtt;
                     used = u64_sub (max_active fc) (u64_sub (max_allowed fc) (rfc_retired fc))
                 in if used < expected then fc
                    else
                      (let excess = used - expected;
                           new_max = min (u64_add (max_active fc) (u64_mul excess WINDOW_INCREASE_MULTIPLIER)) max_window
                       in if new_max \<le> max_active fc then fc else fc\<lparr>max_active := new_max\<rparr>))))"

definition conn_auto_tune :: "unit receiver_fc \<Rightarrow> nat \<Rightarrow> nat \<Rightarrow> unit receiver_fc" where
  "conn_auto_tune fc now rtt = auto_tune_inner fc now rtt MAX_LOCAL_MAX_DATA"

definition stream_auto_tune :: "stream_id receiver_fc \<Rightarrow> nat \<Rightarrow> nat \<Rightarrow> stream_id receiver_fc" where
  "stream_auto_tune fc now rtt = auto_tune_inner fc now rtt MAX_LOCAL_MAX_STREAM_DATA"

definition conn_rfc_write_frames ::
    "'b Buffer \<Rightarrow> unit receiver_fc \<Rightarrow> 'b builder \<Rightarrow> tokens \<Rightarrow> nat \<Rightarrow> nat \<Rightarrow> (unit receiver_fc \<times> 'b builder \<times> tokens) res"
    where
  "conn_rfc_write_frames B fc b ts now rtt =
     (if \<not> frame_needed fc then Ok (fc, b, ts)
      else
        (let fc1 = conn_auto_tune fc now rtt;
             limit = next_limit fc1
         in bind_res (write_varint_frame B b [frame_type_code FT_MaxData, limit]) (\<lambda>(written, b').
              if written
              then Ok ((rfc_frame_sent fc1 limit)\<lparr>last_update := Some now\<rparr>, b', ts @ [Tok_Stream (SRT_MaxData limit)])
              else Ok (fc1, b', ts))))"

definition stream_rfc_write_frames ::
    "'b Buffer \<Rightarrow> stream_id receiver_fc \<Rightarrow> 'b builder \<Rightarrow> tokens \<Rightarrow> nat \<Rightarrow> nat
      \<Rightarrow> (stream_id receiver_fc \<times> 'b builder \<times> tokens) res" where
  "stream_rfc_write_frames B fc b ts now rtt =
     (if \<not> frame_needed fc then Ok (fc, b, ts)
      else
        (let fc1 = stream_auto_tune fc now rtt;
             limit = next_limit fc1
         in bind_res (write_varint_frame B b [frame_type_code FT_MaxStreamData, rfc_subject fc, limit]) (\<lambda>(written, b').
              if written
              then Ok ((rfc_frame_sent fc1 limit)\<lparr>last_update := Some now\<rparr>, b',
                       ts @ [Tok_Stream (SRT_MaxStreamData (rfc_subject fc) limit)])
              else Ok (fc1, b', ts))))"

definition streams_rfc_write_frames ::
    "'b Buffer \<Rightarrow> stream_type receiver_fc \<Rightarrow> 'b builder \<Rightarrow> tokens \<Rightarrow> (stream_type receiver_fc \<times> 'b builder \<times> tokens) res"
    where
  "streams_rfc_write_frames B fc b ts =
     (if \<not> frame_needed fc then Ok (fc, b, ts)
      else
        (let max_streams = min (next_limit fc) MAX_STREAMS_LIMIT;
             frame = (case rfc_subject fc of BiDi \<Rightarrow> FT_MaxStreamsBiDi | UniDi \<Rightarrow> FT_MaxStreamsUniDi)
         in bind_res (write_varint_frame B b [frame_type_code frame, max_streams]) (\<lambda>(written, b').
              if written
              then Ok (rfc_frame_sent fc max_streams, b', ts @ [Tok_Stream (SRT_MaxStreams (rfc_subject fc) max_streams)])
              else Ok (fc, b', ts))))"

text \<open>\<open>add_retired\<close> of the connection and of a stream are the same code.\<close>

definition rfc_add_retired :: "'a receiver_fc \<Rightarrow> nat \<Rightarrow> ('a receiver_fc) res" where
  "rfc_add_retired fc count =
     assert_res (u64_add (rfc_retired fc) count \<le> rfc_consumed fc)
       (let fc' = fc\<lparr>rfc_retired := u64_add (rfc_retired fc) count\<rparr>
        in Ok (if should_send_update fc' then fc'\<lparr>frame_pending := True\<rparr> else fc'))"

definition conn_rfc_consume :: "unit receiver_fc \<Rightarrow> nat \<Rightarrow> (unit receiver_fc) res" where
  "conn_rfc_consume fc count =
     (if max_allowed fc < u64_add (rfc_consumed fc) count then Err FlowControl
      else Ok (fc\<lparr>rfc_consumed := u64_add (rfc_consumed fc) count\<rparr>))"

definition set_consumed :: "stream_id receiver_fc \<Rightarrow> nat \<Rightarrow> (nat \<times> stream_id receiver_fc) res" where
  "set_consumed fc consumed =
     (if consumed \<le> rfc_consumed fc then Ok (0, fc)
      else if max_allowed fc < consumed then Err FlowControl
      else Ok (consumed - rfc_consumed fc, fc\<lparr>rfc_consumed := consumed\<rparr>))"

definition check_allowed :: "stream_type receiver_fc \<Rightarrow> nat \<Rightarrow> bool" where
  "check_allowed fc new_end \<longleftrightarrow> new_end < max_allowed fc"

definition streams_add_retired :: "stream_type receiver_fc \<Rightarrow> nat \<Rightarrow> stream_type receiver_fc" where
  "streams_add_retired fc count =
     (let fc' = fc\<lparr>rfc_retired := u64_add (rfc_retired fc) count\<rparr>
      in if 0 < count then send_flowc_update fc' else fc')"

subsection \<open>Numbers of streams\<close>

record remote_stream_limit =
  streams_fc :: "stream_type receiver_fc"
  next_stream :: stream_id

definition remote_stream_limit_new :: "stream_type \<Rightarrow> nat \<Rightarrow> role \<Rightarrow> remote_stream_limit" where
  "remote_stream_limit_new t max_streams r =
     \<lparr>streams_fc = receiver_fc_new t max_streams, next_stream = sid_init t (remote r)\<rparr>"

definition rsl_is_allowed :: "remote_stream_limit \<Rightarrow> stream_id \<Rightarrow> bool" where
  "rsl_is_allowed l s = check_allowed (streams_fc l) (drop_bit 2 s)"

definition is_new_stream :: "remote_stream_limit \<Rightarrow> stream_id \<Rightarrow> bool res" where
  "is_new_stream l s = (if \<not> rsl_is_allowed l s then Err StreamLimit else Ok (next_stream l \<le> s))"

definition rsl_take_stream_id :: "remote_stream_limit \<Rightarrow> (stream_id \<times> remote_stream_limit) res" where
  "rsl_take_stream_id l =
     (let new_stream = next_stream l;
          l' = l\<lparr>next_stream := sid_next (next_stream l)\<rparr>
      in assert_res (rsl_is_allowed l' new_stream) (Ok (new_stream, l')))"

type_synonym remote_stream_limits = "stream_type \<Rightarrow> remote_stream_limit"

definition remote_stream_limits_new :: "nat \<Rightarrow> nat \<Rightarrow> role \<Rightarrow> remote_stream_limits" where
  "remote_stream_limits_new bidi uni r t =
     remote_stream_limit_new t (case t of BiDi \<Rightarrow> bidi | UniDi \<Rightarrow> uni) r"

record local_stream_limits =
  lsl_limits :: "stream_type \<Rightarrow> stream_type sender_fc"
  lsl_role_bit :: nat

definition local_stream_limits_new :: "role \<Rightarrow> local_stream_limits" where
  "local_stream_limits_new r = \<lparr>lsl_limits = (\<lambda>t. sender_fc_new t 0), lsl_role_bit = role_bit r\<rparr>"

definition lsl_take_stream_id ::
    "local_stream_limits \<Rightarrow> stream_type \<Rightarrow> (stream_id option \<times> local_stream_limits) res" where
  "lsl_take_stream_id l t =
     (let fc = lsl_limits l t
      in if 0 < sfc_available fc then
           bind_res (sfc_consume fc 1) (\<lambda>fc'.
             Ok (Some (push_bit 2 (sfc_used fc) + stream_type_bits t + lsl_role_bit l),
                 l\<lparr>lsl_limits := (lsl_limits l)(t := fc')\<rparr>))
         else Ok (None, l\<lparr>lsl_limits := (lsl_limits l)(t := sfc_blocked fc)\<rparr>))"

end
