(* ===== verification/Events.thy ===== *)
theory Events
  imports Recovery_Token Packet
begin

text \<open>
  The state of a connection and what it signals: the event queue (\<open>neqo-common/src/event.rs\<close>), the events of a connection
  (\<open>neqo-transport/src/events.rs\<close>), the reasons for closing (\<open>neqo-transport/src/lib.rs\<close>), and \<open>State\<close>, \<open>ClosingFrame\<close> and
  \<open>StateSignaling\<close> (\<open>neqo-transport/src/connection/state.rs\<close>). The queue is shared between its clones; here it is a
  list that the operations take and return. Resumption tokens, socket addresses and paths are opaque types; the bit rate of a
  SCONE signal is computed in floating point and is a parameter.
\<close>

subsection \<open>The queue\<close>

definition q_push :: "'e list \<Rightarrow> 'e \<Rightarrow> 'e list" where
  "q_push q e = q @ [e]"

definition push_unique_by :: "'e list \<Rightarrow> 'e \<Rightarrow> ('e \<Rightarrow> bool) \<Rightarrow> 'e list" where
  "push_unique_by q e dup = (if list_ex dup q then q else q @ [e])"

definition push_unique :: "'e list \<Rightarrow> 'e \<Rightarrow> 'e list" where
  "push_unique q e = (if e \<in> set q then q else q @ [e])"

definition remove_matching :: "'e list \<Rightarrow> ('e \<Rightarrow> bool) \<Rightarrow> 'e list" where
  "remove_matching q f = filter (\<lambda>e. \<not> f e) q"

definition next_event :: "'e list \<Rightarrow> 'e option \<times> 'e list" where
  "next_event q = (case q of [] \<Rightarrow> (None, []) | e # q' \<Rightarrow> (Some e, q'))"

definition take_all :: "'e list \<Rightarrow> 'e list \<times> 'e list" where
  "take_all q = (q, [])"

subsection \<open>Connection states\<close>

type_synonym app_error = nat

definition ERROR_APPLICATION_CLOSE :: nat where "ERROR_APPLICATION_CLOSE = 12"
definition ERROR_CRYPTO_BUFFER_EXCEEDED :: nat where "ERROR_CRYPTO_BUFFER_EXCEEDED = 13"
definition ERROR_AEAD_LIMIT_REACHED :: nat where "ERROR_AEAD_LIMIT_REACHED = 15"

definition error_code :: "error \<Rightarrow> nat" where
  "error_code e =
     (case e of
        NoError \<Rightarrow> 0 | IdleTimeout \<Rightarrow> 0 | Peer _ \<Rightarrow> 0 | PeerApplication _ \<Rightarrow> 0
      | ConnectionRefused \<Rightarrow> 2 | FlowControl \<Rightarrow> 3 | StreamLimit \<Rightarrow> 4 | StreamState \<Rightarrow> 5 | FinalSize \<Rightarrow> 6
      | FrameEncoding \<Rightarrow> 7 | TransportParameter \<Rightarrow> 8 | ProtocolViolation \<Rightarrow> 10 | InvalidToken \<Rightarrow> 11
      | KeysExhausted \<Rightarrow> ERROR_AEAD_LIMIT_REACHED
      | Application \<Rightarrow> ERROR_APPLICATION_CLOSE
      | NoAvailablePath \<Rightarrow> 16 | TooManyPtos \<Rightarrow> 16
      | CryptoBufferExceeded \<Rightarrow> ERROR_CRYPTO_BUFFER_EXCEEDED
      | CryptoAlert a \<Rightarrow> 256 + unat a
      | EchRetry _ \<Rightarrow> 256 + 121
      | VersionNegotiation \<Rightarrow> 21496
      | _ \<Rightarrow> 1)"

datatype close_reason = CR_Transport error | CR_Application app_error

fun is_error :: "close_reason \<Rightarrow> bool" where
  "is_error (CR_Transport e) = (e \<noteq> NoError)"
| "is_error (CR_Application c) = (c \<noteq> 0)"

datatype conn_state =
    St_Init | St_WaitInitial | St_WaitVersion | St_Handshaking | St_Connected | St_Confirmed
  | St_Closing close_reason nat | St_Draining close_reason nat | St_Closed close_reason

definition st_connected :: "conn_state \<Rightarrow> bool" where
  "st_connected s = (case s of St_Connected \<Rightarrow> True | St_Confirmed \<Rightarrow> True | _ \<Rightarrow> False)"

definition st_closed :: "conn_state \<Rightarrow> bool" where
  "st_closed s = (case s of St_Closing _ _ \<Rightarrow> True | St_Draining _ _ \<Rightarrow> True | St_Closed _ \<Rightarrow> True | _ \<Rightarrow> False)"

definition st_error :: "conn_state \<Rightarrow> close_reason option" where
  "st_error s = (case s of St_Closing e _ \<Rightarrow> Some e | St_Draining e _ \<Rightarrow> Some e | St_Closed e \<Rightarrow> Some e | _ \<Rightarrow> None)"

definition st_closing :: "conn_state \<Rightarrow> bool" where
  "st_closing s = (case s of St_Closing _ _ \<Rightarrow> True | St_Draining _ _ \<Rightarrow> True | _ \<Rightarrow> False)"

subsection \<open>Connection events\<close>

datatype datagram_outcome = DroppedTooBig | DgLost | DgAcked

datatype ('tok, 'addr) connection_event =
    Ev_AuthenticationNeeded
  | Ev_EchFallbackAuthenticationNeeded bytes
  | Ev_NewStream stream_id
  | Ev_SendStreamWritable stream_id
  | Ev_RecvStreamReadable stream_id
  | Ev_RecvStreamReset stream_id app_error
  | Ev_SendStreamStopSending stream_id app_error
  | Ev_SendStreamComplete stream_id
  | Ev_SendStreamCreatable stream_type
  | Ev_StateChange conn_state
  | Ev_ZeroRttRejected
  | Ev_ResumptionToken 'tok
  | Ev_Datagram bytes
  | Ev_OutgoingDatagramOutcome nat datagram_outcome
  | Ev_OutgoingDatagramSpaceAvailable
  | Ev_SconeUpdated "nat option"
  | Ev_PathMigrated 'addr 'addr

type_synonym ('tok, 'addr) events = "('tok, 'addr) connection_event list"

definition authentication_needed :: "('tok, 'addr) events \<Rightarrow> ('tok, 'addr) events" where
  "authentication_needed q = q_push q Ev_AuthenticationNeeded"

definition ech_fallback_authentication_needed :: "('tok, 'addr) events \<Rightarrow> bytes \<Rightarrow> ('tok, 'addr) events" where
  "ech_fallback_authentication_needed q name = push_unique q (Ev_EchFallbackAuthenticationNeeded name)"

definition ev_new_stream :: "('tok, 'addr) events \<Rightarrow> stream_id \<Rightarrow> ('tok, 'addr) events" where
  "ev_new_stream q i = q_push q (Ev_NewStream i)"

definition recv_stream_readable :: "('tok, 'addr) events \<Rightarrow> stream_id \<Rightarrow> ('tok, 'addr) events" where
  "recv_stream_readable q i = push_unique q (Ev_RecvStreamReadable i)"

definition is_readable :: "stream_id \<Rightarrow> ('tok, 'addr) connection_event \<Rightarrow> bool" where
  "is_readable i e = (case e of Ev_RecvStreamReadable x \<Rightarrow> x = i | _ \<Rightarrow> False)"

definition recv_stream_reset :: "('tok, 'addr) events \<Rightarrow> stream_id \<Rightarrow> app_error \<Rightarrow> ('tok, 'addr) events" where
  "recv_stream_reset q i err =
     push_unique_by (remove_matching q (is_readable i)) (Ev_RecvStreamReset i err)
       (\<lambda>e. case e of Ev_RecvStreamReset x _ \<Rightarrow> x = i | _ \<Rightarrow> False)"

definition send_stream_writable :: "('tok, 'addr) events \<Rightarrow> stream_id \<Rightarrow> ('tok, 'addr) events" where
  "send_stream_writable q i = push_unique q (Ev_SendStreamWritable i)"

definition send_stream_stop_sending :: "('tok, 'addr) events \<Rightarrow> stream_id \<Rightarrow> app_error \<Rightarrow> ('tok, 'addr) events" where
  "send_stream_stop_sending q i err =
     push_unique_by (remove_matching q (\<lambda>e. case e of Ev_SendStreamWritable x \<Rightarrow> x = i | _ \<Rightarrow> False))
       (Ev_SendStreamStopSending i err) (\<lambda>e. case e of Ev_SendStreamStopSending x _ \<Rightarrow> x = i | _ \<Rightarrow> False)"

definition send_stream_complete :: "('tok, 'addr) events \<Rightarrow> stream_id \<Rightarrow> ('tok, 'addr) events" where
  "send_stream_complete q i =
     q_push (remove_matching q (\<lambda>e. case e of Ev_SendStreamWritable x \<Rightarrow> x = i | Ev_SendStreamStopSending x _ \<Rightarrow> x = i
                                   | Ev_SendStreamComplete x \<Rightarrow> x = i | _ \<Rightarrow> False))
       (Ev_SendStreamComplete i)"

definition send_stream_creatable :: "('tok, 'addr) events \<Rightarrow> stream_type \<Rightarrow> ('tok, 'addr) events" where
  "send_stream_creatable q t = push_unique q (Ev_SendStreamCreatable t)"

definition connection_state_change :: "('tok, 'addr) events \<Rightarrow> conn_state \<Rightarrow> ('tok, 'addr) events" where
  "connection_state_change q s =
     push_unique (case s of St_Closing _ _ \<Rightarrow> [] | St_Closed _ \<Rightarrow> [] | _ \<Rightarrow> q) (Ev_StateChange s)"

definition client_resumption_token :: "('tok, 'addr) events \<Rightarrow> 'tok \<Rightarrow> ('tok, 'addr) events" where
  "client_resumption_token q t = q_push q (Ev_ResumptionToken t)"

definition client_0rtt_rejected :: "('tok, 'addr) events \<Rightarrow> ('tok, 'addr) events" where
  "client_0rtt_rejected q = q_push [] Ev_ZeroRttRejected"

definition recv_stream_complete :: "('tok, 'addr) events \<Rightarrow> stream_id \<Rightarrow> ('tok, 'addr) events" where
  "recv_stream_complete q i = remove_matching q (is_readable i)"

definition scone_updated :: "(bitrate \<Rightarrow> nat option) \<Rightarrow> ('tok, 'addr) events \<Rightarrow> bitrate \<Rightarrow> ('tok, 'addr) events" where
  "scone_updated rate_of q s =
     push_unique (remove_matching q (\<lambda>e. case e of Ev_SconeUpdated _ \<Rightarrow> True | _ \<Rightarrow> False)) (Ev_SconeUpdated (rate_of s))"

definition add_datagram :: "('tok, 'addr) events \<Rightarrow> bytes \<Rightarrow> ('tok, 'addr) events" where
  "add_datagram q data = q_push q (Ev_Datagram data)"

definition datagram_space_available :: "('tok, 'addr) events \<Rightarrow> ('tok, 'addr) events" where
  "datagram_space_available q = push_unique q Ev_OutgoingDatagramSpaceAvailable"

definition ev_datagram_outcome ::
    "('tok, 'addr) events \<Rightarrow> datagram_tracking \<Rightarrow> datagram_outcome \<Rightarrow> ('tok, 'addr) events" where
  "ev_datagram_outcome q t out = (case t of DT_Id i \<Rightarrow> q_push q (Ev_OutgoingDatagramOutcome i out) | DT_None \<Rightarrow> q)"

definition path_migrated :: "('tok, 'addr) events \<Rightarrow> 'addr \<Rightarrow> 'addr \<Rightarrow> ('tok, 'addr) events" where
  "path_migrated q loc rem = q_push q (Ev_PathMigrated loc rem)"

subsection \<open>Signalling the end of a connection\<close>

record 'p closing_frame =
  cf_path :: 'p
  cf_error :: close_reason
  cf_frame_type :: nat
  cf_reason_phrase :: bytes

definition sanitize :: "'p closing_frame \<Rightarrow> 'p closing_frame option" where
  "sanitize f =
     (case cf_error f of
        CR_Application _ \<Rightarrow>
          Some \<lparr>cf_path = cf_path f, cf_error = CR_Transport Application,
                cf_frame_type = frame_type_code FT_Padding, cf_reason_phrase = []\<rparr>
      | CR_Transport _ \<Rightarrow> None)"

definition CLOSING_MIN_LENGTH :: nat where "CLOSING_MIN_LENGTH = 1 + 8 + 8 + 2 + 8"

definition closing_write_frame :: "'b Buffer \<Rightarrow> 'p closing_frame \<Rightarrow> 'b builder \<Rightarrow> ('b builder) res" where
  "closing_write_frame B f b =
     (if builder_remaining B b < CLOSING_MIN_LENGTH then Ok b
      else
        (let available = min 256 (builder_remaining B b)
         in bind_res (vvec_len (length (cf_reason_phrase f))) (\<lambda>n.
              (let reason = (if available < n then take (available - 2) (cf_reason_phrase f) else cf_reason_phrase f)
               in bind_res
                    (case cf_error f of
                       CR_Transport e \<Rightarrow>
                         encode_frame B (b_enc b) (frame_type_code FT_ConnectionCloseTransport) (\<lambda>e1.
                           bind_res (encode_varints B [error_code e, cf_frame_type f] e1) (\<lambda>e2. encode_vvec B e2 reason))
                     | CR_Application code \<Rightarrow>
                         encode_frame B (b_enc b) (frame_type_code FT_ConnectionCloseApplication) (\<lambda>e1.
                           bind_res (encode_varints B [code] e1) (\<lambda>e2. encode_vvec B e2 reason)))
                    (\<lambda>e'. Ok (b\<lparr>b_enc := e'\<rparr>))))))"

datatype 'p signaling =
    Sig_Idle | Sig_HandshakeDone
  | Sig_Closing "'p closing_frame" | Sig_Draining "'p closing_frame"
  | Sig_CloseSent "'p closing_frame option" | Sig_Reset

definition sig_handshake_done :: "'p signaling \<Rightarrow> 'p signaling" where
  "sig_handshake_done s = (case s of Sig_Idle \<Rightarrow> Sig_HandshakeDone | _ \<Rightarrow> s)"

definition write_done :: "'b Buffer \<Rightarrow> 'p signaling \<Rightarrow> 'b builder \<Rightarrow> (token option \<times> 'p signaling \<times> 'b builder) res" where
  "write_done B s b =
     (if s = Sig_HandshakeDone \<and> 1 \<le> builder_remaining B b
      then bind_res (encode_frame B (b_enc b) (frame_type_code FT_HandshakeDone) Ok) (\<lambda>e.
             Ok (Some Tok_HandshakeDone, Sig_Idle, b\<lparr>b_enc := e\<rparr>))
      else Ok (None, s, b))"

definition closing_frame_new :: "'p \<Rightarrow> close_reason \<Rightarrow> nat \<Rightarrow> bytes \<Rightarrow> 'p closing_frame" where
  "closing_frame_new p e ft message = \<lparr>cf_path = p, cf_error = e, cf_frame_type = ft, cf_reason_phrase = message\<rparr>"

definition sig_close :: "'p signaling \<Rightarrow> 'p \<Rightarrow> close_reason \<Rightarrow> nat \<Rightarrow> bytes \<Rightarrow> 'p signaling" where
  "sig_close s p e ft message =
     (case s of Sig_Reset \<Rightarrow> s | _ \<Rightarrow> Sig_Closing (closing_frame_new p e ft message))"

definition sig_drain :: "'p signaling \<Rightarrow> 'p \<Rightarrow> close_reason \<Rightarrow> nat \<Rightarrow> bytes \<Rightarrow> 'p signaling" where
  "sig_drain s p e ft message =
     (case s of Sig_Reset \<Rightarrow> s | _ \<Rightarrow> Sig_Draining (closing_frame_new p e ft message))"

definition close_frame :: "'p signaling \<Rightarrow> 'p closing_frame option \<times> 'p signaling" where
  "close_frame s =
     (case s of
        Sig_Closing f \<Rightarrow> (Some f, Sig_CloseSent (Some f))
      | Sig_Draining f \<Rightarrow> (Some f, Sig_CloseSent None)
      | _ \<Rightarrow> (None, s))"

definition send_close :: "'p signaling \<Rightarrow> 'p signaling" where
  "send_close s = (case s of Sig_CloseSent (Some f) \<Rightarrow> Sig_Closing f | _ \<Rightarrow> s)"

definition sig_reset :: "'p signaling \<Rightarrow> 'p signaling" where
  "sig_reset s = Sig_Reset"

end
