(* ===== verification/Recv_Stream.thy ===== *)
theory Recv_Stream
  imports Recv_Buffer Flow_Control Events
begin

text \<open>
  Receive streams (\<open>neqo-transport/src/recv_stream.rs\<close>): \<open>RecvStreamState\<close>, \<open>RecvStream\<close> and \<open>RecvStreams\<close>. The flow
  controller of the connection, which all streams share, and the event queue are passed through the operations. The reference
  count behind \<open>keep_alive\<close> is a flag per stream. An operation that fails returns the error only: the connection is closed.
\<close>

type_synonym stream_fc = "stream_id receiver_fc"
type_synonym session_fc = "unit receiver_fc"

datatype (plugins only: code size) recv_state =
    RS_Recv stream_fc rx_orderer
  | RS_SizeKnown stream_fc rx_orderer
  | RS_SizeKnownAt stream_fc rx_orderer app_error nat nat
  | RS_DataRecvd stream_fc rx_orderer
  | RS_DataRead nat nat
  | RS_AbortReading stream_fc bool bool app_error nat nat
  | RS_WaitForReset stream_fc nat nat
  | RS_ResetRecvd nat nat

definition recv_state_new :: "nat \<Rightarrow> stream_id \<Rightarrow> recv_state" where
  "recv_state_new max_bytes i = RS_Recv (receiver_fc_new i max_bytes) rx_new"

definition recv_buf :: "recv_state \<Rightarrow> rx_orderer option" where
  "recv_buf st =
     (case st of
        RS_Recv _ b \<Rightarrow> Some b | RS_SizeKnown _ b \<Rightarrow> Some b | RS_SizeKnownAt _ b _ _ _ \<Rightarrow> Some b | RS_DataRecvd _ b \<Rightarrow> Some b
      | _ \<Rightarrow> None)"

text \<open>The discriminant of a state.\<close>

definition state_tag :: "recv_state \<Rightarrow> nat" where
  "state_tag st =
     (case st of
        RS_Recv _ _ \<Rightarrow> 0 | RS_SizeKnown _ _ \<Rightarrow> 1 | RS_SizeKnownAt _ _ _ _ _ \<Rightarrow> 2 | RS_DataRecvd _ _ \<Rightarrow> 3
      | RS_DataRead _ _ \<Rightarrow> 4 | RS_AbortReading _ _ _ _ _ _ \<Rightarrow> 5 | RS_WaitForReset _ _ _ \<Rightarrow> 6 | RS_ResetRecvd _ _ \<Rightarrow> 7)"

definition flow_control_retire_data :: "nat \<Rightarrow> stream_fc \<Rightarrow> session_fc \<Rightarrow> (stream_fc \<times> session_fc) res" where
  "flow_control_retire_data new_read fc sfc =
     (if 0 < new_read
      then bind_res (rfc_add_retired fc new_read) (\<lambda>fc'. bind_res (rfc_add_retired sfc new_read) (\<lambda>sfc'. Ok (fc', sfc')))
      else Ok (fc, sfc))"

text \<open>\<open>flow_control_consume_data\<close> after the match on the state.\<close>

definition consume_data ::
    "stream_fc \<Rightarrow> session_fc \<Rightarrow> bool \<Rightarrow> bool \<Rightarrow> nat \<Rightarrow> bool \<Rightarrow> (stream_fc \<times> session_fc) res" where
  "consume_data fc sfc final_size_reached retire_data consumed fin =
     (let final_size_ok =
            (if fin \<and> final_size_reached then consumed = rfc_consumed fc
             else if final_size_reached then consumed \<le> rfc_consumed fc
             else if fin then rfc_consumed fc \<le> consumed
             else True)
      in if \<not> final_size_ok then Err FinalSize
         else
           bind_res (set_consumed fc consumed) (\<lambda>(new_bytes, fc1).
           bind_res (conn_rfc_consume sfc new_bytes) (\<lambda>sfc1.
             if retire_data then flow_control_retire_data (u64_sub (rfc_consumed fc1) (rfc_retired fc1)) fc1 sfc1
             else Ok (fc1, sfc1))))"

definition flow_control_consume_data :: "recv_state \<Rightarrow> session_fc \<Rightarrow> nat \<Rightarrow> bool \<Rightarrow> (recv_state \<times> session_fc) res" where
  "flow_control_consume_data st sfc consumed fin =
     (case st of
        RS_Recv fc b \<Rightarrow>
          bind_res (consume_data fc sfc False False consumed fin) (\<lambda>(fc', sfc'). Ok (RS_Recv fc' b, sfc'))
      | RS_WaitForReset fc r d \<Rightarrow>
          bind_res (consume_data fc sfc False True consumed fin) (\<lambda>(fc', sfc'). Ok (RS_WaitForReset fc' r d, sfc'))
      | RS_SizeKnown fc b \<Rightarrow>
          bind_res (consume_data fc sfc True False consumed fin) (\<lambda>(fc', sfc'). Ok (RS_SizeKnown fc' b, sfc'))
      | RS_SizeKnownAt fc b e fs rs \<Rightarrow>
          bind_res (consume_data fc sfc True False consumed fin) (\<lambda>(fc', sfc'). Ok (RS_SizeKnownAt fc' b e fs rs, sfc'))
      | RS_DataRecvd fc b \<Rightarrow>
          bind_res (consume_data fc sfc True False consumed fin) (\<lambda>(fc', sfc'). Ok (RS_DataRecvd fc' b, sfc'))
      | RS_AbortReading fc reached needed e r d \<Rightarrow>
          bind_res (consume_data fc sfc reached True consumed fin) (\<lambda>(fc', sfc').
            Ok (RS_AbortReading fc' (reached \<or> fin) needed e r d, sfc'))
      | RS_DataRead _ _ \<Rightarrow> Ok (st, sfc)
      | RS_ResetRecvd _ _ \<Rightarrow> Ok (st, sfc))"

record recv_stream =
  rs_id :: stream_id
  rs_state :: recv_state
  rs_keep_alive :: bool

definition recv_stream_new :: "stream_id \<Rightarrow> nat \<Rightarrow> recv_stream" where
  "recv_stream_new i max_stream_data = \<lparr>rs_id = i, rs_state = recv_state_new max_stream_data i, rs_keep_alive = False\<rparr>"

definition set_state :: "recv_stream \<Rightarrow> ('t, 'a) events \<Rightarrow> recv_state \<Rightarrow> (recv_stream \<times> ('t, 'a) events) res" where
  "set_state s q new_state =
     assert_res (state_tag (rs_state s) \<noteq> state_tag new_state)
       (case new_state of
          RS_DataRecvd _ _ \<Rightarrow> Ok (s\<lparr>rs_keep_alive := False, rs_state := new_state\<rparr>, q)
        | RS_AbortReading _ _ _ _ _ _ \<Rightarrow> Ok (s\<lparr>rs_keep_alive := False, rs_state := new_state\<rparr>, q)
        | RS_ResetRecvd _ _ \<Rightarrow> Ok (s\<lparr>rs_keep_alive := False, rs_state := new_state\<rparr>, q)
        | RS_DataRead _ _ \<Rightarrow> Ok (s\<lparr>rs_state := new_state\<rparr>, recv_stream_complete q (rs_id s))
        | _ \<Rightarrow> Ok (s\<lparr>rs_state := new_state\<rparr>, q))"

definition rs_stats :: "recv_stream \<Rightarrow> nat \<times> nat" where
  "rs_stats s =
     (case rs_state s of
        RS_Recv _ b \<Rightarrow> (rx_received b, rx_retired b)
      | RS_SizeKnown _ b \<Rightarrow> (rx_received b, rx_retired b)
      | RS_SizeKnownAt _ b _ _ _ \<Rightarrow> (rx_received b, rx_retired b)
      | RS_DataRecvd _ b \<Rightarrow> (rx_received b, rx_retired b)
      | RS_AbortReading _ _ _ _ r d \<Rightarrow> (r, d)
      | RS_WaitForReset _ r d \<Rightarrow> (r, d)
      | RS_DataRead r d \<Rightarrow> (r, d)
      | RS_ResetRecvd r d \<Rightarrow> (r, d))"

definition is_ended :: "recv_stream \<Rightarrow> bool" where
  "is_ended s = (case rs_state s of RS_ResetRecvd _ _ \<Rightarrow> True | RS_DataRead _ _ \<Rightarrow> True | _ \<Rightarrow> False)"

definition needs_to_inform_app_about_fin :: "recv_stream \<Rightarrow> bool" where
  "needs_to_inform_app_about_fin s = (case rs_state s of RS_DataRecvd _ _ \<Rightarrow> True | _ \<Rightarrow> False)"

definition rs_data_ready :: "recv_stream \<Rightarrow> bool" where
  "rs_data_ready s = (case recv_buf (rs_state s) of None \<Rightarrow> False | Some b \<Rightarrow> rx_data_ready b)"

definition all_recv :: "stream_fc \<Rightarrow> rx_orderer \<Rightarrow> bool" where
  "all_recv fc b \<longleftrightarrow> rfc_consumed fc = u64_add (rx_retired b) (bytes_ready b)"

text \<open>The match on the state in \<open>inbound_stream_frame\<close>.\<close>

definition buffer_frame ::
    "recv_stream \<Rightarrow> ('t, 'a) events \<Rightarrow> bool \<Rightarrow> nat \<Rightarrow> bytes \<Rightarrow> (recv_stream \<times> ('t, 'a) events) res" where
  "buffer_frame s q fin offset data =
     (case rs_state s of
        RS_Recv fc b \<Rightarrow>
          bind_res (inbound_frame b offset data) (\<lambda>b'.
            if fin
            then set_state (s\<lparr>rs_state := RS_Recv fc b'\<rparr>) q (if all_recv fc b' then RS_DataRecvd fc b' else RS_SizeKnown fc b')
            else Ok (s\<lparr>rs_state := RS_Recv fc b'\<rparr>, q))
      | RS_SizeKnown fc b \<Rightarrow>
          bind_res (inbound_frame b offset data) (\<lambda>b'.
            if all_recv fc b' then set_state (s\<lparr>rs_state := RS_SizeKnown fc b'\<rparr>) q (RS_DataRecvd fc b')
            else Ok (s\<lparr>rs_state := RS_SizeKnown fc b'\<rparr>, q))
      | RS_SizeKnownAt fc b e fs reliable_size \<Rightarrow>
          (let keep = reliable_size - offset
           in if 0 < keep
              then bind_res (inbound_frame b offset (take keep data)) (\<lambda>b'.
                     Ok (s\<lparr>rs_state := RS_SizeKnownAt fc b' e fs reliable_size\<rparr>, q))
              else Ok (s, q))
      | _ \<Rightarrow> Ok (s, q))"

definition inbound_stream_frame ::
    "recv_stream \<Rightarrow> session_fc \<Rightarrow> ('t, 'a) events \<Rightarrow> bool \<Rightarrow> nat \<Rightarrow> bytes \<Rightarrow> (recv_stream \<times> session_fc \<times> ('t, 'a) events) res"
    where
  "inbound_stream_frame s sfc q fin offset data =
     (let already_data_ready = rs_data_ready s;
          new_end = u64_add offset (length data)
      in bind_res (flow_control_consume_data (rs_state s) sfc new_end fin) (\<lambda>(st, sfc').
         bind_res (buffer_frame (s\<lparr>rs_state := st\<rparr>) q fin offset data) (\<lambda>(s', q').
           Ok (s', sfc', if \<not> already_data_ready \<and> (rs_data_ready s' \<or> needs_to_inform_app_about_fin s')
                         then recv_stream_readable q' (rs_id s') else q'))))"

definition finish_reset ::
    "recv_stream \<Rightarrow> session_fc \<Rightarrow> ('t, 'a) events \<Rightarrow> nat \<Rightarrow> app_error \<Rightarrow> nat \<Rightarrow> nat
      \<Rightarrow> (bool \<times> recv_stream \<times> session_fc \<times> ('t, 'a) events) res" where
  "finish_reset s sfc q final_size err final_received final_read =
     bind_res
       (case rs_state s of
          RS_SizeKnownAt fc _ _ _ _ \<Rightarrow>
            bind_res (flow_control_retire_data (u64_sub final_size (rfc_retired fc)) fc sfc) (\<lambda>(_, sfc'). Ok sfc')
        | RS_AbortReading fc _ _ _ _ _ \<Rightarrow>
            bind_res (flow_control_retire_data (u64_sub final_size (rfc_retired fc)) fc sfc) (\<lambda>(_, sfc'). Ok sfc')
        | RS_WaitForReset fc _ _ \<Rightarrow>
            bind_res (flow_control_retire_data (u64_sub final_size (rfc_retired fc)) fc sfc) (\<lambda>(_, sfc'). Ok sfc')
        | _ \<Rightarrow> Ok sfc)
       (\<lambda>sfc'.
         bind_res (set_state s (recv_stream_reset q (rs_id s) err) (RS_ResetRecvd final_received final_read)) (\<lambda>(s', q').
           Ok (True, s', sfc', q')))"

definition complete_reliable_reset_if_drained ::
    "recv_stream \<Rightarrow> session_fc \<Rightarrow> ('t, 'a) events \<Rightarrow> (bool \<times> recv_stream \<times> session_fc \<times> ('t, 'a) events) res" where
  "complete_reliable_reset_if_drained s sfc q =
     (case rs_state s of
        RS_SizeKnownAt fc b err final_size reliable_size \<Rightarrow>
          if rx_retired b < reliable_size then Ok (False, s, sfc, q)
          else finish_reset s sfc q final_size err (rx_received b) (rx_retired b)
      | _ \<Rightarrow> Ok (False, s, sfc, q))"

definition retire_undeliverable ::
    "nat \<Rightarrow> nat \<Rightarrow> nat \<Rightarrow> stream_fc \<Rightarrow> session_fc \<Rightarrow> (stream_fc \<times> session_fc) res" where
  "retire_undeliverable final_size reliable_size read fc sfc =
     (let still_needed = reliable_size - read;
          target_retired = u64_sub final_size still_needed
      in flow_control_retire_data (target_retired - rfc_retired fc) fc sfc)"

text \<open>The arm of \<open>reset\<close> for a stream whose data was being delivered.\<close>

definition start_reset ::
    "recv_stream \<Rightarrow> session_fc \<Rightarrow> ('t, 'a) events \<Rightarrow> stream_fc \<Rightarrow> rx_orderer \<Rightarrow> app_error \<Rightarrow> nat \<Rightarrow> nat
      \<Rightarrow> (bool \<times> recv_stream \<times> session_fc \<times> ('t, 'a) events) res" where
  "start_reset s sfc q fc b err final_size reliable_size =
     (let b' = discard_after b reliable_size
      in bind_res (retire_undeliverable final_size reliable_size (rx_retired b') fc sfc) (\<lambda>(fc', sfc').
         bind_res (set_state s q (RS_SizeKnownAt fc' b' err final_size reliable_size)) (\<lambda>(s', q').
           complete_reliable_reset_if_drained s' sfc' q')))"

text \<open>The match on the state in \<open>reset\<close>.\<close>

definition reset_state ::
    "recv_stream \<Rightarrow> session_fc \<Rightarrow> ('t, 'a) events \<Rightarrow> app_error \<Rightarrow> nat \<Rightarrow> nat
      \<Rightarrow> (bool \<times> recv_stream \<times> session_fc \<times> ('t, 'a) events) res" where
  "reset_state s sfc q err final_size reliable_size =
     (case rs_state s of
        RS_Recv fc b \<Rightarrow> start_reset s sfc q fc b err final_size reliable_size
      | RS_SizeKnown fc b \<Rightarrow> start_reset s sfc q fc b err final_size reliable_size
      | RS_SizeKnownAt fc b e fs stored \<Rightarrow>
          if err \<noteq> e then Err StreamState
          else if reliable_size < stored then
            (let b' = discard_after b reliable_size
             in bind_res (retire_undeliverable fs reliable_size (rx_retired b') fc sfc) (\<lambda>(fc', sfc').
                  complete_reliable_reset_if_drained (s\<lparr>rs_state := RS_SizeKnownAt fc' b' e fs reliable_size\<rparr>) sfc' q))
          else Ok (False, s, sfc, q)
      | RS_AbortReading _ _ _ _ r d \<Rightarrow> finish_reset s sfc q final_size err r d
      | RS_WaitForReset _ r d \<Rightarrow> finish_reset s sfc q final_size err r d
      | _ \<Rightarrow> Ok (False, s, sfc, q))"

definition rs_reset ::
    "recv_stream \<Rightarrow> session_fc \<Rightarrow> ('t, 'a) events \<Rightarrow> app_error \<Rightarrow> nat \<Rightarrow> nat
      \<Rightarrow> (bool \<times> recv_stream \<times> session_fc \<times> ('t, 'a) events) res" where
  "rs_reset s sfc q err final_size reliable_size =
     (if final_size < reliable_size then Err FrameEncoding
      else
        bind_res (flow_control_consume_data (rs_state s) sfc final_size True) (\<lambda>(st, sfc1).
          reset_state (s\<lparr>rs_state := st\<rparr>) sfc1 q err final_size reliable_size))"

definition rs_send_flowc_update :: "recv_stream \<Rightarrow> recv_stream" where
  "rs_send_flowc_update s =
     (case rs_state s of RS_Recv fc b \<Rightarrow> s\<lparr>rs_state := RS_Recv (send_flowc_update fc) b\<rparr> | _ \<Rightarrow> s)"

definition set_stream_max_data :: "recv_stream \<Rightarrow> nat \<Rightarrow> recv_stream" where
  "set_stream_max_data s max_data =
     (case rs_state s of RS_Recv fc b \<Rightarrow> s\<lparr>rs_state := RS_Recv (set_max_active fc max_data) b\<rparr> | _ \<Rightarrow> s)"

text \<open>\<open>rs_read\<close> returns the bytes that are copied into a buffer with the given space, and whether the end was read.\<close>

definition rs_read ::
    "recv_stream \<Rightarrow> session_fc \<Rightarrow> ('t, 'a) events \<Rightarrow> nat \<Rightarrow> ((bytes \<times> bool) \<times> recv_stream \<times> session_fc \<times> ('t, 'a) events) res"
    where
  "rs_read s sfc q space =
     (case rs_state s of
        RS_Recv fc b \<Rightarrow>
          bind_res (rx_read b space) (\<lambda>(out, b').
          bind_res (flow_control_retire_data (length out) fc sfc) (\<lambda>(fc', sfc').
            Ok ((out, False), s\<lparr>rs_state := RS_Recv fc' b'\<rparr>, sfc', q)))
      | RS_SizeKnown fc b \<Rightarrow>
          bind_res (rx_read b space) (\<lambda>(out, b').
          bind_res (flow_control_retire_data (length out) fc sfc) (\<lambda>(fc', sfc').
            Ok ((out, False), s\<lparr>rs_state := RS_SizeKnown fc' b'\<rparr>, sfc', q)))
      | RS_DataRecvd fc b \<Rightarrow>
          bind_res (rx_read b space) (\<lambda>(out, b').
          bind_res (flow_control_retire_data (length out) fc sfc) (\<lambda>(fc', sfc').
            if rx_buffered b' = 0
            then bind_res (set_state (s\<lparr>rs_state := RS_DataRecvd fc' b'\<rparr>) q (RS_DataRead (rx_received b') (rx_retired b')))
                   (\<lambda>(s', q'). Ok ((out, True), s', sfc', q'))
            else Ok ((out, False), s\<lparr>rs_state := RS_DataRecvd fc' b'\<rparr>, sfc', q)))
      | RS_SizeKnownAt fc b e fs rs \<Rightarrow>
          bind_res (rx_read b space) (\<lambda>(out, b').
          bind_res (flow_control_retire_data (length out) fc sfc) (\<lambda>(fc', sfc').
          bind_res (complete_reliable_reset_if_drained (s\<lparr>rs_state := RS_SizeKnownAt fc' b' e fs rs\<rparr>) sfc' q)
            (\<lambda>(_, s', sfc'', q'). Ok ((out, False), s', sfc'', q'))))
      | _ \<Rightarrow> Err NoMoreData)"

text \<open>The arm of \<open>stop_sending\<close> that starts to abandon the stream.\<close>

definition abort_reading ::
    "recv_stream \<Rightarrow> session_fc \<Rightarrow> ('t, 'a) events \<Rightarrow> stream_fc \<Rightarrow> rx_orderer \<Rightarrow> bool \<Rightarrow> app_error
      \<Rightarrow> (bool \<times> recv_stream \<times> session_fc \<times> ('t, 'a) events) res" where
  "abort_reading s sfc q fc b size_known err =
     bind_res (flow_control_retire_data (u64_sub (rfc_consumed fc) (rfc_retired fc)) fc sfc) (\<lambda>(fc', sfc').
     bind_res (set_state s q (RS_AbortReading fc' size_known True err (rx_received b) (rx_retired b))) (\<lambda>(s', q').
       Ok (False, s', sfc', q')))"

definition rs_stop_sending ::
    "recv_stream \<Rightarrow> session_fc \<Rightarrow> ('t, 'a) events \<Rightarrow> app_error
      \<Rightarrow> (bool \<times> recv_stream \<times> session_fc \<times> ('t, 'a) events) res" where
  "rs_stop_sending s sfc q err =
     (case rs_state s of
        RS_Recv fc b \<Rightarrow> abort_reading s sfc q fc b False err
      | RS_SizeKnown fc b \<Rightarrow> abort_reading s sfc q fc b True err
      | RS_DataRecvd fc b \<Rightarrow>
          bind_res (flow_control_retire_data (u64_sub (rfc_consumed fc) (rfc_retired fc)) fc sfc) (\<lambda>(fc', sfc').
          bind_res (set_state s q (RS_DataRead (rx_received b) (rx_retired b))) (\<lambda>(s', q'). Ok (True, s', sfc', q')))
      | RS_SizeKnownAt fc b e final_size _ \<Rightarrow> finish_reset s sfc q final_size e (rx_received b) (rx_retired b)
      | _ \<Rightarrow> Ok (False, s, sfc, q))"

definition rs_write_frame ::
    "'b Buffer \<Rightarrow> recv_stream \<Rightarrow> 'b builder \<Rightarrow> tokens \<Rightarrow> nat \<Rightarrow> nat \<Rightarrow> (recv_stream \<times> 'b builder \<times> tokens) res" where
  "rs_write_frame B s b ts now rtt =
     (case rs_state s of
        RS_Recv fc buf \<Rightarrow>
          bind_res (stream_rfc_write_frames B fc b ts now rtt) (\<lambda>(fc', b', ts'). Ok (s\<lparr>rs_state := RS_Recv fc' buf\<rparr>, b', ts'))
      | RS_AbortReading fc reached needed err r d \<Rightarrow>
          if needed then
            bind_res (write_varint_frame B b [frame_type_code FT_StopSending, rs_id s, err]) (\<lambda>(written, b').
              if written
              then Ok (s\<lparr>rs_state := RS_AbortReading fc reached False err r d\<rparr>, b', ts @ [Tok_Stream (SRT_StopSending (rs_id s))])
              else Ok (s, b', ts))
          else Ok (s, b, ts)
      | _ \<Rightarrow> Ok (s, b, ts))"

definition max_stream_data_lost :: "recv_stream \<Rightarrow> nat \<Rightarrow> recv_stream" where
  "max_stream_data_lost s maximum_data =
     (case rs_state s of RS_Recv fc b \<Rightarrow> s\<lparr>rs_state := RS_Recv (rfc_frame_lost fc maximum_data) b\<rparr> | _ \<Rightarrow> s)"

definition stop_sending_lost :: "recv_stream \<Rightarrow> recv_stream" where
  "stop_sending_lost s =
     (case rs_state s of
        RS_AbortReading fc reached _ err r d \<Rightarrow> s\<lparr>rs_state := RS_AbortReading fc reached True err r d\<rparr>
      | _ \<Rightarrow> s)"

definition rs_stop_sending_acked :: "recv_stream \<Rightarrow> ('t, 'a) events \<Rightarrow> (bool \<times> recv_stream \<times> ('t, 'a) events) res" where
  "rs_stop_sending_acked s q =
     (case rs_state s of
        RS_AbortReading fc reached _ _ r d \<Rightarrow>
          if reached then bind_res (set_state s q (RS_ResetRecvd r d)) (\<lambda>(s', q'). Ok (True, s', q'))
          else bind_res (set_state s q (RS_WaitForReset fc r d)) (\<lambda>(s', q'). Ok (False, s', q'))
      | _ \<Rightarrow> Ok (False, s, q))"

subsection \<open>All receive streams\<close>

record recv_streams =
  r_streams :: "recv_stream btree_map"
  r_has_ended :: bool
  r_role :: role

definition recv_streams_new :: "role \<Rightarrow> recv_streams" where
  "recv_streams_new r = \<lparr>r_streams = [], r_has_ended = False, r_role = r\<rparr>"

fun r_write_loop ::
    "'b Buffer \<Rightarrow> recv_stream btree_map \<Rightarrow> 'b builder \<Rightarrow> tokens \<Rightarrow> nat \<Rightarrow> nat
      \<Rightarrow> (recv_stream btree_map \<times> 'b builder \<times> tokens) res" where
  "r_write_loop B [] b ts now rtt = Ok ([], b, ts)"
| "r_write_loop B ((i, s) # m) b ts now rtt =
     bind_res (rs_write_frame B s b ts now rtt) (\<lambda>(s', b', ts').
       if is_full B b' then Ok ((i, s') # m, b', ts')
       else bind_res (r_write_loop B m b' ts' now rtt) (\<lambda>(m', b'', ts''). Ok ((i, s') # m', b'', ts'')))"

definition r_write_frames ::
    "'b Buffer \<Rightarrow> recv_streams \<Rightarrow> 'b builder \<Rightarrow> tokens \<Rightarrow> nat \<Rightarrow> nat \<Rightarrow> (recv_streams \<times> 'b builder \<times> tokens) res" where
  "r_write_frames B ss b ts now rtt =
     bind_res (r_write_loop B (r_streams ss) b ts now rtt) (\<lambda>(m, b', ts'). Ok (ss\<lparr>r_streams := m\<rparr>, b', ts'))"

definition r_insert :: "recv_streams \<Rightarrow> stream_id \<Rightarrow> recv_stream \<Rightarrow> recv_streams" where
  "r_insert ss i s = ss\<lparr>r_streams := bt_insert i s (r_streams ss)\<rparr>"

definition r_get :: "recv_streams \<Rightarrow> stream_id \<Rightarrow> recv_stream res" where
  "r_get ss i = (case bt_get (r_streams ss) i of None \<Rightarrow> Err InvalidStreamId | Some s \<Rightarrow> Ok s)"

text \<open>Writing back a stream that \<open>get_mut\<close> returned.\<close>

definition r_put :: "recv_streams \<Rightarrow> stream_id \<Rightarrow> recv_stream \<Rightarrow> recv_streams" where
  "r_put ss i s = ss\<lparr>r_streams := bt_modify i (\<lambda>_. s) (r_streams ss)\<rparr>"

definition r_keep_alive :: "recv_streams \<Rightarrow> stream_id \<Rightarrow> bool \<Rightarrow> recv_streams res" where
  "r_keep_alive ss i k = bind_res (r_get ss i) (\<lambda>s. Ok (r_put ss i (s\<lparr>rs_keep_alive := k\<rparr>)))"

definition r_need_keep_alive :: "recv_streams \<Rightarrow> bool" where
  "r_need_keep_alive ss = list_ex (\<lambda>(_, s). rs_keep_alive s) (r_streams ss)"

definition r_clear :: "recv_streams \<Rightarrow> recv_streams" where
  "r_clear ss = ss\<lparr>r_streams := [], r_has_ended := False\<rparr>"

definition set_ended :: "recv_streams \<Rightarrow> bool \<Rightarrow> recv_streams" where
  "set_ended ss ended = ss\<lparr>r_has_ended := r_has_ended ss \<or> ended\<rparr>"

definition r_read ::
    "recv_streams \<Rightarrow> session_fc \<Rightarrow> ('t, 'a) events \<Rightarrow> stream_id \<Rightarrow> nat
      \<Rightarrow> ((bytes \<times> bool) \<times> recv_streams \<times> session_fc \<times> ('t, 'a) events) res" where
  "r_read ss sfc q i space =
     bind_res (r_get ss i) (\<lambda>s.
     bind_res (rs_read s sfc q space) (\<lambda>(out, s', sfc', q'). Ok (out, set_ended (r_put ss i s') (is_ended s'), sfc', q')))"

definition r_stop_sending ::
    "recv_streams \<Rightarrow> session_fc \<Rightarrow> ('t, 'a) events \<Rightarrow> stream_id \<Rightarrow> app_error
      \<Rightarrow> (recv_streams \<times> session_fc \<times> ('t, 'a) events) res" where
  "r_stop_sending ss sfc q i err =
     bind_res (r_get ss i) (\<lambda>s.
     bind_res (rs_stop_sending s sfc q err) (\<lambda>(ended, s', sfc', q'). Ok (set_ended (r_put ss i s') ended, sfc', q')))"

definition r_reset ::
    "recv_streams \<Rightarrow> session_fc \<Rightarrow> ('t, 'a) events \<Rightarrow> stream_id \<Rightarrow> app_error \<Rightarrow> nat \<Rightarrow> nat
      \<Rightarrow> (recv_streams \<times> session_fc \<times> ('t, 'a) events) res" where
  "r_reset ss sfc q i err final_size reliable_size =
     (case r_get ss i of
        Ok s \<Rightarrow>
          bind_res (rs_reset s sfc q err final_size reliable_size) (\<lambda>(ended, s', sfc', q').
            Ok (set_ended (r_put ss i s') ended, sfc', q'))
      | _ \<Rightarrow> Ok (ss, sfc, q))"

definition r_stop_sending_acked :: "recv_streams \<Rightarrow> ('t, 'a) events \<Rightarrow> stream_id \<Rightarrow> (recv_streams \<times> ('t, 'a) events) res" where
  "r_stop_sending_acked ss q i =
     (case r_get ss i of
        Ok s \<Rightarrow> bind_res (rs_stop_sending_acked s q) (\<lambda>(ended, s', q'). Ok (set_ended (r_put ss i s') ended, q'))
      | _ \<Rightarrow> Ok (ss, q))"

text \<open>\<open>send_exists\<close> tells which streams have a send side.\<close>

definition r_dead :: "(stream_id \<Rightarrow> bool) \<Rightarrow> nat \<times> recv_stream \<Rightarrow> bool" where
  "r_dead send_exists e \<longleftrightarrow> is_ended (snd e) \<and> (is_uni (fst e) \<or> \<not> send_exists (fst e))"

definition r_remove_ended :: "recv_streams \<Rightarrow> (stream_id \<Rightarrow> bool) \<Rightarrow> (nat \<times> nat) \<times> recv_streams" where
  "r_remove_ended ss send_exists =
     (if \<not> r_has_ended ss then ((0, 0), ss)
      else
        (let removed = filter (\<lambda>e. r_dead send_exists e \<and> is_remote_initiated (fst e) (r_role ss)) (r_streams ss)
         in ((length (filter (\<lambda>e. is_bidi (fst e)) removed), length (filter (\<lambda>e. \<not> is_bidi (fst e)) removed)),
             ss\<lparr>r_has_ended := False, r_streams := filter (\<lambda>e. \<not> r_dead send_exists e) (r_streams ss)\<rparr>)))"

end
