(* ===== verification/Recv_Order.thy ===== *)
theory Recv_Order
  imports Recv_Buffer
begin

text \<open>
  The reassembly buffer delivers the stream: when all frames carry parts of one byte stream \<open>f\<close>, the buffer holds exactly the
  offsets that arrived, and reading returns the bytes of \<open>f\<close> in order, each once, up to the first one that is missing.
\<close>

subsection \<open>Entries\<close>

text \<open>An entry holds its part of the stream \<open>f\<close>.\<close>

definition agrees :: "(nat \<Rightarrow> u8) \<Rightarrow> nat \<times> bytes \<Rightarrow> bool" where
  "agrees f e \<longleftrightarrow> snd e = map f [fst e..<entry_end e]"

definition entry_ok :: "(nat \<Rightarrow> u8) \<Rightarrow> nat \<Rightarrow> nat \<times> bytes \<Rightarrow> bool" where
  "entry_ok f r e \<longleftrightarrow> fst e < entry_end e \<and> r < entry_end e \<and> agrees f e"

definition entries_ok :: "(nat \<Rightarrow> u8) \<Rightarrow> nat \<Rightarrow> bytes btree_map \<Rightarrow> bool" where
  "entries_ok f r m \<longleftrightarrow> sorted_wrt (\<lambda>e e'. entry_end e \<le> fst e') m \<and> (\<forall>e\<in>set m. entry_ok f r e)"

text \<open>The offsets that the entries hold.\<close>

definition covered :: "bytes btree_map \<Rightarrow> nat set" where
  "covered m = (\<Union>e\<in>set m. {fst e..<entry_end e})"

lemma covered_simps [simp]:
  "covered [] = {}" "covered (e # m) = {fst e..<entry_end e} \<union> covered m" "covered (m @ m') = covered m \<union> covered m'"
  by (auto simp: covered_def)

lemma entries_ok_simps [simp]:
  "entries_ok f r []"
  "entries_ok f r (e # m) \<longleftrightarrow> entry_ok f r e \<and> (\<forall>e'\<in>set m. entry_end e \<le> fst e') \<and> entries_ok f r m"
  by (auto simp: entries_ok_def)

lemma entries_ok_append:
  "entries_ok f r (m @ m') \<longleftrightarrow> entries_ok f r m \<and> entries_ok f r m' \<and> (\<forall>e\<in>set m. \<forall>e'\<in>set m'. entry_end e \<le> fst e')"
  by (auto simp: entries_ok_def sorted_wrt_append)

lemma entry_ok_less: "entry_ok f r e \<Longrightarrow> entry_end e \<le> k \<Longrightarrow> fst e < k"
  unfolding entry_ok_def by linarith

lemma entries_ok_bt_ok: "entries_ok f r m \<Longrightarrow> bt_ok m"
  by (induction m) (auto intro: entry_ok_less)

lemma agrees_iff: "agrees f (s, d) \<longleftrightarrow> (\<forall>i<length d. d ! i = f (s + i))"
  unfolding agrees_def list_eq_iff_nth_eq by auto

lemma agrees_append: "agrees f (s, d) \<Longrightarrow> agrees f (s + length d, d') \<Longrightarrow> agrees f (s, d @ d')"
  by (auto simp: agrees_iff nth_append add.assoc not_less dest!: le_Suc_ex)

lemma agrees_take: "agrees f (s, d) \<Longrightarrow> agrees f (s, take n d)"
  by (simp add: agrees_iff)

lemma agrees_drop: "agrees f (s, d) \<Longrightarrow> n \<le> length d \<Longrightarrow> agrees f (s + n, drop n d)"
  by (simp add: agrees_iff add.assoc)

text \<open>New data between two parts of the map, in place of what it spans.\<close>

lemma entries_ok_splice:
  assumes "entries_ok f r (l @ m @ u)" "agrees f (s, d)" "d \<noteq> []" "r < s + length d"
    and "\<forall>e\<in>set l. entry_end e \<le> s" "\<forall>e\<in>set u. s + length d \<le> fst e"
  shows "entries_ok f r (l @ (s, d) # u)"
proof -
  have l: "entries_ok f r l" "entries_ok f r u" "\<forall>e\<in>set l. \<forall>e'\<in>set u. entry_end e \<le> fst e'"
    using assms(1) by (auto simp: entries_ok_append)
  have "entry_ok f r (s, d)"
    using assms(2-4) by (simp add: entry_ok_def)
  then show ?thesis
    using l assms(5,6) by (simp add: entries_ok_append)
qed

text \<open>New data that continues the last entry of the lower part.\<close>

lemma entries_ok_extend:
  assumes "entries_ok f r (l @ (p, pd) # m @ u)" "agrees f (p + length pd, d)"
    and "\<forall>e\<in>set u. p + length pd + length d \<le> fst e"
  shows "entries_ok f r (l @ (p, pd @ d) # u)"
proof -
  have l: "entries_ok f r l" "entries_ok f r u" "\<forall>e\<in>set l. \<forall>e'\<in>set u. entry_end e \<le> fst e'" "\<forall>e\<in>set l. entry_end e \<le> p"
    and p: "entry_ok f r (p, pd)"
    using assms(1) by (auto simp: entries_ok_append)
  have "entry_ok f r (p, pd @ d)"
    using p agrees_append [OF _ assms(2)] by (auto simp: entry_ok_def)
  then show ?thesis
    using l assms(3) by (simp add: entries_ok_append add.assoc)
qed

subsection \<open>The state of the buffer\<close>

definition rx_ok :: "(nat \<Rightarrow> u8) \<Rightarrow> rx_orderer \<Rightarrow> bool" where
  "rx_ok f rx \<longleftrightarrow> entries_ok f (rx_retired rx) (data_ranges rx)
     \<and> rx_end rx = (case bt_last (data_ranges rx) of None \<Rightarrow> rx_retired rx | Some e \<Rightarrow> entry_end e) \<and> rx_end rx < 2 ^ 62"

text \<open>The offsets that have arrived.\<close>

definition arrived :: "rx_orderer \<Rightarrow> nat set" where
  "arrived rx = {..<rx_retired rx} \<union> covered (data_ranges rx)"

lemma rx_ok_new: "rx_ok f rx_new" "arrived rx_new = {}"
  by (simp_all add: rx_ok_def rx_new_def arrived_def)

lemma rx_ok_bounds:
  assumes "rx_ok f rx"
  shows "rx_retired rx \<le> rx_end rx" "x \<in> arrived rx \<Longrightarrow> x < rx_end rx" "\<forall>e\<in>set (data_ranges rx). entry_end e \<le> rx_end rx"
proof -
  have "rx_retired rx \<le> rx_end rx \<and> (\<forall>e\<in>set (data_ranges rx). entry_end e \<le> rx_end rx)"
  proof (cases "bt_last (data_ranges rx)")
    case None
    then show ?thesis
      using assms by (simp add: rx_ok_def)
  next
    case (Some e)
    then obtain m where "data_ranges rx = m @ [e]"
      by (auto simp: bt_last_Some)
    then show ?thesis
      using assms by (auto simp: rx_ok_def entries_ok_append entry_ok_def)
  qed
  then show "rx_retired rx \<le> rx_end rx" "x \<in> arrived rx \<Longrightarrow> x < rx_end rx" "\<forall>e\<in>set (data_ranges rx). entry_end e \<le> rx_end rx"
    by (auto simp: arrived_def covered_def)
qed

text \<open>The loop removes the entries that the new data spans, and cuts the data where a longer entry starts.\<close>

lemma overlap_loop_eq:
  assumes "entries_ok f r u" "\<forall>e\<in>set u. s \<le> fst e" "agrees f (s, d)" "s + length d = n"
  shows "\<exists>v w. u = v @ w \<and> overlap_loop n d u rm = (rm @ map fst v, take (case w of [] \<Rightarrow> length d | e # _ \<Rightarrow> fst e - s) d)
    \<and> (\<forall>e\<in>set v. entry_end e < n) \<and> (case w of [] \<Rightarrow> True | e # _ \<Rightarrow> n \<le> entry_end e)"
  using assms
proof (induction n d u rm rule: overlap_loop.induct)
  case (1 n d rm)
  then show ?case by simp
next
  case (2 n d ns nd m rm)
  consider "n \<le> ns" | "ns < n" "n \<le> ns + length nd" | "ns + length nd < n"
    by linarith
  then show ?case
  proof cases
    case 1
    then show ?thesis
      using "2.prems" by (intro exI [of _ "[]"] exI [of _ "(ns, nd) # m"]) (simp add: Let_def)
  next
    case 2
    then have "length d - (n - ns) = ns - s"
      using "2.prems"(2,4) by simp
    then have "overlap_loop n d ((ns, nd) # m) rm = (rm, take (ns - s) d)"
      using 2 by (simp add: Let_def)
    then show ?thesis
      using 2 by (intro exI [of _ "[]"] exI [of _ "(ns, nd) # m"]) simp
  next
    case 3
    then have "ns + length nd < n" "\<not> n - ns = 0" "\<not> n \<le> ns + length nd"
      by simp_all
    moreover have "entries_ok f r m" "\<forall>e\<in>set m. s \<le> fst e"
      using "2.prems"(1,2) by simp_all
    ultimately obtain v w where v: "m = v @ w"
      "overlap_loop n d m (rm @ [ns]) = ((rm @ [ns]) @ map fst v, take (case w of [] \<Rightarrow> length d | e # _ \<Rightarrow> fst e - s) d)"
      "\<forall>e\<in>set v. entry_end e < n" "case w of [] \<Rightarrow> True | e # _ \<Rightarrow> n \<le> entry_end e"
      using "2.IH" [OF refl refl] "2.prems"(3,4) by blast
    have "overlap_loop n d ((ns, nd) # m) rm = overlap_loop n d m (rm @ [ns])"
      using 3 by (simp add: Let_def)
    then show ?thesis
      using 3 v by (intro exI [of _ "(ns, nd) # v"] exI [of _ w]) simp
  qed
qed

text \<open>
  \<open>rx'\<close> is \<open>rx\<close> after the offsets \<open>xs\<close> have arrived.
\<close>

definition rx_grown :: "(nat \<Rightarrow> u8) \<Rightarrow> rx_orderer \<Rightarrow> nat set \<Rightarrow> rx_orderer \<Rightarrow> bool" where
  "rx_grown f rx xs rx' \<longleftrightarrow> rx_ok f rx' \<and> rx_retired rx' = rx_retired rx \<and> arrived rx' = arrived rx \<union> xs"

definition rx_result :: "(nat \<Rightarrow> u8) \<Rightarrow> rx_orderer \<Rightarrow> nat set \<Rightarrow> rx_orderer res \<Rightarrow> bool" where
  "rx_result f rx xs r \<longleftrightarrow> r = Err ProtocolViolation \<or> (\<exists>rx'. r = Ok rx' \<and> rx_grown f rx xs rx')"

lemma rx_result_Ok: "rx_grown f rx xs rx' \<Longrightarrow> rx_result f rx xs (Ok rx')"
  by (simp add: rx_result_def)

lemma rx_result_check: "rx_grown f rx xs rx' \<Longrightarrow> rx_result f rx xs (check_gap_limit rx')"
  by (simp add: check_gap_limit_def rx_result_def Let_def)

text \<open>
  The lower part \<open>l\<close>, the spanned entries \<open>v\<close> and the upper part \<open>w\<close> of the map around new data \<open>d\<close> at \<open>s\<close>, of which
  \<open>d'\<close> is added.
\<close>

definition cut_off :: "nat \<Rightarrow> bytes \<Rightarrow> bytes btree_map \<Rightarrow> bytes" where
  "cut_off s d w = take (case w of [] \<Rightarrow> length d | e # _ \<Rightarrow> fst e - s) d"

definition around :: "(nat \<Rightarrow> u8) \<Rightarrow> rx_orderer \<Rightarrow> nat \<Rightarrow> bytes \<Rightarrow> bytes btree_map \<Rightarrow> bytes btree_map \<Rightarrow> bytes btree_map \<Rightarrow> bool" where
  "around f rx s d l v w \<longleftrightarrow> data_ranges rx = l @ v @ w \<and> rx_ok f rx \<and> agrees f (s, d) \<and> d \<noteq> [] \<and> s + length d < 2 ^ 62
     \<and> rx_retired rx \<le> s \<and> (\<forall>e\<in>set l. entry_end e \<le> s) \<and> (\<forall>e\<in>set (v @ w). s \<le> fst e)
     \<and> (\<forall>e\<in>set v. entry_end e < s + length d) \<and> (case w of [] \<Rightarrow> True | e # _ \<Rightarrow> s + length d \<le> entry_end e)"

lemma around_cut:
  assumes "around f rx s d l v w"
  shows "\<forall>e\<in>set w. s + length (cut_off s d w) \<le> fst e" "agrees f (s, cut_off s d w)"
    and "\<forall>e\<in>set v. entry_end e \<le> s + length (cut_off s d w)"
    and "{s..<s + length d} \<subseteq> {s..<s + length (cut_off s d w)} \<union> covered w"
    and "cut_off s d w = [] \<Longrightarrow> v = []"
proof -
  have ok: "entries_ok f (rx_retired rx) (l @ v @ w)"
    using assms by (auto simp: around_def rx_ok_def)
  show "\<forall>e\<in>set w. s + length (cut_off s d w) \<le> fst e"
    using ok assms by (cases w) (auto simp: around_def cut_off_def entries_ok_append entry_ok_def)
  show "agrees f (s, cut_off s d w)"
    using assms by (simp add: around_def cut_off_def agrees_take)
  show v: "\<forall>e\<in>set v. entry_end e \<le> s + length (cut_off s d w)"
    using ok assms by (cases w) (auto simp: around_def cut_off_def entries_ok_append min_def)
  show "{s..<s + length d} \<subseteq> {s..<s + length (cut_off s d w)} \<union> covered w"
    using assms by (cases w) (auto simp: around_def cut_off_def)
  show "v = []" if "cut_off s d w = []"
  proof (rule ccontr)
    assume "v \<noteq> []"
    then obtain e where e: "e \<in> set v" by (cases v) auto
    then have "entry_ok f (rx_retired rx) e" "s \<le> fst e" "entry_end e \<le> s"
      using ok assms v that by (auto simp: around_def entries_ok_append entries_ok_def)
    then show False
      using entry_ok_less by fastforce
  qed
qed

lemma around_arrived:
  assumes "around f rx s d l v w"
  shows "{..<rx_retired rx} \<union> (covered l \<union> {s..<s + length (cut_off s d w)} \<union> covered w) = arrived rx \<union> {s..<s + length d}"
proof -
  have "covered v \<subseteq> {s..<s + length (cut_off s d w)}"
    unfolding covered_def using assms around_cut(3) [OF assms]
    by (intro UN_least) (simp add: around_def atLeastLessThan_subset_iff)
  moreover have "length (cut_off s d w) \<le> length d"
    by (simp add: cut_off_def)
  ultimately show ?thesis
    using around_cut(4) [OF assms] assms by (auto simp: around_def arrived_def)
qed

text \<open>The end of the buffer after the new data.\<close>

lemma around_end:
  assumes "around f rx s d l v w"
  shows "max (rx_end rx) (s + length d) = (if w = [] then s + length d else entry_end (last w))"
proof -
  have ok: "rx_ok f rx" "data_ranges rx = l @ v @ w"
    using assms by (simp_all add: around_def)
  show ?thesis
  proof (cases "w = []")
    case True
    have "rx_end rx \<le> s + length d"
    proof (cases "bt_last (data_ranges rx)")
      case None
      then show ?thesis
        using ok assms by (simp add: rx_ok_def around_def)
    next
      case (Some e)
      then have "e \<in> set (l @ v)" "rx_end rx = entry_end e"
        using ok True last_in_set [of "l @ v"] by (auto simp: rx_ok_def bt_last_def split: if_splits)
      then show ?thesis
        using assms by (fastforce simp: around_def)
    qed
    then show ?thesis
      using True by simp
  next
    case False
    then have "rx_end rx = entry_end (last w)"
      using ok by (simp add: rx_ok_def bt_last_def)
    moreover have "s + length d \<le> entry_end (hd w)" "entry_end (hd w) \<le> entry_end (last w)"
      using False assms ok by (cases w; auto simp: around_def rx_ok_def entries_ok_append intro: le_trans [OF _ le_add1])+
    ultimately show ?thesis
      using False by simp
  qed
qed

lemma around_grown:
  assumes a: "around f rx s d l v w" and ok: "entries_ok f (rx_retired rx) (m @ [e])"
    and cov: "covered (m @ [e]) = covered l \<union> {s..<s + length (cut_off s d w)} \<union> covered w"
    and e: "entry_end e = (if w = [] then s + length d else entry_end (last w))"
  shows "rx_grown f rx {s..<s + length d}
    (rx\<lparr>rx_received := c, rx_end := max (rx_end rx) (s + length d), data_ranges := m @ [e]\<rparr>)"
proof -
  have "rx_end rx < 2 ^ 62" "s + length d < 2 ^ 62"
    using a by (auto simp: around_def rx_ok_def)
  then show ?thesis
    using ok e around_end [OF a] around_arrived [OF a] cov by (auto simp: rx_grown_def rx_ok_def arrived_def)
qed

text \<open>The keys of the lower part lie below the new data, those of the upper part above it.\<close>

lemma around_keys:
  assumes "around f rx s d l v w"
  shows "\<forall>e\<in>set l. fst e < s" "cut_off s d w \<noteq> [] \<Longrightarrow> \<forall>e\<in>set w. s < fst e" "bt_ok (l @ v @ w)"
proof -
  have ok: "entries_ok f (rx_retired rx) (l @ v @ w)"
    using assms by (auto simp: around_def rx_ok_def)
  then show "bt_ok (l @ v @ w)"
    by (rule entries_ok_bt_ok)
  show "\<forall>e\<in>set l. fst e < s"
    using ok assms by (auto simp: around_def entries_ok_append entries_ok_def intro: entry_ok_less)
  show "\<forall>e\<in>set w. s < fst e" if "cut_off s d w \<noteq> []"
    using around_cut(1) [OF assms] that by (metis add_gr_0 add_leD1 le_neq_implies_less length_greater_0_conv less_add_eq_less
        less_add_same_cancel1 order_less_le_trans)
qed

lemma bt_get_first:
  assumes "bt_ok (l @ w)" "\<forall>e\<in>set l. fst e < k" "\<forall>e\<in>set w. k \<le> fst e" "bt_get (l @ w) k = Some n"
  obtains w' where "w = (k, n) # w'"
proof -
  have "map_of l k = None"
    using assms(2) by (auto simp: map_of_eq_None_iff)
  then have "map_of w k = Some n"
    using assms(4) by (simp add: bt_get_def map_add_def)
  then obtain e w' where w: "w = e # w'" "map_of (e # w') k = Some n"
    by (cases w) auto
  have "fst e = k"
  proof (rule ccontr)
    assume "fst e \<noteq> k"
    then have "(k, n) \<in> set w'"
      using w(2) by (cases e) (auto dest: map_of_SomeD)
    then show False
      using assms(1,3) w(1) by (auto simp: bt_ok_append)
  qed
  then have "w = (k, n) # w'"
    using w by (cases e) auto
  then show ?thesis ..
qed

lemma rx_add_insert:
  assumes a: "around f rx s d l v w" and d: "cut_off s d w \<noteq> []"
  shows "rx_result f rx {s..<s + length d} (rx_add (rx\<lparr>data_ranges := l @ w\<rparr>) s (s + length d) (cut_off s d w) None)"
proof -
  have ok: "entries_ok f (rx_retired rx) (l @ v @ w)"
    using a by (auto simp: around_def rx_ok_def)
  have "rx_retired rx \<le> s" "0 < length (cut_off s d w)"
    using a d by (simp_all add: around_def)
  then have "rx_retired rx < s + length (cut_off s d w)"
    by linarith
  then have ins: "entries_ok f (rx_retired rx) (l @ (s, cut_off s d w) # w)"
    using entries_ok_splice [OF ok around_cut(2) [OF a] d] a around_cut(1) [OF a] by (auto simp: around_def)
  define m where "m = butlast (l @ (s, cut_off s d w) # w)"
  define e where "e = last (l @ (s, cut_off s d w) # w)"
  have m: "l @ (s, cut_off s d w) # w = m @ [e]"
    unfolding m_def e_def by (rule append_butlast_last_id [symmetric]) simp
  have e: "entry_end e = (if w = [] then s + length d else entry_end (last w))"
    by (auto simp: e_def cut_off_def)
  have "covered (m @ [e]) = covered l \<union> {s..<s + length (cut_off s d w)} \<union> covered w"
    unfolding m [symmetric] by auto
  note g = around_grown [OF a ins [unfolded m] this e]
  show ?thesis
    using rx_result_check [OF g] d bt_insert_between [OF around_keys(1) [OF a] around_keys(2) [OF a d]]
    by (simp add: rx_add_def insert_range_def Let_def m)
qed

lemma rx_add_extend:
  assumes a: "around f rx s d l v w" and d: "cut_off s d w \<noteq> []" and l: "l = l' @ [(p, pd)]" "p + length pd = s"
  shows "rx_result f rx {s..<s + length d}
    (rx_add (rx\<lparr>data_ranges := l @ w\<rparr>) s (s + length d) (cut_off s d w) (Some (p, length pd)))"
proof -
  define d' where "d' = cut_off s d w"
  have ok: "entries_ok f (rx_retired rx) (l' @ (p, pd) # v @ w)"
    using a l by (auto simp: around_def rx_ok_def)
  have d': "agrees f (s, d')" "\<forall>e\<in>set w. s + length d' \<le> fst e" "d' \<noteq> []"
    using around_cut(1,2) [OF a] d by (simp_all add: d'_def)
  have keys: "\<forall>e\<in>set l'. fst e \<noteq> p" "\<forall>e\<in>set w. fst e \<noteq> p"
    using around_keys(3) [OF a] l(1) by (auto simp: bt_ok_append)
  have below: "\<forall>e\<in>set l. fst e < s + length d'"
    using around_keys(1) [OF a] by auto
  have bt: "bt_ok (l @ w)"
    using around_keys(3) [OF a] by (auto simp: bt_ok_append)
  define nxt where "nxt = (case bt_get (l @ w) (s + length d') of None \<Rightarrow> None
    | Some n \<Rightarrow> if length pd + length d' + length n \<le> RANGE_TARGET then Some n else None)"
  obtain u n where u: "w = (if nxt = None then u else (s + length d', n) # u)" "n = (case nxt of None \<Rightarrow> [] | Some n \<Rightarrow> n)"
  proof (cases nxt)
    case (Some n)
    then have "bt_get (l @ w) (s + length d') = Some n"
      by (auto simp: nxt_def split: option.splits if_splits)
    then obtain w' where "w = (s + length d', n) # w'"
      by (rule bt_get_first [OF bt below d'(2)])
    then show ?thesis
      using that Some by simp
  qed (use that in simp)
  define w1 where "w1 = (if nxt = None then [] else [(s + length d', n)])"
  have w: "w = w1 @ u"
    using u(1) by (simp add: w1_def)
  have rest: "(if nxt = None then l @ w else bt_remove (s + length d') (l @ w)) = l @ u"
    using bt below by (auto simp: w w1_def bt_ok_append bt_remove_outside)
  have n: "agrees f (s + length d', n)" "\<forall>e\<in>set u. s + length d' + length n \<le> fst e"
    using ok d'(2) u(2) unfolding w w1_def
    by (auto simp: entries_ok_append entry_ok_def agrees_iff split: option.splits if_splits)
  have "agrees f (p + length pd, d' @ n)"
    using agrees_append [OF d'(1) n(1)] l(2) by simp
  then have ext: "entries_ok f (rx_retired rx) (l' @ (p, pd @ d' @ n) # u)"
    using entries_ok_extend [of f _ l' p pd "v @ w1" u] ok n(2) l(2) by (simp add: w add.assoc)
  define m where "m = butlast (l' @ (p, pd @ d' @ n) # u)"
  define e where "e = last (l' @ (p, pd @ d' @ n) # u)"
  have m: "l' @ (p, pd @ d' @ n) # u = m @ [e]"
    unfolding m_def e_def by (rule append_butlast_last_id [symmetric]) simp
  have whole: "d' = d" if "w = []"
    using that by (simp add: d'_def cut_off_def)
  have e: "entry_end e = (if w = [] then s + length d else entry_end (last w))"
    using l(2) u(2) whole by (cases nxt) (auto simp: e_def w w1_def)
  have "covered (m @ [e]) = covered l \<union> {s..<s + length (cut_off s d w)} \<union> covered w"
    unfolding m [symmetric] d'_def [symmetric] using l(2) u(2) by (cases nxt) (auto simp: l(1) w w1_def)
  note g = around_grown [OF a ext [unfolded m] this e]
  have md: "bt_modify p (\<lambda>buf. buf @ d' @ n) (l @ u) = m @ [e]"
    unfolding m [symmetric] using bt_modify_last [of l' p u "\<lambda>buf. buf @ d' @ n" pd] keys by (simp add: l(1) w)
  have add: "rx_add (rx\<lparr>data_ranges := l @ w\<rparr>) s (s + length d) d' (Some (p, length pd)) =
    Ok (rx\<lparr>rx_received := u64_add (rx_received rx) (length d'), rx_end := max (rx_end rx) (s + length d),
      data_ranges := bt_modify p (\<lambda>buf. buf @ d' @ n) (if nxt = None then l @ w else bt_remove (s + length d') (l @ w))\<rparr>)"
    using d'(3) by (simp add: rx_add_def Let_def u(2) nxt_def del: bt_remove_append)
  show ?thesis
    unfolding d'_def [symmetric] add [unfolded rest md] by (rule rx_result_Ok [OF g])
qed

text \<open>All of the overlap case: \<open>l\<close> and \<open>u\<close> are the entries below and above the new data.\<close>

definition extends :: "bytes btree_map \<Rightarrow> nat \<Rightarrow> (nat \<times> nat) option \<Rightarrow> bool" where
  "extends l s ext \<longleftrightarrow> (case ext of None \<Rightarrow> True | Some (p, n) \<Rightarrow> \<exists>l' pd. l = l' @ [(p, pd)] \<and> length pd = n \<and> p + n = s)"

lemma rx_add_ok:
  assumes "around f rx s d l v w" "extends l s ext"
  shows "rx_result f rx {s..<s + length d} (rx_add (rx\<lparr>data_ranges := l @ w\<rparr>) s (s + length d) (cut_off s d w) ext)"
proof (cases "cut_off s d w = []")
  case True
  then have "v = []"
    by (rule around_cut(5) [OF assms(1)])
  then have "rx\<lparr>data_ranges := l @ w\<rparr> = rx"
    using assms(1) by (simp add: around_def)
  moreover have "arrived rx \<union> {s..<s + length d} = arrived rx"
    using around_arrived [OF assms(1)] True \<open>v = []\<close> assms(1) by (auto simp: around_def arrived_def)
  ultimately show ?thesis
    using True assms(1) by (auto simp: rx_add_def rx_result_def rx_grown_def around_def)
next
  case False
  then show ?thesis
    using assms rx_add_insert [OF assms(1) False] rx_add_extend [OF assms(1) False]
    by (cases ext) (auto simp: extends_def)
qed

lemma remove_all_spanned: "bt_ok (l @ v @ w) \<Longrightarrow> foldl (\<lambda>m k. bt_remove k m) (l @ v @ w) (map fst v) = l @ w"
proof (induction v)
  case (Cons e v)
  then have "bt_remove (fst e) (l @ (e # v) @ w) = l @ v @ w"
    by (simp add: bt_ok_append bt_remove_outside)
  then show ?case
    using Cons by (simp add: bt_ok_append del: bt_remove_append)
qed simp

lemma rx_overlap_ok:
  assumes m: "data_ranges rx = l @ u" and ok: "rx_ok f rx" and d: "agrees f (s, d)" "d \<noteq> []" "s + length d < 2 ^ 62"
    and s: "rx_retired rx \<le> s" "\<forall>e\<in>set l. entry_end e \<le> s" "\<forall>e\<in>set u. s \<le> fst e" and ext: "extends l s ext"
  shows "rx_result f rx {s..<s + length d} (rx_overlap rx s (s + length d) d ext)"
proof -
  have e: "entries_ok f (rx_retired rx) (l @ u)"
    using ok m by (simp add: rx_ok_def)
  then have "entries_ok f (rx_retired rx) u"
    by (simp add: entries_ok_append)
  then obtain v w where vw: "u = v @ w" "overlap_loop (s + length d) d u [] = ([] @ map fst v, cut_off s d w)"
    "\<forall>e\<in>set v. entry_end e < s + length d" "case w of [] \<Rightarrow> True | e # _ \<Rightarrow> s + length d \<le> entry_end e"
    using overlap_loop_eq [OF _ s(3) d(1) refl] unfolding cut_off_def by blast
  have a: "around f rx s d l v w"
    using m ok d s vw by (simp add: around_def)
  have below: "\<forall>e\<in>set l. fst e < s"
    by (rule around_keys(1) [OF a])
  have same: "rx\<lparr>data_ranges := l @ u\<rparr> = rx"
    unfolding m [symmetric] by simp
  have "rx_overlap rx s (s + length d) d ext = rx_add (rx\<lparr>data_ranges := l @ w\<rparr>) s (s + length d) (cut_off s d w) ext"
  proof (cases "u = []")
    case True
    then have "case bt_last (data_ranges rx) of None \<Rightarrow> True | Some (k, _) \<Rightarrow> \<not> s \<le> k"
      using below m last_in_set [of l] by (fastforce simp: bt_last_def)
    moreover have rx: "rx\<lparr>data_ranges := l @ w\<rparr> = rx"
      using True vw(1) same by simp
    ultimately show ?thesis
      using True vw(1) unfolding rx by (auto simp: rx_overlap_def cut_off_def split: option.splits)
  next
    case False
    then have "\<exists>k x. bt_last (data_ranges rx) = Some (k, x) \<and> s \<le> k"
      using s(3) m last_in_set [OF False] by (cases "last u") (auto simp: bt_last_def)
    moreover have "bt_from s (data_ranges rx) = u"
      unfolding m using below s(3) by (rule bt_from_append)
    ultimately show ?thesis
      using vw m remove_all_spanned [OF around_keys(3) [OF a]] by (auto simp: rx_overlap_def)
  qed
  then show ?thesis
    using rx_add_ok [OF a ext] by simp
qed

lemma rx_insert_below_ok:
  assumes ok: "rx_ok f rx" and d: "agrees f (s, d)" "d \<noteq> []" "s + length d < 2 ^ 62" and s: "rx_retired rx \<le> s"
  shows "rx_result f rx {s..<s + length d} (rx_insert_below rx s (s + length d) d)"
proof -
  have e: "entries_ok f (rx_retired rx) (data_ranges rx)"
    using ok by (simp add: rx_ok_def)
  obtain l u where lu: "data_ranges rx = l @ u" "bt_upto s (data_ranges rx) = l" "\<forall>e\<in>set l. fst e \<le> s" "\<forall>e\<in>set u. s < fst e"
    by (rule bt_split_upto [OF entries_ok_bt_ok [OF e]])
  show ?thesis
  proof (cases l rule: rev_cases)
    case Nil
    moreover have "\<forall>e\<in>set u. s \<le> fst e"
      using lu(4) by (auto intro: less_imp_le)
    ultimately show ?thesis
      using rx_overlap_ok [OF lu(1) ok d s, of None] lu by (auto simp: rx_insert_below_def extends_def)
  next
    case (snoc l' pe)
    then obtain p pd where pe: "l = l' @ [(p, pd)]"
      by (cases pe) auto
    have p: "p \<le> s" "\<forall>e\<in>set l. entry_end e \<le> p + length pd" "\<forall>e\<in>set u. p + length pd \<le> fst e"
      using e lu pe by (auto simp: entries_ok_append intro: le_trans [OF _ le_add1])
    define o' where "o' = p + length pd - s"
    define s' where "s' = s + o'"
    show ?thesis
    proof (cases "p + length pd < s + length d")
      case False
      then have "{s..<s + length d} \<subseteq> arrived rx"
        using lu(1) pe p(1) by (auto simp: arrived_def)
      then show ?thesis
        using False lu(2) pe ok by (auto simp: rx_insert_below_def rx_result_def rx_grown_def Let_def)
    next
      case True
      moreover have "0 < length d"
        using d(2) by simp
      ultimately have o': "o' < length d" "s' = max s (p + length pd)"
        unfolding o'_def s'_def by linarith+
      define ext where "ext = (if length pd < RANGE_TARGET \<and> p + length pd = s' then Some (p, length pd) else None)"
      have "rx_insert_below rx s (s + length d) d = rx_overlap rx s' (s + length d) (drop o' d) ext"
        using True lu(2) pe by (simp add: rx_insert_below_def Let_def o'_def s'_def ext_def)
      moreover have "extends l s' ext"
        by (simp add: extends_def ext_def pe)
      moreover have "agrees f (s', drop o' d)"
        using agrees_drop [OF d(1)] o'(1) by (simp add: s'_def)
      moreover have "s' + length (drop o' d) = s + length d"
        using o'(1) by (simp add: s'_def)
      moreover have "{s..<s + length d} = {s..<s'} \<union> {s'..<s + length d}" "{s..<s'} \<subseteq> arrived rx"
        using True o'(2) lu(1) pe p(1) by (auto simp: arrived_def)
      ultimately show ?thesis
        using rx_overlap_ok [OF lu(1) ok, of s' "drop o' d" ext] o' p s lu(4) d(3)
        by (fastforce simp: rx_result_def rx_grown_def)
    qed
  qed
qed

lemma rx_insert_end_ok:
  assumes ok: "rx_ok f rx" and d: "agrees f (s, d)" "d \<noteq> []" "s + length d < 2 ^ 62" and s: "rx_end rx \<le> s"
  shows "rx_result f rx {s..<s + length d} (rx_insert_end rx s (s + length d) d)"
proof -
  let ?m = "data_ranges rx"
  have a: "around f rx s d ?m [] []"
    using ok d s rx_ok_bounds(1,3) [OF ok] by (auto simp: around_def)
  have mx: "max (rx_end rx) (s + length d) = s + length d" and cut: "cut_off s d [] = d"
    using s by (simp_all add: cut_off_def)
  have e: "entries_ok f (rx_retired rx) ?m"
    using ok by (simp add: rx_ok_def)
  have "rx_retired rx < s + length d"
    using a by (cases d) (simp_all add: around_def)
  then have "entries_ok f (rx_retired rx) (?m @ [(s, d)])"
    using entries_ok_splice [of f _ ?m "[]" "[]" s d] a e d by (auto simp: around_def)
  from around_grown [OF a this, unfolded mx cut]
  have ins: "rx_result f rx {s..<s + length d}
      (insert_range (rx\<lparr>rx_received := c, rx_end := s + length d\<rparr>) s d)" for c
    using bt_insert_between [OF around_keys(1) [OF a], of "[]"] rx_result_check by (simp add: insert_range_def)
  have ext: "rx_result f rx {s..<s + length d} (Ok (rx\<lparr>rx_received := c, rx_end := s + length d,
      data_ranges := bt_modify k (\<lambda>b. b @ d) ?m\<rparr>))" if k: "?m = m @ [(k, b)]" "s = rx_end rx" for m k b c
  proof -
    have kb: "k + length b = s"
      using ok k by (simp add: rx_ok_def)
    have cov: "{k..<k + (length b + length d)} = {k..<k + length b} \<union> {k + length b..<k + length b + length d}"
      by auto
    have "entries_ok f (rx_retired rx) (m @ [(k, b @ d)])"
      using entries_ok_extend [of f _ m k b "[]" "[]" d] e d(1) k(1) kb by simp
    moreover have "bt_modify k (\<lambda>b. b @ d) ?m = m @ [(k, b @ d)]"
      using around_keys(3) [OF a] bt_modify_last [of m k "[]"] k(1) by (fastforce simp: bt_ok_append)
    ultimately show ?thesis
      using around_grown [OF a, of m "(k, b @ d)", unfolded mx cut] kb k(1) by (auto simp: cov Un_assoc intro!: rx_result_Ok)
  qed
  show ?thesis
    using ins ext ok unfolding rx_insert_end_def
    by (auto simp: Let_def rx_ok_def bt_last_Some split: option.split)
qed

text \<open>A frame that carries a part of the stream.\<close>

lemma inbound_frame_ok:
  assumes ok: "rx_ok f rx" and d: "agrees f (s, d)" "s + length d < 2 ^ 62"
  shows "rx_result f rx {s..<s + length d} (inbound_frame rx s d)"
proof -
  have n: "u64_add s (length d) = s + length d"
    using d(2) by (simp add: u64_add_eq)
  consider "s + length d \<le> rx_retired rx" | "d = []" | (late) "s < rx_retired rx" "rx_retired rx < s + length d"
    | (now) "rx_retired rx \<le> s" "d \<noteq> []"
    by (cases "d = []") (auto, linarith)
  then show ?thesis
  proof cases
    case 1
    then have "{s..<s + length d} \<subseteq> arrived rx"
      by (auto simp: arrived_def)
    then show ?thesis
      using 1 ok n by (auto simp: inbound_frame_def rx_result_def rx_grown_def)
  next
    case 2
    then show ?thesis
      using ok n by (auto simp: inbound_frame_def rx_result_def rx_grown_def Let_def)
  next
    case late
    let ?r = "rx_retired rx"
    let ?d = "drop (?r - s) d"
    have d': "agrees f (?r, ?d)" "?d \<noteq> []" "?r + length ?d = s + length d"
      using agrees_drop [OF d(1), of "?r - s"] late by auto
    have "{s..<s + length d} = {s..<?r} \<union> {?r..<s + length d}" "{s..<?r} \<subseteq> arrived rx"
      using late by (auto simp: arrived_def)
    then have "rx_result f rx {s..<s + length d} r" if "rx_result f rx {?r..<s + length d} r" for r
      using that by (auto simp: rx_result_def rx_grown_def)
    moreover have "rx_result f rx {?r..<s + length d} (rx_insert_end rx ?r (s + length d) ?d)" if "rx_end rx \<le> ?r"
      using rx_insert_end_ok [OF ok d'(1,2) _ that] d(2) unfolding d'(3) by simp
    moreover have "rx_result f rx {?r..<s + length d} (rx_insert_below rx ?r (s + length d) ?d)"
      using rx_insert_below_ok [OF ok d'(1,2)] d(2) unfolding d'(3) by simp
    ultimately show ?thesis
      using d'(2) late n by (auto simp: inbound_frame_def Let_def)
  next
    case now
    then have "\<not> s + length d \<le> rx_retired rx"
      by (cases d) auto
    then show ?thesis
      using now rx_insert_end_ok [OF ok d(1) now(2) d(2)] rx_insert_below_ok [OF ok d(1) now(2) d(2)] n
      by (auto simp: inbound_frame_def Let_def)
  qed
qed

subsection \<open>Reading\<close>

lemma entry_ok_raise: "entry_ok f r e \<Longrightarrow> k \<le> fst e \<Longrightarrow> entry_ok f k e"
  unfolding entry_ok_def by linarith

lemma entries_ok_raise: "entries_ok f r m \<Longrightarrow> \<forall>e\<in>set m. k \<le> fst e \<Longrightarrow> entries_ok f k m"
  by (auto simp: entries_ok_def intro: entry_ok_raise)

lemma covered_bounds: "\<forall>e\<in>set m. k \<le> fst e \<Longrightarrow> x < k \<Longrightarrow> x \<notin> covered m"
  by (auto simp: covered_def)

text \<open>Where reading stops: the first entry to keep, or the end of the map.\<close>

definition stops_at :: "bytes btree_map \<Rightarrow> nat \<Rightarrow> nat option \<Rightarrow> bool" where
  "stops_at m r keep \<longleftrightarrow>
     (case keep of
        None \<Rightarrow> \<forall>e\<in>set m. entry_end e \<le> r
      | Some s \<Rightarrow> \<exists>m1 d m2. m = m1 @ (s, d) # m2 \<and> (\<forall>e\<in>set m1. entry_end e \<le> r) \<and> r < s + length d)"

lemma stops_at_head: "r < s + length d \<Longrightarrow> stops_at ((s, d) # m) r (Some s)"
  unfolding stops_at_def by (simp, rule exI [of _ "[]"], auto)

lemma stops_at_Cons: "stops_at m r keep \<Longrightarrow> entry_end e \<le> r \<Longrightarrow> stops_at (e # m) r keep"
  by (auto simp: stops_at_def split: option.splits) (metis append_Cons set_ConsD)

lemma read_loop_ok:
  assumes "entries_ok f r m"
  shows "\<exists>k keep. read_loop m r space out = Ok (out @ map f [r..<r + k], r + k, keep) \<and> k \<le> space
    \<and> {r..<r + k} \<subseteq> covered m \<and> (k = space \<or> r + k \<notin> covered m) \<and> stops_at m (r + k) keep"
  using assms
proof (induction m arbitrary: r space out)
  case Nil
  then show ?case
    by (simp add: stops_at_def)
next
  case (Cons e m)
  obtain s d where e: "e = (s, d)" by (cases e)
  have ok: "agrees f (s, d)" "r < s + length d" "entries_ok f (s + length d) m" "\<forall>e'\<in>set m. s + length d \<le> fst e'"
    using Cons.prems by (auto simp: e entry_ok_def intro: entries_ok_raise)
  show ?case
  proof (cases "s \<le> r")
    case False
    then have "\<forall>e'\<in>set (e # m). s \<le> fst e'"
      using ok(4) by (auto simp: e)
    then have "r \<notin> covered (e # m)"
      using False covered_bounds [of "e # m" s r] by simp
    then show ?thesis
      using False stops_at_head [OF ok(2), of m] by (intro exI [of _ 0] exI [of _ "Some s"]) (simp add: e)
  next
    case True
    define a where "a = s + length d - r"
    have a: "length d - (r - s) = a" "r - s \<le> length d" "r + a = s + length d"
      using True ok(2) by (auto simp: a_def)
    have data: "drop (r - s) d = map f [r..<r + a]"
      using agrees_drop [OF ok(1) a(2)] True a(1) by (simp add: agrees_def)
    show ?thesis
    proof (cases "space < a")
      case True
      then have "take space (map f [r..<r + a]) = map f [r..<r + space]"
        by (simp add: take_map)
      moreover have "{r..<r + space} \<subseteq> {s..<s + length d}" "stops_at ((s, d) # m) (r + space) (Some s)"
        using True \<open>s \<le> r\<close> a(3) by (auto intro: stops_at_head)
      ultimately show ?thesis
        using True \<open>s \<le> r\<close> a(1,2) data by (intro exI [of _ space] exI [of _ "Some s"]) (auto simp: e Let_def)
    next
      case False
      define q where "q = s + length d"
      obtain k keep where k: "read_loop m q (space - a) (out @ map f [r..<r + a])
          = Ok ((out @ map f [r..<r + a]) @ map f [q..<q + k], q + k, keep)" "k \<le> space - a"
        "{q..<q + k} \<subseteq> covered m" "k = space - a \<or> q + k \<notin> covered m" "stops_at m (q + k) keep"
        using Cons.IH [OF ok(3)] unfolding q_def by blast
      have q: "r + (a + k) = q + k" "r + a = q" "r \<le> q" "q \<le> q + k"
        using a(3) by (simp_all add: q_def)
      have "[r..<q + k] = [r..<q] @ [q..<q + k]"
        using q(3) by (rule upt_add_eq_append)
      moreover have "{r..<q + k} \<subseteq> covered (e # m)"
      proof -
        have "{r..<q + k} = {r..<q} \<union> {q..<q + k}" "{r..<q} \<subseteq> {s..<q}"
          using q(3) True by auto
        then show ?thesis
          using k(3) by (auto simp: e q_def)
      qed
      moreover have "a + k = space \<or> q + k \<notin> covered (e # m)"
        using k(4) False by (auto simp: e q_def [symmetric])
      moreover have "stops_at (e # m) (q + k) keep"
        using stops_at_Cons [OF k(5), of e] by (simp add: e q_def)
      moreover have "read_loop (e # m) r space out = Ok (out @ map f [r..<q] @ map f [q..<q + k], q + k, keep)"
        using False True k(1) a(1,2) data q(2) by (simp add: e Let_def q_def)
      ultimately show ?thesis
        using False k(2) unfolding q(1) [symmetric] by (intro exI [of _ "a + k"] exI [of _ keep]) simp
    qed
  qed
qed

text \<open>
  Reading returns the next bytes of the stream, as many as there is room for or up to the first that is missing.
\<close>

lemma rx_read_ok:
  assumes ok: "rx_ok f rx"
  shows "\<exists>k rx'. rx_read rx space = Ok (map f [rx_retired rx..<rx_retired rx + k], rx') \<and> rx_ok f rx'
    \<and> rx_retired rx' = rx_retired rx + k \<and> arrived rx' = arrived rx
    \<and> k \<le> space \<and> {rx_retired rx..<rx_retired rx + k} \<subseteq> arrived rx \<and> (k = space \<or> rx_retired rx + k \<notin> arrived rx)"
proof -
  let ?r = "rx_retired rx" and ?m = "data_ranges rx"
  have e: "entries_ok f ?r ?m"
    using ok by (simp add: rx_ok_def)
  obtain k keep where k: "read_loop ?m ?r space [] = Ok (map f [?r..<?r + k], ?r + k, keep)" "k \<le> space"
    "{?r..<?r + k} \<subseteq> covered ?m" "k = space \<or> ?r + k \<notin> covered ?m" "stops_at ?m (?r + k) keep"
    using read_loop_ok [OF e, of space "[]"] by auto
  have low: "{..<?r + k} \<subseteq> {..<?r} \<union> {?r..<?r + k}"
    by auto
  show ?thesis
  proof (cases keep)
    case None
    then have ends: "\<forall>e\<in>set ?m. entry_end e \<le> ?r + k"
      using k(5) by (simp add: stops_at_def)
    then have "covered ?m \<subseteq> {..<?r + k}"
      by (fastforce simp: covered_def)
    moreover have "?r + k \<le> rx_end rx"
      using subsetD [OF k(3), of "?r + k - 1"] rx_ok_bounds(2) [OF ok, of "?r + k - 1"] rx_ok_bounds(1) [OF ok]
      by (cases k) (auto simp: arrived_def)
    moreover have "rx_end rx < 2 ^ 62"
      using ok by (simp add: rx_ok_def)
    ultimately show ?thesis
      using None k low by (intro exI [of _ k] exI [of _ "rx\<lparr>data_ranges := [], rx_retired := ?r + k, rx_end := ?r + k\<rparr>"])
        (auto simp: rx_read_def rx_ok_def arrived_def)
  next
    case (Some s)
    then obtain m1 d m2 where m: "?m = m1 @ (s, d) # m2" "\<forall>e\<in>set m1. entry_end e \<le> ?r + k" "?r + k < s + length d"
      using k(5) by (auto simp: stops_at_def)
    have bt: "bt_from s ?m = (s, d) # m2"
      unfolding m(1) using entries_ok_bt_ok [OF e] m(1) by (intro bt_from_append) (auto simp: bt_ok_append less_imp_le)
    have sd: "entry_ok f ?r (s, d)" "entries_ok f ?r m2" "\<forall>e\<in>set m2. s + length d \<le> fst e"
      using e unfolding m(1) by (simp_all add: entries_ok_append)
    have "\<forall>e\<in>set m2. ?r + k \<le> fst e"
      using sd(3) m(3) by fastforce
    then have m2: "entries_ok f (?r + k) ((s, d) # m2)"
      using sd m(3) entries_ok_raise [OF sd(2)] by (simp add: entry_ok_def)
    have "covered m1 \<subseteq> {..<?r + k}"
      using m(2) by (fastforce simp: covered_def)
    moreover have "bt_last ((s, d) # m2) = bt_last ?m"
      by (simp add: m(1) bt_last_def)
    ultimately show ?thesis
      using Some k low bt m2 ok m(1)
      by (intro exI [of _ k] exI [of _ "rx\<lparr>data_ranges := (s, d) # m2, rx_retired := ?r + k\<rparr>"])
        (auto simp: rx_read_def rx_ok_def arrived_def split: option.splits)
  qed
qed

text \<open>\<open>bytes_ready\<close> is the number of bytes up to the first one that is missing.\<close>

lemma ready_len_ok:
  assumes "entries_ok f p m" "r \<le> p" "p = r \<or> (\<forall>e\<in>set m. p \<le> fst e)" "\<forall>e\<in>set m. entry_end e < 2 ^ 64"
  shows "{p..<p + ready_len r m p} \<subseteq> covered m \<and> p + ready_len r m p \<notin> covered m"
  using assms
proof (induction m arbitrary: p)
  case (Cons e m)
  obtain s d where e: "e = (s, d)" by (cases e)
  have ok: "p < s + length d" "entries_ok f (s + length d) m" "\<forall>e'\<in>set m. s + length d \<le> fst e'" "s + length d < 2 ^ 64"
    using Cons.prems(1,4) by (auto simp: e entry_ok_def intro: entries_ok_raise)
  show ?case
  proof (cases "s \<le> p")
    case False
    then have "\<forall>e'\<in>set (e # m). s \<le> fst e'"
      using ok(3) by (auto simp: e)
    then show ?thesis
      using False covered_bounds [of "e # m" s p] by (simp add: e)
  next
    case True
    have "p = r \<or> s = p"
      using Cons.prems(3) True by (auto simp: e)
    then have len: "p + (length d - (r - s)) = s + length d" "r - s \<le> length d" "length d < 2 ^ 64"
      using True ok(1,4) Cons.prems(2) by auto
    define q where "q = s + length d"
    define k where "k = ready_len r m q"
    have k: "ready_len r (e # m) p = length d - (r - s) + k"
      using True len u64_sub_eq [OF len(2,3)] by (simp add: e Let_def k_def q_def)
    have IH: "{q..<q + k} \<subseteq> covered m \<and> q + k \<notin> covered m"
      unfolding k_def using Cons.IH [of q] ok Cons.prems(2,4) by (auto simp: q_def)
    have q: "p + ready_len r (e # m) p = q + k" "p \<le> q"
      using k len(1) ok(1) by (simp_all add: q_def)
    have "{p..<q + k} = {p..<q} \<union> {q..<q + k}" "{p..<q} \<subseteq> {s..<q}"
      using q(2) True by auto
    moreover have "covered (e # m) = {s..<q} \<union> covered m"
      by (simp add: e q_def)
    ultimately show ?thesis
      using IH unfolding q(1) by auto
  qed
qed simp

lemma bytes_ready_ok:
  assumes "rx_ok f rx"
  shows "{..<rx_retired rx + bytes_ready rx} \<subseteq> arrived rx" "rx_retired rx + bytes_ready rx \<notin> arrived rx"
proof -
  have "rx_end rx < 2 ^ 62"
    using assms by (simp add: rx_ok_def)
  then have "\<forall>e\<in>set (data_ranges rx). entry_end e < 2 ^ 64"
    using rx_ok_bounds(3) [OF assms] by fastforce
  then have r: "{rx_retired rx..<rx_retired rx + bytes_ready rx} \<subseteq> covered (data_ranges rx)
      \<and> rx_retired rx + bytes_ready rx \<notin> covered (data_ranges rx)"
    unfolding bytes_ready_def using assms by (intro ready_len_ok) (auto simp: rx_ok_def)
  have "{..<rx_retired rx + bytes_ready rx} = {..<rx_retired rx} \<union> {rx_retired rx..<rx_retired rx + bytes_ready rx}"
    by auto
  then show "{..<rx_retired rx + bytes_ready rx} \<subseteq> arrived rx" "rx_retired rx + bytes_ready rx \<notin> arrived rx"
    using r by (auto simp: arrived_def)
qed

lemma rx_data_ready_ok:
  assumes "rx_ok f rx"
  shows "rx_data_ready rx \<longleftrightarrow> rx_retired rx \<in> arrived rx"
proof (cases "data_ranges rx")
  case (Cons e m)
  obtain s d where e: "e = (s, d)" by (cases e)
  have "rx_retired rx < s + length d" "\<forall>e'\<in>set m. s + length d \<le> fst e'"
    using assms Cons e by (auto simp: rx_ok_def entry_ok_def)
  then show ?thesis
    using covered_bounds [of m "s + length d" "rx_retired rx"] by (auto simp: rx_data_ready_def arrived_def Cons e)
qed (simp add: rx_data_ready_def arrived_def)

text \<open>The test for duplicate data.\<close>

lemma covers_to_iff:
  assumes "entries_ok f r m" "\<forall>x\<in>set m. c \<le> fst x"
  shows "covers_to (bt_below e m) c e \<longleftrightarrow> {c..<e} \<subseteq> covered m"
  using assms
proof (induction m arbitrary: c)
  case Nil
  then show ?case
    by (auto simp: bt_below_def)
next
  case (Cons x m)
  obtain s d where x: "x = (s, d)" by (cases x)
  have ok: "s < s + length d" "entries_ok f r m" "\<forall>x\<in>set m. s + length d \<le> fst x" "c \<le> s"
    using Cons.prems by (auto simp: x entry_ok_def)
  have low: "c \<notin> covered (x # m)" if "c < s"
    using that covered_bounds [OF ok(3), of c] by (simp add: x)
  show ?case
  proof (cases "s < e")
    case False
    then have "bt_below e (x # m) = []"
      by (simp add: x bt_below_def)
    moreover have "\<not> {c..<e} \<subseteq> covered (x # m)" if "c < e"
      using that False low by auto
    ultimately show ?thesis
      by (cases "c < e") auto
  next
    case True
    then have below: "bt_below e (x # m) = (s, d) # bt_below e m"
      by (simp add: x bt_below_def)
    show ?thesis
    proof (cases "c < s")
      case True
      then show ?thesis
        using below low [OF True] subsetD [of "{c..<e}" "covered (x # m)" c] \<open>s < e\<close> by auto
    next
      case False
      then have c: "c = s"
        using ok(4) by simp
      have "{s..<e} \<subseteq> covered (x # m) \<longleftrightarrow> {s + length d..<e} \<subseteq> covered m"
        using covered_bounds [OF ok(3)] by (auto simp: x subset_iff) (metis le_add1 le_trans not_le)+
      then show ?thesis
        using Cons.IH [OF ok(2,3)] below c by simp
    qed
  qed
qed

lemma covered_suffix:
  assumes "\<forall>x\<in>set l. entry_end x \<le> k" "k \<le> c" "c < e" "\<forall>x\<in>set u. c < fst x" "\<forall>x\<in>set u. k + length d \<le> fst x"
  shows "{k + length d..<e} \<subseteq> covered u \<longleftrightarrow> {c..<e} \<subseteq> covered (l @ (k, d) # u)"
proof -
  define q where "q = k + length d"
  have l: "x \<notin> covered l" if "c \<le> x" for x
    using assms(1,2) that by (fastforce simp: covered_def)
  have cov: "x \<in> covered (l @ (k, d) # u) \<longleftrightarrow> x < q \<or> x \<in> covered u" if "c \<le> x" for x
    using l [OF that] assms(2) that by (auto simp: q_def)
  have u: "x \<notin> covered u" if "x \<le> c \<or> x < q" for x
    using that assms(4,5) by (fastforce simp: covered_def q_def)
  show ?thesis
  proof (cases "c < q")
    case True
    have "{c..<e} \<subseteq> covered (l @ (k, d) # u) \<longleftrightarrow> (\<forall>x. c \<le> x \<and> x < e \<longrightarrow> x < q \<or> x \<in> covered u)"
      using cov by (auto simp: subset_iff)
    also have "\<dots> \<longleftrightarrow> {q..<e} \<subseteq> covered u"
      using True by (auto simp: subset_iff) (metis less_imp_le not_le order.strict_trans2)+
    finally show ?thesis
      by (simp add: q_def)
  next
    case False
    then show ?thesis
      using assms(3) u [of q] u [of c] cov [of c] unfolding q_def [symmetric] by (auto simp: subset_iff not_less)
  qed
qed

lemma already_received_ok:
  assumes ok: "rx_ok f rx" and n: "0 < n" "s + n < 2 ^ 62"
  shows "already_received rx s n \<longleftrightarrow> {s..<s + n} \<subseteq> arrived rx"
proof -
  let ?r = "rx_retired rx" and ?m = "data_ranges rx"
  define e where "e = s + n"
  have e: "u64_add s n = e" "s < e"
    using n by (simp_all add: e_def u64_add_eq)
  consider (beyond) "rx_end rx < e" | (read) "e \<le> rx_end rx" "e \<le> ?r" | (held) "e \<le> rx_end rx" "?r < e"
    by linarith
  then show ?thesis
  proof cases
    case beyond
    then have "e - 1 \<notin> arrived rx"
      using rx_ok_bounds(2) [OF ok, of "e - 1"] by auto
    then have "\<not> {s..<e} \<subseteq> arrived rx"
      using e(2) by (auto simp: subset_iff intro!: exI [of _ "e - 1"])
    then show ?thesis
      using beyond e by (simp add: already_received_def e_def [symmetric])
  next
    case read
    then show ?thesis
      using e by (auto simp: already_received_def arrived_def e_def [symmetric] Let_def)
  next
    case held
    define c where "c = max s ?r"
    have c: "?r \<le> c" "c < e"
      using held e(2) by (auto simp: c_def)
    have ents: "entries_ok f ?r ?m"
      using ok by (simp add: rx_ok_def)
    have arr: "{s..<e} \<subseteq> arrived rx \<longleftrightarrow> {c..<e} \<subseteq> covered ?m"
      by (auto simp: c_def arrived_def subset_iff)
    obtain l u where lu: "?m = l @ u" "bt_upto c ?m = l" "\<forall>x\<in>set l. fst x \<le> c" "\<forall>x\<in>set u. c < fst x"
      by (rule bt_split_upto [OF entries_ok_bt_ok [OF ents]])
    have okr: "already_received rx s n \<longleftrightarrow> covers_to (bt_below e (bt_from (case bt_last l of None \<Rightarrow> c | Some (k, _) \<Rightarrow> k) ?m)) c e"
      using held c(2) unfolding already_received_def Let_def e(1) c_def [symmetric] lu(2) by simp
    show ?thesis
    proof (cases l rule: rev_cases)
      case Nil
      then have "bt_from c ?m = u"
        using lu(1,4) bt_from_append [of "[]" c u] by (simp add: less_imp_le)
      then show ?thesis
        using covers_to_iff [of f ?r u c e] ents lu(1,4) Nil okr arr by (simp add: e_def less_imp_le)
    next
      case (snoc l' x)
      obtain k d where x: "x = (k, d)" by (cases x)
      have m: "?m = l' @ (k, d) # u"
        using lu(1) snoc x by simp
      have ok': "entries_ok f ?r u" "\<forall>x\<in>set u. k + length d \<le> fst x" "\<forall>x\<in>set l'. entry_end x \<le> k" "k \<le> c" "k < e"
        using ents lu(3) c(2) by (auto simp: m entries_ok_append snoc x)
      have "bt_from k ?m = (k, d) # u"
        using entries_ok_bt_ok [OF ents] unfolding m by (intro bt_from_append) (auto simp: bt_ok_append less_imp_le)
      then have "already_received rx s n \<longleftrightarrow> {k + length d..<e} \<subseteq> covered u"
        using okr covers_to_iff [OF ok'(1,2), of e] ok'(4,5) by (simp add: snoc x bt_below_def)
      also have "\<dots> \<longleftrightarrow> {c..<e} \<subseteq> covered ?m"
        unfolding m by (rule covered_suffix [OF ok'(3,4) c(2) lu(4) ok'(2)])
      finally show ?thesis
        using arr by (simp add: e_def)
    qed
  qed
qed

text \<open>Dropping what lies beyond the reliable size of a stream that is reset.\<close>

lemma discard_after_ok:
  assumes ok: "rx_ok f rx" and r: "rx_retired rx < k"
  shows "rx_ok f (discard_after rx k)" "arrived (discard_after rx k) = arrived rx \<inter> {..<k}"
    "rx_retired (discard_after rx k) = rx_retired rx"
proof -
  let ?r = "rx_retired rx" and ?m = "data_ranges rx"
  define l where "l = bt_below k ?m"
  define u where "u = bt_from k ?m"
  have m: "?m = l @ u"
    by (simp add: l_def u_def bt_below_def bt_from_def)
  have ents: "entries_ok f ?r (l @ u)"
    using ok m by (simp add: rx_ok_def)
  then have bt: "bt_ok ?m"
    unfolding m by (rule entries_ok_bt_ok)
  have l: "\<forall>e\<in>set l. fst e < k" and "\<forall>e\<in>set u. k \<le> fst e"
    by (auto simp: l_def u_def bt_below_split [OF bt] bt_from_split [OF bt])
  then have u: "covered u \<inter> {..<k} = {}"
    by (auto simp: covered_def)
  have "rx_ok f (discard_after rx k) \<and> arrived (discard_after rx k) = arrived rx \<inter> {..<k} \<and> rx_retired (discard_after rx k) = ?r"
  proof (cases l rule: rev_cases)
    case Nil
    then show ?thesis
      using u r rx_ok_bounds(1) [OF ok] ok m unfolding discard_after_def l_def [symmetric]
      by (auto simp: rx_ok_def arrived_def)
  next
    case (snoc l' e)
    obtain s d where e: "e = (s, d)" by (cases e)
    define d' where "d' = take (k - s) d"
    have s: "s < k" and sd: "entries_ok f ?r (l' @ [(s, d)] @ u)"
      using l ents by (simp_all add: snoc e)
    then have ends: "\<forall>x\<in>set l'. entry_end x \<le> s" "agrees f (s, d)" "?r < s + length d" "d \<noteq> []"
      by (auto simp: entries_ok_append entry_ok_def)
    have d': "d' \<noteq> []" "?r < s + length d'" "agrees f (s, d')" "s + length d' = min (s + length d) k"
      using s r ends by (auto simp: d'_def agrees_take)
    have "entries_ok f ?r (l' @ [(s, d')])"
      using entries_ok_splice [of f ?r l' "[(s, d)] @ u" "[]" s d'] sd d' ends(1) by simp
    moreover have md: "bt_modify s (\<lambda>_. d') l = l' @ [(s, d')]"
      using bt_modify_last [of l' s "[]"] bt m by (fastforce simp: snoc e bt_ok_append)
    moreover have "covered (l' @ [(s, d')]) = covered ?m \<inter> {..<k}"
      using u ends(1) s d'(4) by (fastforce simp: m snoc e covered_def)
    moreover have "rx_end rx < 2 ^ 62" "s + length d \<le> rx_end rx"
      using ok rx_ok_bounds(3) [OF ok] by (auto simp: rx_ok_def m snoc e)
    moreover have da: "discard_after rx k = rx\<lparr>data_ranges := l' @ [(s, d')], rx_end := s + length d'\<rparr>"
      using md unfolding discard_after_def l_def [symmetric] by (simp add: snoc e d'_def)
    moreover have "{..<?r} \<inter> {..<k} = {..<?r}"
      using r by auto
    ultimately show ?thesis
      using d'(4) unfolding da by (simp add: rx_ok_def arrived_def Int_Un_distrib2)
  qed
  then show "rx_ok f (discard_after rx k)" "arrived (discard_after rx k) = arrived rx \<inter> {..<k}"
    "rx_retired (discard_after rx k) = rx_retired rx"
    by blast+
qed

end
