(* ===== verification/Flow_Credit.thy ===== *)
theory Flow_Credit
  imports Flow_Control Frame_Writer
begin

text \<open>
  What flow control guarantees. Receiving: the credit granted never shrinks, is never overdrawn, and is renewed before the peer can
  run dry. Sending: a limit is reported as blocking once. Stream numbers are handed out in order, within the limit.
\<close>

subsection \<open>Interface: credit that only grows\<close>

text \<open>
  What a peer may rely on: whatever steps the receiver takes, a granted limit stays good, and what is consumed
  stays within it.
\<close>

locale growing_credit =
  fixes inv :: "'s \<Rightarrow> bool"
    and step :: "'s \<Rightarrow> 's \<Rightarrow> bool"
    and granted :: "'s \<Rightarrow> nat"
    and taken :: "'s \<Rightarrow> nat"
  assumes inv_step: "inv s \<Longrightarrow> step s s' \<Longrightarrow> inv s'"
    and granted_step: "inv s \<Longrightarrow> step s s' \<Longrightarrow> granted s \<le> granted s'"
    and within: "inv s \<Longrightarrow> taken s \<le> granted s"
begin

lemma steps_inv: "step\<^sup>*\<^sup>* s s' \<Longrightarrow> inv s \<Longrightarrow> inv s'"
  by (induction rule: rtranclp_induct) (auto intro: inv_step)

lemma steps_granted: "step\<^sup>*\<^sup>* s s' \<Longrightarrow> inv s \<Longrightarrow> granted s \<le> granted s'"
  by (induction rule: rtranclp_induct) (auto dest: granted_step steps_inv intro: order_trans)

lemma steps_within: "step\<^sup>*\<^sup>* s s' \<Longrightarrow> inv s \<Longrightarrow> taken s' \<le> granted s'"
  by (auto dest: steps_inv within)

end

subsection \<open>Receiving\<close>

text \<open>
  The invariant: items are retired after they are consumed, consumed within the limit, and the limit lies within the
  window above what is retired. When no update is pending, three quarters of the window are open, or the
  limit cannot grow any more.
\<close>

definition rfc_inv :: "'a receiver_fc \<Rightarrow> bool" where
  "rfc_inv fc \<longleftrightarrow> rfc_retired fc \<le> rfc_consumed fc \<and> rfc_consumed fc \<le> max_allowed fc
     \<and> max_allowed fc \<le> rfc_retired fc + max_active fc \<and> max_allowed fc \<le> MAX_VARINT \<and> max_active fc \<le> MAX_VARINT
     \<and> (\<not> frame_pending fc \<longrightarrow>
          max_active fc - max_active fc div 4 \<le> max_allowed fc - rfc_retired fc \<or> max_allowed fc = MAX_VARINT)"

lemma MAX_VARINT_bounds: "a \<le> MAX_VARINT \<Longrightarrow> b \<le> MAX_VARINT \<Longrightarrow> a + b < 2 ^ 64"
  by (simp add: MAX_VARINT_def)

lemma rfc_inv_new: "m \<le> MAX_VARINT \<Longrightarrow> rfc_inv (receiver_fc_new x m)"
  by (simp add: rfc_inv_def receiver_fc_new_def)

lemma rfc_inv_no_wrap:
  assumes "rfc_inv fc"
  shows "u64_add (rfc_retired fc) (max_active fc) = rfc_retired fc + max_active fc"
    "u64_sub (max_allowed fc) (rfc_retired fc) = max_allowed fc - rfc_retired fc"
    "u64_sub (max_active fc) (max_allowed fc - rfc_retired fc) = max_active fc - (max_allowed fc - rfc_retired fc)"
  using assms MAX_VARINT_bounds [of "rfc_retired fc" "max_active fc"] by (auto simp: rfc_inv_def MAX_VARINT_def u64)

lemma rfc_inv_retire:
  assumes inv: "rfc_inv fc" and r: "rfc_retired fc \<le> r" "r \<le> rfc_consumed fc"
  defines "fc' \<equiv> fc\<lparr>rfc_retired := r\<rparr>"
  shows "rfc_inv (if should_send_update fc' then fc'\<lparr>frame_pending := True\<rparr> else fc')"
proof -
  have "u64_sub (max_allowed fc) r = max_allowed fc - r"
    using inv r by (auto simp: rfc_inv_def MAX_VARINT_def u64)
  then show ?thesis
    using inv r by (auto simp: rfc_inv_def fc'_def should_send_update_def WINDOW_UPDATE_FRACTION_def)
qed

lemma rfc_inv_add_retired:
  assumes "rfc_inv fc" "rfc_add_retired fc n = Ok fc'" "n \<le> MAX_VARINT"
  shows "rfc_inv fc'"
proof -
  have "u64_add (rfc_retired fc) n = rfc_retired fc + n"
    using assms MAX_VARINT_bounds [of "rfc_retired fc" n] by (simp add: rfc_inv_def u64)
  then show ?thesis
    using assms(2) rfc_inv_retire [OF assms(1), of "rfc_retired fc + n"]
    by (auto simp: rfc_add_retired_def Let_def split: if_splits)
qed

lemma rfc_inv_retire_to: "rfc_inv fc \<Longrightarrow> n \<le> rfc_consumed fc \<Longrightarrow> rfc_inv (rfc_retire fc n)"
  using rfc_inv_retire [of fc n] by (auto simp: rfc_retire_def Let_def)

lemma rfc_inv_flowc_update: "rfc_inv fc \<Longrightarrow> rfc_inv (send_flowc_update fc)"
  by (auto simp: rfc_inv_def send_flowc_update_def)

lemma rfc_inv_lost: "rfc_inv fc \<Longrightarrow> rfc_inv (rfc_frame_lost fc n)"
  by (auto simp: rfc_inv_def rfc_frame_lost_def)

lemma rfc_inv_grow: "rfc_inv fc \<Longrightarrow> max_active fc \<le> m \<Longrightarrow> m \<le> MAX_VARINT \<Longrightarrow> rfc_inv (set_max_active fc m)"
  by (auto simp: rfc_inv_def set_max_active_def)

lemma rfc_inv_consumed:
  "rfc_inv fc \<Longrightarrow> rfc_consumed fc \<le> n \<Longrightarrow> n \<le> max_allowed fc \<Longrightarrow> rfc_inv (fc\<lparr>rfc_consumed := n\<rparr>)"
  by (auto simp: rfc_inv_def)

text \<open>Tuning changes only the window, upwards, and only while an update is pending.\<close>

lemma auto_tune_cases:
  obtains "auto_tune_inner fc now rtt w = fc"
  | m where "auto_tune_inner fc now rtt w = fc\<lparr>max_active := m\<rparr>" "max_active fc < m" "m \<le> w"
proof -
  define P where "P x \<longleftrightarrow> x = fc \<or> (\<exists>m. x = fc\<lparr>max_active := m\<rparr> \<and> max_active fc < m \<and> m \<le> w)" for x
  have fc: "P fc"
    by (simp add: P_def)
  have raised: "P (if min a w \<le> max_active fc then fc else fc\<lparr>max_active := min a w\<rparr>)" for a
  proof (cases "min a w \<le> max_active fc")
    case False
    then have "max_active fc < min a w" "min a w \<le> w"
      by linarith simp
    then have "P (fc\<lparr>max_active := min a w\<rparr>)"
      unfolding P_def by blast
    then show ?thesis
      using False by (simp only: if_False)
  qed (simp only: if_True fc)
  have "P (if c then fc else y)" if "P y" for c y
    using fc that by simp
  then have "P (auto_tune_inner fc now rtt w)"
    unfolding auto_tune_inner_def Let_def using fc raised by (cases "last_update fc") (simp_all only: option.case)
  then show thesis
    using that unfolding P_def by blast
qed

lemma rfc_inv_auto_tune:
  assumes "rfc_inv fc" "frame_pending fc" "w \<le> MAX_VARINT"
  shows "rfc_inv (auto_tune_inner fc now rtt w)"
  using assms by (cases rule: auto_tune_cases [of fc now rtt w]) (auto simp: rfc_inv_def)

lemma auto_tune_same [simp]:
  "max_allowed (auto_tune_inner fc now rtt w) = max_allowed fc"
  "rfc_retired (auto_tune_inner fc now rtt w) = rfc_retired fc"
  "rfc_consumed (auto_tune_inner fc now rtt w) = rfc_consumed fc"
  "frame_pending (auto_tune_inner fc now rtt w) = frame_pending fc"
  by (cases rule: auto_tune_cases [of fc now rtt w]; simp)+

lemma rfc_inv_sent:
  assumes "rfc_inv fc"
  shows "rfc_inv (rfc_frame_sent fc (next_limit fc))" "max_allowed fc \<le> next_limit fc"
  using assms rfc_inv_no_wrap(1) [OF assms] by (auto simp: rfc_inv_def rfc_frame_sent_def next_limit_def)

lemma rfc_inv_last_update [simp]: "rfc_inv (fc\<lparr>last_update := t\<rparr>) = rfc_inv fc"
  by (simp add: rfc_inv_def)

lemma windows_bounded: "MAX_LOCAL_MAX_DATA \<le> MAX_VARINT" "MAX_LOCAL_MAX_STREAM_DATA \<le> MAX_VARINT"
  by (simp_all add: MAX_LOCAL_MAX_DATA_def MAX_LOCAL_MAX_STREAM_DATA_def CONNECTION_FACTOR_def MAX_VARINT_def)

text \<open>The steps of the flow control of a connection and of a stream whose window is never lowered.\<close>

inductive conn_step :: "'b Buffer \<Rightarrow> unit receiver_fc \<Rightarrow> unit receiver_fc \<Rightarrow> bool" for B where
  consume: "conn_rfc_consume fc n = Ok fc' \<Longrightarrow> n \<le> MAX_VARINT \<Longrightarrow> conn_step B fc fc'"
| retire: "rfc_add_retired fc n = Ok fc' \<Longrightarrow> n \<le> MAX_VARINT \<Longrightarrow> conn_step B fc fc'"
| peer_blocked: "conn_step B fc (send_flowc_update fc)"
| lost: "conn_step B fc (rfc_frame_lost fc n)"
| grow: "max_active fc \<le> m \<Longrightarrow> m \<le> MAX_VARINT \<Longrightarrow> conn_step B fc (set_max_active fc m)"
| write_update: "conn_rfc_write_frames B fc b ts now rtt = Ok (fc', b', ts') \<Longrightarrow> conn_step B fc fc'"

inductive stream_step :: "'b Buffer \<Rightarrow> stream_id receiver_fc \<Rightarrow> stream_id receiver_fc \<Rightarrow> bool" for B where
  consume: "set_consumed fc n = Ok (k, fc') \<Longrightarrow> stream_step B fc fc'"
| retire: "rfc_add_retired fc n = Ok fc' \<Longrightarrow> n \<le> MAX_VARINT \<Longrightarrow> stream_step B fc fc'"
| retire_to: "n \<le> rfc_consumed fc \<Longrightarrow> stream_step B fc (rfc_retire fc n)"
| peer_blocked: "stream_step B fc (send_flowc_update fc)"
| lost: "stream_step B fc (rfc_frame_lost fc n)"
| grow: "max_active fc \<le> m \<Longrightarrow> m \<le> MAX_VARINT \<Longrightarrow> stream_step B fc (set_max_active fc m)"
| write_update: "stream_rfc_write_frames B fc b ts now rtt = Ok (fc', b', ts') \<Longrightarrow> stream_step B fc fc'"

lemmas rfc_inv_ops = rfc_inv_add_retired rfc_inv_retire_to rfc_inv_flowc_update rfc_inv_lost rfc_inv_grow rfc_inv_consumed

lemma conn_write_inv:
  assumes "rfc_inv fc" "conn_rfc_write_frames B fc b ts now rtt = Ok (fc', b', ts')"
  shows "rfc_inv fc' \<and> max_allowed fc \<le> max_allowed fc'"
proof (cases "frame_needed fc")
  case True
  define fc1 where "fc1 = conn_auto_tune fc now rtt"
  have inv1: "rfc_inv fc1"
    using True assms(1) windows_bounded by (simp add: fc1_def conn_auto_tune_def frame_needed_def rfc_inv_auto_tune)
  have same: "max_allowed fc1 = max_allowed fc"
    by (simp add: fc1_def conn_auto_tune_def)
  have "fc' = fc1 \<or> fc' = (rfc_frame_sent fc1 (next_limit fc1))\<lparr>last_update := Some now\<rparr>"
    using assms(2) True unfolding conn_rfc_write_frames_def fc1_def [symmetric]
    by (auto simp: Let_def bind_res_Ok_iff split: if_splits)
  then show ?thesis
    using inv1 same rfc_inv_sent [OF inv1] by (auto simp: rfc_frame_sent_def)
qed (use assms in \<open>simp add: conn_rfc_write_frames_def\<close>)

lemma stream_write_inv:
  assumes "rfc_inv fc" "stream_rfc_write_frames B fc b ts now rtt = Ok (fc', b', ts')"
  shows "rfc_inv fc' \<and> max_allowed fc \<le> max_allowed fc'"
proof (cases "frame_needed fc")
  case True
  define fc1 where "fc1 = stream_auto_tune fc now rtt"
  have inv1: "rfc_inv fc1"
    using True assms(1) windows_bounded by (simp add: fc1_def stream_auto_tune_def frame_needed_def rfc_inv_auto_tune)
  have same: "max_allowed fc1 = max_allowed fc"
    by (simp add: fc1_def stream_auto_tune_def)
  have "fc' = fc1 \<or> fc' = (rfc_frame_sent fc1 (next_limit fc1))\<lparr>last_update := Some now\<rparr>"
    using assms(2) True unfolding stream_rfc_write_frames_def fc1_def [symmetric]
    by (auto simp: Let_def bind_res_Ok_iff split: if_splits)
  then show ?thesis
    using inv1 same rfc_inv_sent [OF inv1] by (auto simp: rfc_frame_sent_def)
qed (use assms in \<open>simp add: stream_rfc_write_frames_def\<close>)

lemma max_allowed_ops [simp]:
  "max_allowed (send_flowc_update fc) = max_allowed fc" "max_allowed (rfc_frame_lost fc n) = max_allowed fc"
  "max_allowed (set_max_active fc n) = max_allowed fc" "max_allowed (rfc_retire fc n) = max_allowed fc"
  by (simp_all add: send_flowc_update_def rfc_frame_lost_def set_max_active_def rfc_retire_def Let_def)

lemma conn_step_inv:
  assumes "conn_step B fc fc'" "rfc_inv fc"
  shows "rfc_inv fc' \<and> max_allowed fc \<le> max_allowed fc'"
  using assms
proof cases
  case (consume n)
  have "u64_add (rfc_consumed fc) n = rfc_consumed fc + n"
    using consume(2) assms(2) MAX_VARINT_bounds [of "rfc_consumed fc" n] by (simp add: rfc_inv_def u64)
  then show ?thesis
    using consume(1) assms(2) by (auto simp: conn_rfc_consume_def intro: rfc_inv_consumed split: if_splits)
next
  case (retire n)
  then show ?thesis
    using rfc_inv_add_retired [OF assms(2)] by (auto simp: rfc_add_retired_def Let_def)
next
  case (write_update b ts now rtt b' ts')
  then show ?thesis
    using conn_write_inv [OF assms(2)] by blast
qed (use assms(2) in \<open>auto intro: rfc_inv_ops\<close>)

lemma stream_step_inv:
  assumes "stream_step B fc fc'" "rfc_inv fc"
  shows "rfc_inv fc' \<and> max_allowed fc \<le> max_allowed fc'"
  using assms
proof cases
  case (consume n k)
  then show ?thesis
    using assms(2) by (auto simp: set_consumed_def intro: rfc_inv_consumed split: if_splits)
next
  case (retire n)
  then show ?thesis
    using rfc_inv_add_retired [OF assms(2)] by (auto simp: rfc_add_retired_def Let_def)
next
  case (write_update b ts now rtt b' ts')
  then show ?thesis
    using stream_write_inv [OF assms(2)] by blast
qed (use assms(2) in \<open>auto intro: rfc_inv_ops\<close>)

interpretation conn_credit: growing_credit rfc_inv "conn_step B" max_allowed rfc_consumed for B :: "'b Buffer"
  by unfold_locales (auto dest: conn_step_inv simp: rfc_inv_def [of "_ :: unit receiver_fc"])

interpretation stream_credit: growing_credit rfc_inv "stream_step B" max_allowed rfc_consumed for B :: "'b Buffer"
  by unfold_locales (auto dest: stream_step_inv simp: rfc_inv_def [of "_ :: stream_id receiver_fc"])

lemma rfc_inv_starved:
  assumes "rfc_inv fc" "rfc_retired fc = max_allowed fc" "0 < max_active fc" "max_allowed fc < MAX_VARINT"
  shows "frame_needed fc"
proof -
  have "0 < max_active fc - max_active fc div 4"
    using assms(3) by simp
  then show ?thesis
    using assms by (auto simp: rfc_inv_def frame_needed_def)
qed

lemma conn_write_raises:
  assumes inv: "rfc_inv fc" and starved: "rfc_retired fc = max_allowed fc" "0 < max_active fc" "max_allowed fc < MAX_VARINT"
    and b: "vec.wf_builder b" "9 \<le> builder_remaining vec_buffer b"
  shows "\<exists>fc' b' limit. conn_rfc_write_frames vec_buffer fc b ts now rtt
      = Ok (fc', b', ts @ [Tok_Stream (SRT_MaxData limit)])
    \<and> max_allowed fc' = limit \<and> max_allowed fc < limit \<and> limit \<le> MAX_VARINT
    \<and> vec.wrote b (frame_bytes (Frame_MaxData limit)) b'"
proof -
  define fc1 where "fc1 = conn_auto_tune fc now rtt"
  have needed: "frame_needed fc"
    using inv starved by (rule rfc_inv_starved)
  then have inv1: "rfc_inv fc1"
    using inv windows_bounded by (simp add: fc1_def conn_auto_tune_def frame_needed_def rfc_inv_auto_tune)
  have same: "max_allowed fc1 = max_allowed fc" "rfc_retired fc1 = rfc_retired fc" "max_active fc \<le> max_active fc1"
    unfolding fc1_def conn_auto_tune_def
    by (simp_all, cases rule: auto_tune_cases [of fc now rtt MAX_LOCAL_MAX_DATA]) simp_all
  let ?l = "next_limit fc1"
  have l: "?l \<le> MAX_VARINT" "max_allowed fc < ?l"
    using same starved rfc_inv_no_wrap(1) [OF inv1] by (auto simp: next_limit_def)
  let ?vs = "[frame_type_code FT_MaxData, ?l]"
  have "list_all (\<lambda>v. v < 2 ^ 62) ?vs"
    using l(1) by (simp add: MAX_VARINT_def)
  moreover have "length (varints_bytes ?vs) \<le> builder_remaining vec_buffer b"
    using b(2) by (simp add: varint_size_def)
  ultimately obtain b' where b': "write_varint_frame vec_buffer b ?vs = Ok (True, b')" "vec.wrote b (varints_bytes ?vs) b'"
    using vec.write_varint_frame_ok [OF b(1)] by blast
  then show ?thesis
    using needed l by (intro exI [of _ "(rfc_frame_sent fc1 ?l)\<lparr>last_update := Some now\<rparr>"] exI [of _ b'] exI [of _ ?l])
      (simp add: conn_rfc_write_frames_def Let_def fc1_def [symmetric] rfc_frame_sent_def ft_bytes_def)
qed

subsection \<open>Sending\<close>

text \<open>The steps of a sender whose frames are not lost, with the limits it reports.\<close>

inductive report :: "'b Buffer \<Rightarrow> unit sender_fc \<Rightarrow> nat list \<Rightarrow> unit sender_fc \<Rightarrow> bool" for B fc where
  nothing: "report B fc [] fc"
| raise_limit: "report B fc ls f \<Longrightarrow> sfc_update f limit = (r, f') \<Longrightarrow> report B fc ls f'"
| consume: "report B fc ls f \<Longrightarrow> sfc_consume f n = Ok f' \<Longrightarrow> report B fc ls f'"
| block: "report B fc ls f \<Longrightarrow> report B fc ls (sfc_blocked f)"
| write_blocked: "report B fc ls f \<Longrightarrow>
    conn_sfc_write_frames B f b ts = Ok (f', b', ts @ map (\<lambda>l. Tok_Stream (SRT_DataBlocked l)) new) \<Longrightarrow>
    report B fc (ls @ new) f'"

definition sfc_inv :: "'a sender_fc \<Rightarrow> bool" where
  "sfc_inv fc \<longleftrightarrow> sfc_used fc \<le> sfc_limit fc \<and>
     (case blocked_at fc of None \<Rightarrow> \<not> blocked_frame fc | Some l \<Rightarrow> l \<le> sfc_limit fc)"

definition reported_ok :: "nat list \<Rightarrow> 'a sender_fc \<Rightarrow> bool" where
  "reported_ok ls fc \<longleftrightarrow> sorted_wrt (<) ls \<and>
     (case blocked_at fc of
        None \<Rightarrow> ls = []
      | Some b \<Rightarrow> (\<forall>l \<in> set ls. l \<le> b) \<and> (blocked_frame fc \<longrightarrow> (\<forall>l \<in> set ls. l < b)))"

lemma report_inv:
  assumes "report B fc ls f" "sfc_inv fc" "blocked_at fc = None"
  shows "sfc_inv f \<and> reported_ok ls f"
  using assms(1)
proof induction
  case nothing
  then show ?case using assms(2,3) by (simp add: reported_ok_def)
next
  case (raise_limit ls f limit r f')
  then show ?case
    by (auto simp: sfc_update_def Let_def sfc_inv_def reported_ok_def split: if_splits option.splits)
next
  case (consume ls f n f')
  then show ?case
    by (auto simp: sfc_consume_def sfc_inv_def reported_ok_def split: option.splits)
next
  case (block ls f)
  then show ?case
    by (force simp: sfc_blocked_def sfc_inv_def reported_ok_def split: option.splits)
next
  case (write_blocked ls f b ts f' b' new)
  then consider "new = []" "f' = f" | l where "blocked_needed f = Some l" "new = [l]" "f' = blocked_sent f"
    by (cases new) (auto simp: conn_sfc_write_frames_def sfc_write_def bind_res_Ok_iff split: option.splits if_splits)
  then show ?case
    using write_blocked.IH
    by cases (auto simp: blocked_needed_def blocked_sent_def sfc_inv_def reported_ok_def sorted_wrt_append
        split: option.splits if_splits)
qed

subsection \<open>Properties\<close>



text \<open>
  C27: The connection window is always renewed. Whenever the peer has used all of its credit and the application has read all of it, an update is
  pending; and writing it into any packet with nine bytes to spare succeeds, raises the limit, and appends
  exactly the \<open>MAX_DATA\<close> frame that announces it.
\<close>

theorem window_renewed:
  assumes "m \<le> MAX_VARINT" "(conn_step vec_buffer)\<^sup>*\<^sup>* (receiver_fc_new () m) fc"
    "rfc_retired fc = max_allowed fc" "0 < max_active fc" "max_allowed fc < MAX_VARINT"
    "vec.wf_builder b" "9 \<le> builder_remaining vec_buffer b"
  shows "frame_needed fc \<and>
    (\<exists>fc' b' limit. conn_rfc_write_frames vec_buffer fc b ts now rtt = Ok (fc', b', ts @ [Tok_Stream (SRT_MaxData limit)])
      \<and> max_allowed fc' = limit \<and> max_allowed fc < limit \<and> limit \<le> MAX_VARINT
      \<and> enc_as_ref vec_buffer (b_enc b') = enc_as_ref vec_buffer (b_enc b) @ frame_bytes (Frame_MaxData limit))"
proof -
  have inv: "rfc_inv fc"
    by (rule conn_credit.steps_inv [OF assms(2) rfc_inv_new [OF assms(1)]])
  then show ?thesis
    using rfc_inv_starved [OF inv assms(3,4,5)] conn_write_raises [OF inv assms(3-7)] unfolding vec.wrote_def by blast
qed

theorem window_renewed_witness:
  "frame_needed ((receiver_fc_new () 100)\<lparr>rfc_consumed := 100, rfc_retired := 100, frame_pending := True\<rparr>) \<and>
    (\<exists>fc' b' limit. conn_rfc_write_frames vec_buffer
        ((receiver_fc_new () 100)\<lparr>rfc_consumed := 100, rfc_retired := 100, frame_pending := True\<rparr>)
        (builder_new encoder_default 0 HP_MASK_SHORT 50) [] 7 5 = Ok (fc', b', [] @ [Tok_Stream (SRT_MaxData limit)])
      \<and> max_allowed fc' = limit
      \<and> max_allowed ((receiver_fc_new () 100)\<lparr>rfc_consumed := 100, rfc_retired := 100, frame_pending := True\<rparr>) < limit
      \<and> limit \<le> MAX_VARINT
      \<and> enc_as_ref vec_buffer (b_enc b')
          = enc_as_ref vec_buffer (b_enc (builder_new encoder_default 0 HP_MASK_SHORT 50)) @ frame_bytes (Frame_MaxData limit))"
proof (rule window_renewed [where m = 100])
  let ?f0 = "receiver_fc_new () 100"
  have "conn_step vec_buffer ?f0 (?f0\<lparr>rfc_consumed := 100\<rparr>)"
    by (rule conn_step.consume [of _ 100]) (simp_all add: conn_rfc_consume_def receiver_fc_new_def u64_add_def MAX_VARINT_def)
  moreover have "conn_step vec_buffer (?f0\<lparr>rfc_consumed := 100\<rparr>)
      (?f0\<lparr>rfc_consumed := 100, rfc_retired := 100, frame_pending := True\<rparr>)"
    by (rule conn_step.retire [of _ 100]) (simp_all add: rfc_add_retired_def receiver_fc_new_def u64_add_def u64_sub_def
        should_send_update_def WINDOW_UPDATE_FRACTION_def MAX_VARINT_def)
  ultimately show "(conn_step vec_buffer)\<^sup>*\<^sup>* ?f0 (?f0\<lparr>rfc_consumed := 100, rfc_retired := 100, frame_pending := True\<rparr>)"
    by (meson r_into_rtranclp rtranclp_trans)
qed (simp_all add: MAX_VARINT_def receiver_fc_new_def vec.wf_builder_def vec.wf_enc_def builder_new_def encoder_default_def
    builder_len_def builder_remaining_def enc_len_def)

text \<open>
  C29: A limit is reported once. Over any steps of the connection's sender without loss, the limits in the \<open>DATA_BLOCKED\<close> frames it writes are
  strictly increasing, none lies above the limit, and no more is consumed than the limit allows.
\<close>

theorem blocked_reported_once:
  assumes "report B (sender_fc_new () limit) ls fc"
  shows "sorted_wrt (<) ls \<and> list_all (\<lambda>l. l \<le> sfc_limit fc) ls \<and> sfc_used fc \<le> sfc_limit fc"
  using report_inv [OF assms]
  by (auto simp: sfc_inv_def reported_ok_def sender_fc_new_def list_all_iff split: option.splits intro: order_trans)

theorem blocked_reported_once_witness:
  "sorted_wrt (<) [5 :: nat] \<and> list_all (\<lambda>l. l \<le> sfc_limit (blocked_sent (sfc_blocked (sender_fc_new () 5)))) [5]
    \<and> sfc_used (blocked_sent (sfc_blocked (sender_fc_new () 5))) \<le> sfc_limit (blocked_sent (sfc_blocked (sender_fc_new () 5)))"
proof (rule blocked_reported_once [where B = vec_buffer and limit = 5])
  let ?f = "sfc_blocked (sender_fc_new () 5)" and ?b = "builder_new encoder_default 0 HP_MASK_SHORT 50"
  have wf: "vec.wf_builder ?b"
    by (simp add: vec.wf_builder_def vec.wf_enc_def builder_new_def encoder_default_def builder_len_def enc_len_def)
  obtain b' where "write_varint_frame vec_buffer ?b [frame_type_code FT_DataBlocked, 5] = Ok (True, b')"
    using vec.write_varint_frame_ok [OF wf, of "[frame_type_code FT_DataBlocked, 5]"]
    by (auto simp: builder_remaining_def builder_len_def builder_new_def encoder_default_def enc_len_def varint_size_def)
  then have "conn_sfc_write_frames vec_buffer ?f ?b [] = Ok (blocked_sent ?f, b', [] @ map (\<lambda>l. Tok_Stream (SRT_DataBlocked l)) [5])"
    by (simp add: conn_sfc_write_frames_def sfc_write_def blocked_needed_def sfc_blocked_def sender_fc_new_def)
  then show "report vec_buffer (sender_fc_new () 5) [5] (blocked_sent ?f)"
    using report.write_blocked [OF report.block [OF report.nothing], of vec_buffer "sender_fc_new () 5" ?b "[]" "blocked_sent ?f" b' "[5]"]
    by simp
qed


text \<open>
  The specification of a stream allocator: per type a counter; the next stream is the one with the number of the
  counter, counting with \<open>next\<close> from the first, as long as the counter is below the limit.
\<close>

definition spec_take ::
    "role \<Rightarrow> (stream_type \<Rightarrow> nat) \<Rightarrow> (stream_type \<Rightarrow> nat) \<Rightarrow> stream_type \<Rightarrow> stream_id option \<times> (stream_type \<Rightarrow> nat)" where
  "spec_take r limit used t =
     (if used t < limit t then (Some ((sid_next ^^ used t) (sid_init t r)), used(t := used t + 1)) else (None, used))"

text \<open>
  C28: \<open>LocalStreamLimits\<close> implements the allocator: on limits up to \<open>2^60\<close>, taking a stream number never panics, returns what the specification
  returns and moves the counters as it does, leaving the limits alone.
\<close>

theorem local_streams_refine:
  assumes "lsl_role_bit l = role_bit r"
    "\<And>t. sfc_used (lsl_limits l t) \<le> sfc_limit (lsl_limits l t)" "\<And>t. sfc_limit (lsl_limits l t) \<le> MAX_STREAMS_LIMIT"
  shows "\<exists>res l'. lsl_take_stream_id l t = Ok (res, l') \<and> lsl_role_bit l' = role_bit r
    \<and> spec_take r (\<lambda>t. sfc_limit (lsl_limits l t)) (\<lambda>t. sfc_used (lsl_limits l t)) t
        = (res, \<lambda>t. sfc_used (lsl_limits l' t))
    \<and> (\<forall>t. sfc_limit (lsl_limits l' t) = sfc_limit (lsl_limits l t))"
proof -
  let ?fc = "lsl_limits l t"
  have used: "sfc_used ?fc \<le> sfc_limit ?fc" "sfc_limit ?fc \<le> 2 ^ 60"
    using assms(2,3) by (simp_all add: MAX_STREAMS_LIMIT_def)
  then have av: "sfc_available ?fc = sfc_limit ?fc - sfc_used ?fc"
    by (simp add: sfc_available_def u64)
  show ?thesis
  proof (cases "sfc_used ?fc < sfc_limit ?fc")
    case True
    let ?n = "sfc_used ?fc"
    have n: "?n < 2 ^ 60" "u64_add ?n 1 = ?n + 1"
      using True used(2) by (simp_all add: u64)
    have "(sid_next ^^ ?n) (sid_init t r) = 4 * ?n + sid_init t r"
      using n(1) sid_init_less [of t r] by (intro sid_next_funpow) simp
    then have "push_bit 2 ?n + stream_type_bits t + lsl_role_bit l = (sid_next ^^ ?n) (sid_init t r)"
      using assms(1) by (simp add: sid_init_def push_bit_eq_mult)
    moreover have "sfc_consume ?fc 1 = Ok (?fc\<lparr>sfc_used := ?n + 1\<rparr>)"
      using True n(2) by (simp add: sfc_consume_def)
    ultimately show ?thesis
      using True av assms(1) by (auto simp: lsl_take_stream_id_def Let_def spec_take_def)
  next
    case False
    then show ?thesis
      using av assms(1) by (auto simp: lsl_take_stream_id_def Let_def spec_take_def sfc_blocked_def)
  qed
qed

theorem local_streams_refine_witness:
  "\<exists>res l'. lsl_take_stream_id
      ((local_stream_limits_new Server)\<lparr>lsl_limits := \<lambda>t. snd (sfc_update (sender_fc_new t 0) 5)\<rparr>) UniDi = Ok (res, l')
    \<and> lsl_role_bit l' = role_bit Server
    \<and> spec_take Server (\<lambda>_. 5) (\<lambda>_. 0) UniDi = (res, \<lambda>t. sfc_used (lsl_limits l' t))
    \<and> (\<forall>t. sfc_limit (lsl_limits l' t) = 5)"
  using local_streams_refine [of "(local_stream_limits_new Server)\<lparr>lsl_limits := \<lambda>t. snd (sfc_update (sender_fc_new t 0) 5)\<rparr>"
      Server UniDi]
  by (simp add: local_stream_limits_new_def sfc_update_def sender_fc_new_def MAX_STREAMS_LIMIT_def Let_def)

end
