(* ===== verification/Recv_Delivery.thy ===== *)
theory Recv_Delivery
  imports Recv_Stream Recv_Order Flow_Credit
begin

text \<open>
  Receive streams deliver what was sent and return all flow control credit. The peer sends the byte stream \<open>f i\<close> on the stream
  \<open>i\<close>, and when it ends, it has the length \<open>L i\<close>; frames carry any part of it, in any order and any number of times. The invariant of a stream relates its reassembly buffer
  to its flow controller, and the credit that the connection has lent out is the sum of what its streams hold.
\<close>

subsection \<open>Credit that is held\<close>

definition fc_ok :: "'a receiver_fc \<Rightarrow> bool" where
  "fc_ok fc \<longleftrightarrow> rfc_retired fc \<le> rfc_consumed fc \<and> rfc_consumed fc < 2 ^ 62"

definition session_ok :: "session_fc \<Rightarrow> bool" where
  "session_ok sfc \<longleftrightarrow> fc_ok sfc \<and> max_allowed sfc < 2 ^ 62"

definition rfc_held :: "'a receiver_fc \<Rightarrow> nat" where
  "rfc_held fc = rfc_consumed fc - rfc_retired fc"

definition held :: "recv_state \<Rightarrow> nat" where
  "held st =
     (case st of
        RS_Recv fc _ \<Rightarrow> rfc_held fc | RS_SizeKnown fc _ \<Rightarrow> rfc_held fc | RS_SizeKnownAt fc _ _ _ _ \<Rightarrow> rfc_held fc
      | RS_DataRecvd fc _ \<Rightarrow> rfc_held fc | RS_AbortReading fc _ _ _ _ _ \<Rightarrow> rfc_held fc | RS_WaitForReset fc _ _ \<Rightarrow> rfc_held fc
      | RS_DataRead _ _ \<Rightarrow> 0 | RS_ResetRecvd _ _ \<Rightarrow> 0)"

definition buffer_ok :: "(nat \<Rightarrow> u8) \<Rightarrow> stream_fc \<Rightarrow> rx_orderer \<Rightarrow> bool" where
  "buffer_ok f fc b \<longleftrightarrow> fc_ok fc \<and> rx_ok f b \<and> arrived b \<subseteq> {..<rfc_consumed fc} \<and> rx_retired b = rfc_retired fc"

definition reliable_ok :: "(nat \<Rightarrow> u8) \<Rightarrow> stream_fc \<Rightarrow> rx_orderer \<Rightarrow> nat \<Rightarrow> nat \<Rightarrow> bool" where
  "reliable_ok f fc b final_size reliable_size \<longleftrightarrow> fc_ok fc \<and> rx_ok f b \<and> arrived b \<subseteq> {..<reliable_size}
     \<and> rfc_consumed fc = final_size \<and> reliable_size \<le> final_size \<and> rx_retired b < reliable_size
     \<and> rfc_retired fc + (reliable_size - rx_retired b) = final_size"

definition released :: "stream_fc \<Rightarrow> bool" where
  "released fc \<longleftrightarrow> fc_ok fc \<and> rfc_retired fc = rfc_consumed fc"

definition state_ok :: "(nat \<Rightarrow> u8) \<Rightarrow> nat \<Rightarrow> recv_state \<Rightarrow> bool" where
  "state_ok f L st =
     (case st of
        RS_Recv fc b \<Rightarrow> buffer_ok f fc b
      | RS_SizeKnown fc b \<Rightarrow> buffer_ok f fc b \<and> rfc_consumed fc = L
      | RS_SizeKnownAt fc b _ fs rs \<Rightarrow> reliable_ok f fc b fs rs
      | RS_DataRecvd fc b \<Rightarrow> buffer_ok f fc b \<and> rfc_consumed fc = L \<and> {..<L} \<subseteq> arrived b
      | RS_AbortReading fc _ _ _ _ _ \<Rightarrow> released fc
      | RS_WaitForReset fc _ _ \<Rightarrow> released fc
      | RS_DataRead _ _ \<Rightarrow> True
      | RS_ResetRecvd _ _ \<Rightarrow> True)"

text \<open>A stream that may act on the flow controller of the connection, and what an operation on both keeps.\<close>

definition fits :: "(nat \<Rightarrow> u8) \<Rightarrow> nat \<Rightarrow> recv_stream \<Rightarrow> session_fc \<Rightarrow> bool" where
  "fits f L s sfc \<longleftrightarrow> state_ok f L (rs_state s) \<and> session_ok sfc \<and> held (rs_state s) \<le> rfc_held sfc"

definition balanced :: "(nat \<Rightarrow> u8) \<Rightarrow> nat \<Rightarrow> recv_stream \<Rightarrow> session_fc \<Rightarrow> recv_stream \<Rightarrow> session_fc \<Rightarrow> bool" where
  "balanced f L s sfc s' sfc' \<longleftrightarrow> state_ok f L (rs_state s') \<and> session_ok sfc' \<and> rs_id s' = rs_id s
     \<and> rfc_held sfc' + held (rs_state s) = rfc_held sfc + held (rs_state s')"

lemma add_retired_ok:
  assumes "fc_ok fc" "n \<le> rfc_held fc"
  obtains fc' where "rfc_add_retired fc n = Ok fc'" "rfc_retired fc' = rfc_retired fc + n" "rfc_consumed fc' = rfc_consumed fc"
    "max_allowed fc' = max_allowed fc" "rfc_subject fc' = rfc_subject fc"
proof -
  have "rfc_retired fc + n \<le> rfc_consumed fc" "rfc_retired fc + n < 2 ^ 64"
    using assms by (auto simp: fc_ok_def rfc_held_def)
  then show ?thesis
    using that by (simp add: rfc_add_retired_def u64_add_eq Let_def)
qed

lemma retire_data_ok:
  assumes "fc_ok fc" "fc_ok sfc" "n \<le> rfc_held fc" "n \<le> rfc_held sfc"
  obtains fc' sfc' where "flow_control_retire_data n fc sfc = Ok (fc', sfc')" "rfc_retired fc' = rfc_retired fc + n"
    "rfc_consumed fc' = rfc_consumed fc" "max_allowed sfc' = max_allowed sfc"
    "rfc_retired sfc' = rfc_retired sfc + n" "rfc_consumed sfc' = rfc_consumed sfc"
proof (cases "0 < n")
  case True
  obtain fc' where "rfc_add_retired fc n = Ok fc'" "rfc_retired fc' = rfc_retired fc + n" "rfc_consumed fc' = rfc_consumed fc"
    using add_retired_ok [OF assms(1,3)] by metis
  moreover obtain sfc' where "rfc_add_retired sfc n = Ok sfc'" "rfc_retired sfc' = rfc_retired sfc + n"
      "rfc_consumed sfc' = rfc_consumed sfc" "max_allowed sfc' = max_allowed sfc"
    using add_retired_ok [OF assms(2,4)] by metis
  ultimately show ?thesis
    using that True by (simp add: flow_control_retire_data_def)
next
  case False
  then show ?thesis
    using that by (simp add: flow_control_retire_data_def)
qed

lemma u64_held: "fc_ok fc \<Longrightarrow> u64_sub (rfc_consumed fc) (rfc_retired fc) = rfc_held fc"
  by (simp add: fc_ok_def rfc_held_def u64_sub_eq)

lemma release_ok:
  assumes "fc_ok fc" "session_ok sfc" "rfc_held fc \<le> rfc_held sfc"
  obtains fc' sfc' where "flow_control_retire_data (rfc_held fc) fc sfc = Ok (fc', sfc')" "released fc'"
    "rfc_consumed fc' = rfc_consumed fc" "session_ok sfc'" "rfc_held sfc' + rfc_held fc = rfc_held sfc"
proof -
  have s: "fc_ok sfc"
    using assms(2) by (simp add: session_ok_def)
  obtain fc' sfc' where r: "flow_control_retire_data (rfc_held fc) fc sfc = Ok (fc', sfc')"
      "rfc_retired fc' = rfc_retired fc + rfc_held fc" "rfc_consumed fc' = rfc_consumed fc"
      "rfc_retired sfc' = rfc_retired sfc + rfc_held fc" "rfc_consumed sfc' = rfc_consumed sfc" "max_allowed sfc' = max_allowed sfc"
    using retire_data_ok [OF assms(1) s order.refl assms(3)] by metis
  show ?thesis
  proof (rule that [OF r(1)])
    show "released fc'" "session_ok sfc'" "rfc_held sfc' + rfc_held fc = rfc_held sfc"
      using r assms by (auto simp: released_def session_ok_def fc_ok_def rfc_held_def)
  qed (rule r(3))
qed

subsection \<open>Consuming credit\<close>

text \<open>What \<open>consume_data\<close> does when it succeeds: the stream and the connection take the same new bytes.\<close>

definition consumes :: "stream_fc \<Rightarrow> session_fc \<Rightarrow> nat \<Rightarrow> stream_fc \<Rightarrow> session_fc \<Rightarrow> bool" where
  "consumes fc sfc n fc' sfc' \<longleftrightarrow> fc_ok fc' \<and> session_ok sfc' \<and> rfc_consumed fc' = max (rfc_consumed fc) n
     \<and> rfc_held sfc' + rfc_held fc = rfc_held sfc + rfc_held fc'"

lemma consume_steps:
  assumes "fc_ok fc" "session_ok sfc" "n < 2 ^ 62"
  shows "(\<exists>e. set_consumed fc n = Err e)
    \<or> (\<exists>k fc1. set_consumed fc n = Ok (k, fc1) \<and> rfc_retired fc1 = rfc_retired fc
         \<and> ((\<exists>e. conn_rfc_consume sfc k = Err e) \<or> (\<exists>sfc1. conn_rfc_consume sfc k = Ok sfc1 \<and> consumes fc sfc n fc1 sfc1)))"
proof (cases "n \<le> rfc_consumed fc")
  case True
  then show ?thesis
    using assms by (auto simp: set_consumed_def conn_rfc_consume_def consumes_def session_ok_def fc_ok_def u64_add_eq rfc_held_def)
next
  case False
  define k where "k = n - rfc_consumed fc"
  have n: "n = rfc_consumed fc + k" "k < 2 ^ 62"
    using False assms(3) by (simp_all add: k_def)
  have "u64_add (rfc_consumed sfc) k = rfc_consumed sfc + k"
    using assms n by (intro u64_add_eq) (simp add: session_ok_def fc_ok_def)
  then show ?thesis
    using assms n by (auto simp: set_consumed_def conn_rfc_consume_def consumes_def session_ok_def fc_ok_def rfc_held_def)
qed

lemma consume_data_cases:
  assumes "fc_ok fc" "session_ok sfc" "n < 2 ^ 62"
  obtains e where "consume_data fc sfc reached retire_data n fin = Err e"
  | fc1 sfc1 where
      "consume_data fc sfc reached retire_data n fin
        = (if retire_data then flow_control_retire_data (rfc_held fc1) fc1 sfc1 else Ok (fc1, sfc1))"
      "consumes fc sfc n fc1 sfc1" "rfc_retired fc1 = rfc_retired fc" "fin \<longrightarrow> rfc_consumed fc1 = n"
      "reached \<longrightarrow> rfc_consumed fc1 = rfc_consumed fc"
proof -
  define ok where "ok = (if fin \<and> reached then n = rfc_consumed fc else if reached then n \<le> rfc_consumed fc
      else if fin then rfc_consumed fc \<le> n else True)"
  have ok: "ok \<Longrightarrow> (fin \<longrightarrow> max (rfc_consumed fc) n = n) \<and> (reached \<longrightarrow> max (rfc_consumed fc) n = rfc_consumed fc)"
    by (auto simp: ok_def split: if_splits)
  have eq: "consume_data fc sfc reached retire_data n fin = (if \<not> ok then Err FinalSize else
      bind_res (set_consumed fc n) (\<lambda>(k, fc1). bind_res (conn_rfc_consume sfc k) (\<lambda>sfc1.
        if retire_data then flow_control_retire_data (u64_sub (rfc_consumed fc1) (rfc_retired fc1)) fc1 sfc1
        else Ok (fc1, sfc1))))"
    by (simp only: consume_data_def ok_def Let_def)
  consider "\<not> ok" | e where ok "set_consumed fc n = Err e"
    | k fc1 e where ok "set_consumed fc n = Ok (k, fc1)" "conn_rfc_consume sfc k = Err e"
    | k fc1 sfc1 where ok "set_consumed fc n = Ok (k, fc1)" "rfc_retired fc1 = rfc_retired fc" "conn_rfc_consume sfc k = Ok sfc1"
        "consumes fc sfc n fc1 sfc1"
    using consume_steps [OF assms] by blast
  then show ?thesis
  proof cases
    case (4 k fc1 sfc1)
    then have "fc_ok fc1"
      by (simp add: consumes_def)
    then have "u64_sub (rfc_consumed fc1) (rfc_retired fc1) = rfc_held fc1"
      by (rule u64_held)
    then show ?thesis
      using 4 ok by (intro that(2) [of fc1 sfc1]) (auto simp: eq consumes_def)
  qed (use eq that(1) in auto)
qed

lemma consume_released_cases:
  assumes "released fc" "session_ok sfc" "n < 2 ^ 62"
  obtains e where "consume_data fc sfc reached True n fin = Err e"
  | fc' sfc' where "consume_data fc sfc reached True n fin = Ok (fc', sfc')" "released fc'" "session_ok sfc'"
      "rfc_held sfc' = rfc_held sfc" "n \<le> rfc_consumed fc'" "fin \<longrightarrow> rfc_consumed fc' = n"
proof -
  have fc: "fc_ok fc" "rfc_held fc = 0"
    using assms(1) by (auto simp: released_def rfc_held_def)
  show ?thesis
  proof (cases rule: consume_data_cases [OF fc(1) assms(2,3), of reached True fin])
    case (2 fc1 sfc1)
    then have "fc_ok fc1" "session_ok sfc1" "rfc_held fc1 \<le> rfc_held sfc1" "rfc_held sfc1 = rfc_held sfc + rfc_held fc1"
        "n \<le> rfc_consumed fc1"
      using fc(2) by (simp_all add: consumes_def)
    then show ?thesis
      using 2 that(2) by (elim release_ok [of fc1 sfc1]) auto
  qed (rule that(1))
qed

definition fc_of :: "recv_state \<Rightarrow> stream_fc option" where
  "fc_of st =
     (case st of
        RS_Recv fc _ \<Rightarrow> Some fc | RS_SizeKnown fc _ \<Rightarrow> Some fc | RS_SizeKnownAt fc _ _ _ _ \<Rightarrow> Some fc
      | RS_DataRecvd fc _ \<Rightarrow> Some fc | RS_AbortReading fc _ _ _ _ _ \<Rightarrow> Some fc | RS_WaitForReset fc _ _ \<Rightarrow> Some fc
      | _ \<Rightarrow> None)"

text \<open>The state after \<open>flow_control_consume_data\<close>: the same, but for its flow controller.\<close>

definition took :: "recv_state \<Rightarrow> nat \<Rightarrow> bool \<Rightarrow> recv_state \<Rightarrow> bool" where
  "took st n fin st' \<longleftrightarrow> state_tag st' = state_tag st \<and> recv_buf st' = recv_buf st
     \<and> (case fc_of st' of None \<Rightarrow> st' = st | Some fc \<Rightarrow> n \<le> rfc_consumed fc \<and> (fin \<longrightarrow> rfc_consumed fc = n))"

lemmas state_simps = state_ok_def held_def fc_of_def state_tag_def recv_buf_def rs_stats_def

definition delivered :: "recv_stream \<Rightarrow> nat" where
  "delivered s = snd (rs_stats s)"

lemma balanced_refl: "fits f L s sfc \<Longrightarrow> balanced f L s sfc s sfc"
  by (simp add: fits_def balanced_def)

lemma balanced_fits: "fits f L s sfc \<Longrightarrow> balanced f L s sfc s' sfc' \<Longrightarrow> fits f L s' sfc'"
  by (simp add: fits_def balanced_def)

lemma balanced_trans: "balanced f L s sfc s' sfc' \<Longrightarrow> balanced f L s' sfc' s'' sfc'' \<Longrightarrow> balanced f L s sfc s'' sfc''"
  by (simp add: balanced_def)

lemma consume_state_ok:
  assumes "fits f L s sfc" "n < 2 ^ 62"
  shows "(\<exists>e. flow_control_consume_data (rs_state s) sfc n fin = Err e)
    \<or> (\<exists>st' sfc'. flow_control_consume_data (rs_state s) sfc n fin = Ok (st', sfc') \<and> took (rs_state s) n fin st'
         \<and> balanced f L s sfc (s\<lparr>rs_state := st'\<rparr>) sfc' \<and> delivered (s\<lparr>rs_state := st'\<rparr>) = delivered s)"
proof -
  have sfc: "session_ok sfc" and ok: "state_ok f L (rs_state s)"
    using assms(1) by (simp_all add: fits_def)
  show ?thesis
  proof (cases "rs_state s")
    case (RS_Recv fc b)
    then have "fc_ok fc"
      using ok by (simp add: state_ok_def buffer_ok_def)
    then show ?thesis
      by (cases rule: consume_data_cases [OF _ sfc assms(2), of fc False False fin])
        (use RS_Recv ok in \<open>auto simp: flow_control_consume_data_def took_def delivered_def balanced_def consumes_def state_simps buffer_ok_def\<close>)
  next
    case (RS_SizeKnown fc b)
    then have "fc_ok fc"
      using ok by (simp add: state_ok_def buffer_ok_def)
    then show ?thesis
      by (cases rule: consume_data_cases [OF _ sfc assms(2), of fc True False fin])
        (use RS_SizeKnown ok in \<open>auto simp: flow_control_consume_data_def took_def delivered_def balanced_def consumes_def state_simps buffer_ok_def\<close>)
  next
    case (RS_SizeKnownAt fc b e fs rs)
    then have "fc_ok fc"
      using ok by (simp add: state_ok_def reliable_ok_def)
    then show ?thesis
      by (cases rule: consume_data_cases [OF _ sfc assms(2), of fc True False fin])
        (use RS_SizeKnownAt ok in \<open>auto simp: flow_control_consume_data_def took_def delivered_def balanced_def consumes_def state_simps reliable_ok_def\<close>)
  next
    case (RS_DataRecvd fc b)
    then have "fc_ok fc"
      using ok by (simp add: state_ok_def buffer_ok_def)
    then show ?thesis
      by (cases rule: consume_data_cases [OF _ sfc assms(2), of fc True False fin])
        (use RS_DataRecvd ok in \<open>auto simp: flow_control_consume_data_def took_def delivered_def balanced_def consumes_def state_simps buffer_ok_def\<close>)
  next
    case (RS_AbortReading fc reached needed e r d)
    then have "released fc"
      using ok by (simp add: state_ok_def released_def rfc_held_def)
    then show ?thesis
      by (cases rule: consume_released_cases [OF _ sfc assms(2), of fc reached fin])
        (use RS_AbortReading ok in \<open>auto simp: flow_control_consume_data_def took_def delivered_def balanced_def consumes_def state_simps released_def rfc_held_def\<close>)
  next
    case (RS_WaitForReset fc r d)
    then have "released fc"
      using ok by (simp add: state_ok_def released_def rfc_held_def)
    then show ?thesis
      by (cases rule: consume_released_cases [OF _ sfc assms(2), of fc False fin])
        (use RS_WaitForReset ok in \<open>auto simp: flow_control_consume_data_def took_def delivered_def balanced_def consumes_def state_simps released_def rfc_held_def\<close>)
  qed (use assms in \<open>auto simp: flow_control_consume_data_def fits_def took_def delivered_def balanced_def state_simps\<close>)
qed

subsection \<open>Resets\<close>

text \<open>An operation that changes a stream and returns a value does not panic, and what it takes or returns is accounted for.\<close>

definition sound :: "(nat \<Rightarrow> u8) \<Rightarrow> nat \<Rightarrow> recv_stream \<Rightarrow> session_fc \<Rightarrow> ('x \<Rightarrow> recv_stream \<Rightarrow> bool)
    \<Rightarrow> ('x \<times> recv_stream \<times> session_fc \<times> ('t, 'a) events) res \<Rightarrow> bool" where
  "sound f L s sfc P r \<longleftrightarrow> (\<exists>e. r = Err e) \<or> (\<exists>x s' sfc' q'. r = Ok (x, s', sfc', q') \<and> balanced f L s sfc s' sfc' \<and> P x s')"

lemma sound_trans:
  "balanced f L s sfc s1 sfc1 \<Longrightarrow> sound f L s1 sfc1 P r \<Longrightarrow> sound f L s sfc P r"
  unfolding sound_def by (blast intro: balanced_trans)

lemma set_state_ok:
  assumes "state_tag (rs_state s) \<noteq> state_tag st"
  obtains s' q' where "set_state s q st = Ok (s', q')" "rs_state s' = st" "rs_id s' = rs_id s"
  using assms by (cases st) (auto simp: set_state_def assert_res_def)

text \<open>Nothing is delivered, and the value tells whether the stream ended.\<close>

definition quiet :: "recv_stream \<Rightarrow> bool \<Rightarrow> recv_stream \<Rightarrow> bool" where
  "quiet s ended s' \<longleftrightarrow> (ended \<longrightarrow> is_ended s') \<and> delivered s' = delivered s"

lemma quiet_trans: "delivered s1 = delivered s \<Longrightarrow> quiet s1 = quiet s"
  by (simp add: quiet_def fun_eq_iff)

lemma finish_reset_ok:
  assumes fc: "fc_of (rs_state s) = Some fc" "state_tag (rs_state s) \<in> {2, 5, 6}"
    and ok: "fc_ok fc" "rfc_consumed fc = fs" "session_ok sfc" "rfc_held fc \<le> rfc_held sfc"
    and d: "d = delivered s"
  shows "sound f L s sfc (quiet s) (finish_reset s sfc q fs e r d)"
proof -
  have "u64_sub fs (rfc_retired fc) = rfc_held fc"
    using ok u64_held by auto
  moreover obtain fc' sfc' where r: "flow_control_retire_data (rfc_held fc) fc sfc = Ok (fc', sfc')" "session_ok sfc'"
      "rfc_held sfc' + rfc_held fc = rfc_held sfc"
    using release_ok [OF ok(1,3,4)] by metis
  moreover have "state_tag (rs_state s) \<noteq> state_tag (RS_ResetRecvd r d)"
    using fc(2) by (auto simp: state_tag_def)
  then obtain s' q' where s': "set_state s (recv_stream_reset q (rs_id s) e) (RS_ResetRecvd r d) = Ok (s', q')"
      "rs_state s' = RS_ResetRecvd r d" "rs_id s' = rs_id s"
    by (rule set_state_ok)
  ultimately have "finish_reset s sfc q fs e r d = Ok (True, s', sfc', q')"
    using fc by (cases "rs_state s") (simp_all add: finish_reset_def state_tag_def fc_of_def)
  moreover have "held (rs_state s) = rfc_held fc"
    using fc by (cases "rs_state s") (simp_all add: held_def fc_of_def)
  moreover have "state_ok f L (rs_state s')" "held (rs_state s') = 0" "is_ended s'" "delivered s' = d"
    using s'(2) by (simp_all add: state_ok_def held_def is_ended_def delivered_def rs_stats_def)
  ultimately show ?thesis
    using r(2,3) s'(3) d by (auto simp: sound_def balanced_def quiet_def)
qed

lemma retire_undeliverable_ok:
  assumes "fc_ok fc" "rfc_consumed fc = fs" "session_ok sfc" "rfc_held fc \<le> rfc_held sfc" "rs \<le> fs"
    "rfc_retired fc \<le> fs - (rs - n)"
  obtains fc' sfc' where "retire_undeliverable fs rs n fc sfc = Ok (fc', sfc')" "fc_ok fc'" "rfc_consumed fc' = fs"
    "rfc_retired fc' = fs - (rs - n)" "session_ok sfc'" "rfc_held sfc' + rfc_held fc = rfc_held sfc + rfc_held fc'"
proof -
  define k where "k = fs - (rs - n) - rfc_retired fc"
  have s: "fc_ok sfc" "k \<le> rfc_held fc" "k \<le> rfc_held sfc"
    using assms by (auto simp: session_ok_def k_def rfc_held_def)
  have u: "u64_sub fs (rs - n) = fs - (rs - n)"
    using assms by (intro u64_sub_eq) (auto simp: fc_ok_def)
  obtain fc' sfc' where "flow_control_retire_data k fc sfc = Ok (fc', sfc')" "rfc_retired fc' = rfc_retired fc + k"
      "rfc_consumed fc' = rfc_consumed fc" "rfc_retired sfc' = rfc_retired sfc + k" "rfc_consumed sfc' = rfc_consumed sfc"
      "max_allowed sfc' = max_allowed sfc"
    using retire_data_ok [OF assms(1) s(1,2,3)] by metis
  moreover from this have "fc_ok fc'" "session_ok sfc'" "rfc_held sfc' + rfc_held fc = rfc_held sfc + rfc_held fc'"
    using assms s by (auto simp: fc_ok_def session_ok_def rfc_held_def)
  moreover have "rfc_retired fc + k = fs - (rs - n)"
    using assms by (simp add: k_def)
  moreover have "retire_undeliverable fs rs n fc sfc = flow_control_retire_data k fc sfc"
    by (simp only: retire_undeliverable_def Let_def u k_def)
  ultimately show ?thesis
    using assms by (intro that [of fc' sfc']) simp_all
qed

lemma discard_after_retired [simp]: "rx_retired (discard_after b k) = rx_retired b"
  by (simp add: discard_after_def Let_def split: option.split)

text \<open>The end of \<open>reset\<close> and \<open>read\<close>: the credit of all but the rest of the reliable part has been returned.\<close>

lemma complete_ok:
  assumes st: "rs_state s = RS_SizeKnownAt fc b e fs rs"
    and ok: "fc_ok fc" "rfc_consumed fc = fs" "rfc_retired fc = fs - (rs - rx_retired b)" "session_ok sfc"
      "rfc_held fc \<le> rfc_held sfc" "rs \<le> fs"
    and b: "rx_retired b < rs \<Longrightarrow> rx_ok f b \<and> arrived b \<subseteq> {..<rs}"
  shows "sound f L s sfc (quiet s) (complete_reliable_reset_if_drained s sfc q)"
proof (cases "rx_retired b < rs")
  case True
  have "reliable_ok f fc b fs rs"
    using ok b [OF True] True by (auto simp: reliable_ok_def)
  then show ?thesis
    using st ok True by (auto simp: complete_reliable_reset_if_drained_def sound_def balanced_def state_ok_def quiet_def)
next
  case False
  have "sound f L s sfc (quiet s) (finish_reset s sfc q fs e r (rx_retired b))" for r
    using st ok by (intro finish_reset_ok [of s fc]) (auto simp: fc_of_def state_tag_def delivered_def rs_stats_def)
  then show ?thesis
    using st False by (simp add: complete_reliable_reset_if_drained_def)
qed

text \<open>Returning the credit of the tail is balanced, and the state that results may be completed.\<close>

lemma discard_ok:
  assumes fc: "fc_of (rs_state s) = Some fc" "fc_ok fc" "rfc_consumed fc = fs" "rfc_retired fc \<le> fs - (rs - rx_retired b)"
    and ok: "session_ok sfc" "rfc_held fc \<le> rfc_held sfc" "rs \<le> fs" "rx_ok f b" "delivered s = rx_retired b"
    and next_state: "\<And>fc' sfc'. fc_ok fc' \<Longrightarrow> \<exists>s' q'. F fc' sfc' = complete_reliable_reset_if_drained s' sfc' q'
      \<and> rs_state s' = RS_SizeKnownAt fc' (discard_after b rs) e fs rs \<and> rs_id s' = rs_id s"
  shows "sound f L s sfc (quiet s) (bind_res (retire_undeliverable fs rs (rx_retired (discard_after b rs)) fc sfc) (\<lambda>(fc', sfc'). F fc' sfc'))"
proof -
  obtain fc' sfc' where r: "retire_undeliverable fs rs (rx_retired b) fc sfc = Ok (fc', sfc')" "fc_ok fc'" "rfc_consumed fc' = fs"
      "rfc_retired fc' = fs - (rs - rx_retired b)" "session_ok sfc'" "rfc_held sfc' + rfc_held fc = rfc_held sfc + rfc_held fc'"
    using retire_undeliverable_ok [OF fc(2,3) ok(1,2,3) fc(4)] by metis
  obtain s' q' where s': "F fc' sfc' = complete_reliable_reset_if_drained s' sfc' q'"
      "rs_state s' = RS_SizeKnownAt fc' (discard_after b rs) e fs rs" "rs_id s' = rs_id s"
    using next_state [OF r(2)] by metis
  have "sound f L s' sfc' (quiet s') (complete_reliable_reset_if_drained s' sfc' q')"
    by (rule complete_ok [OF s'(2) r(2,3) _ r(5) _ ok(3)]) (use r(4,6) ok(2) discard_after_ok [OF ok(4)] in auto)
  moreover have "held (rs_state s) = rfc_held fc" "held (rs_state s') = rfc_held fc'"
    using fc s'(2) by (cases "rs_state s"; simp add: held_def fc_of_def)+
  moreover have "delivered s' = delivered s"
    using s'(2) ok by (simp add: delivered_def rs_stats_def)
  ultimately show ?thesis
    using r(1,6) s' by (auto simp: sound_def balanced_def quiet_def)
qed

lemma start_reset_ok:
  assumes st: "fc_of (rs_state s) = Some fc" "recv_buf (rs_state s) = Some b" "state_tag (rs_state s) \<noteq> 2"
    and ok: "buffer_ok f fc b" "rfc_consumed fc = fs" "session_ok sfc" "rfc_held fc \<le> rfc_held sfc" "rs \<le> fs"
  shows "sound f L s sfc (quiet s) (start_reset s sfc q fc b e fs rs)"
  unfolding start_reset_def Let_def
proof (rule discard_ok [OF st(1) _ ok(2) _ ok(3,4,5)])
  show "fc_ok fc" "rx_ok f b" "rfc_retired fc \<le> fs - (rs - rx_retired b)"
    using ok by (auto simp: buffer_ok_def fc_ok_def)
  show "delivered s = rx_retired b"
    using st(1,2) by (cases "rs_state s") (simp_all add: recv_buf_def fc_of_def delivered_def rs_stats_def)
  fix fc' sfc'
  have "state_tag (rs_state s) \<noteq> state_tag (RS_SizeKnownAt fc' (discard_after b rs) e fs rs)"
    using st(3) by (simp add: state_tag_def [of "RS_SizeKnownAt _ _ _ _ _"])
  then obtain s' q' where "set_state s q (RS_SizeKnownAt fc' (discard_after b rs) e fs rs) = Ok (s', q')"
      "rs_state s' = RS_SizeKnownAt fc' (discard_after b rs) e fs rs" "rs_id s' = rs_id s"
    by (rule set_state_ok)
  then show "\<exists>s' q'. bind_res (set_state s q (RS_SizeKnownAt fc' (discard_after b rs) e fs rs))
        (\<lambda>(s', q'). complete_reliable_reset_if_drained s' sfc' q') = complete_reliable_reset_if_drained s' sfc' q'
      \<and> rs_state s' = RS_SizeKnownAt fc' (discard_after b rs) e fs rs \<and> rs_id s' = rs_id s"
    by auto
qed

lemma sound_Ok: "fits f L s sfc \<Longrightarrow> sound f L s sfc (quiet s) (Ok (False, s, sfc, q))"
  by (auto simp: sound_def quiet_def balanced_refl)

lemma reset_state_ok:
  assumes fit: "fits f L s sfc" and fs: "\<And>fc. fc_of (rs_state s) = Some fc \<Longrightarrow> rfc_consumed fc = fs" and rs: "rs \<le> fs"
  shows "sound f L s sfc (quiet s) (reset_state s sfc q err fs rs)"
proof -
  have ok: "state_ok f L (rs_state s)" "session_ok sfc" "held (rs_state s) \<le> rfc_held sfc"
    using fit by (simp_all add: fits_def)
  show ?thesis
  proof (cases "rs_state s")
    case (RS_Recv fc b)
    then show ?thesis
      using ok rs fs by (simp add: reset_state_def, intro start_reset_ok) (auto simp: state_simps)
  next
    case (RS_SizeKnown fc b)
    then show ?thesis
      using ok rs fs by (simp add: reset_state_def, intro start_reset_ok) (auto simp: state_simps)
  next
    case (RS_SizeKnownAt fc b e fs' stored)
    then have r: "reliable_ok f fc b fs' stored" "rfc_held fc \<le> rfc_held sfc" "fc_of (rs_state s) = Some fc"
        "delivered s = rx_retired b"
      using ok by (simp_all add: state_simps delivered_def)
    have "sound f L s sfc (quiet s) (bind_res (retire_undeliverable fs' rs (rx_retired (discard_after b rs)) fc sfc)
        (\<lambda>(fc', sfc'). complete_reliable_reset_if_drained (s\<lparr>rs_state := RS_SizeKnownAt fc' (discard_after b rs) e fs' rs\<rparr>) sfc' q))"
      if "rs < stored"
      using r ok(2) that by (intro discard_ok [where e = e]) (auto simp: reliable_ok_def)
    then show ?thesis
      using RS_SizeKnownAt sound_Ok [OF fit] by (simp add: reset_state_def Let_def) (simp add: sound_def)
  next
    case (RS_AbortReading fc x1 x2 x3 r d)
    then show ?thesis
      using fs ok by (simp add: reset_state_def, intro finish_reset_ok) (auto simp: state_simps released_def delivered_def)
  next
    case (RS_WaitForReset fc r d)
    then show ?thesis
      using fs ok by (simp add: reset_state_def, intro finish_reset_ok) (auto simp: state_simps released_def delivered_def)
  qed (simp_all add: reset_state_def sound_Ok [OF fit])
qed

lemma rs_reset_ok:
  assumes fit: "fits f L s sfc" and fs: "fs < 2 ^ 62"
  shows "sound f L s sfc (quiet s) (rs_reset s sfc q err fs rs)"
proof (cases "fs < rs")
  case False
  show ?thesis
    using consume_state_ok [OF fit fs, of True]
  proof (elim disjE exE conjE)
    fix st' sfc'
    assume st': "flow_control_consume_data (rs_state s) sfc fs True = Ok (st', sfc')" "took (rs_state s) fs True st'"
      and b: "balanced f L s sfc (s\<lparr>rs_state := st'\<rparr>) sfc'" and d: "delivered (s\<lparr>rs_state := st'\<rparr>) = delivered s"
    have "sound f L (s\<lparr>rs_state := st'\<rparr>) sfc' (quiet (s\<lparr>rs_state := st'\<rparr>)) (reset_state (s\<lparr>rs_state := st'\<rparr>) sfc' q err fs rs)"
      using st'(2) False by (intro reset_state_ok balanced_fits [OF fit b]) (auto simp: took_def)
    from sound_trans [OF b this] show ?thesis
      using st'(1) False by (simp add: rs_reset_def quiet_trans [OF d])
  qed (simp add: rs_reset_def False sound_def)
qed (simp add: rs_reset_def sound_def)

lemma abort_reading_ok:
  assumes "fc_of (rs_state s) = Some fc" "recv_buf (rs_state s) = Some b" "state_tag (rs_state s) \<noteq> 5"
    and ok: "fc_ok fc" "session_ok sfc" "rfc_held fc \<le> rfc_held sfc"
  shows "sound f L s sfc (quiet s) (abort_reading s sfc q fc b known err)"
proof -
  obtain fc' sfc' where r: "flow_control_retire_data (rfc_held fc) fc sfc = Ok (fc', sfc')" "released fc'" "session_ok sfc'"
      "rfc_held sfc' + rfc_held fc = rfc_held sfc"
    using release_ok [OF ok] by metis
  define st where "st = RS_AbortReading fc' known True err (rx_received b) (rx_retired b)"
  have "state_tag (rs_state s) \<noteq> state_tag st"
    using assms(3) by (simp add: st_def state_tag_def [of "RS_AbortReading _ _ _ _ _ _"])
  then obtain s' q' where s': "set_state s q st = Ok (s', q')" "rs_state s' = st" "rs_id s' = rs_id s"
    by (rule set_state_ok)
  have "held (rs_state s) = rfc_held fc" "delivered s = rx_retired b"
    using assms(1,2) by (cases "rs_state s"; simp add: held_def fc_of_def recv_buf_def delivered_def rs_stats_def)+
  moreover have "state_ok f L (rs_state s')" "held (rs_state s') = 0" "delivered s' = rx_retired b"
    using s'(2) r(2) by (simp_all add: st_def state_ok_def held_def released_def rfc_held_def delivered_def rs_stats_def)
  moreover have "abort_reading s sfc q fc b known err = Ok (False, s', sfc', q')"
    using r(1) s'(1) ok(1) by (simp add: abort_reading_def u64_held st_def)
  ultimately show ?thesis
    using r(3,4) s'(3) by (auto simp: sound_def balanced_def quiet_def)
qed

lemma rs_stop_sending_ok:
  assumes fit: "fits f L s sfc"
  shows "sound f L s sfc (quiet s) (rs_stop_sending s sfc q err)"
proof -
  have ok: "state_ok f L (rs_state s)" "session_ok sfc" "held (rs_state s) \<le> rfc_held sfc"
    using fit by (simp_all add: fits_def)
  show ?thesis
  proof (cases "rs_state s")
    case (RS_Recv fc b)
    then show ?thesis
      using ok by (simp add: rs_stop_sending_def, intro abort_reading_ok) (auto simp: state_simps buffer_ok_def)
  next
    case (RS_SizeKnown fc b)
    then show ?thesis
      using ok by (simp add: rs_stop_sending_def, intro abort_reading_ok) (auto simp: state_simps buffer_ok_def)
  next
    case (RS_SizeKnownAt fc b e fs rs)
    then show ?thesis
      using ok by (simp add: rs_stop_sending_def, intro finish_reset_ok) (auto simp: state_simps reliable_ok_def delivered_def)
  next
    case (RS_DataRecvd fc b)
    then have fc: "fc_ok fc" "rfc_held fc \<le> rfc_held sfc"
      using ok by (simp_all add: state_simps buffer_ok_def)
    obtain fc' sfc' where r: "flow_control_retire_data (rfc_held fc) fc sfc = Ok (fc', sfc')" "session_ok sfc'"
        "rfc_held sfc' + rfc_held fc = rfc_held sfc"
      using release_ok [OF fc(1) ok(2) fc(2)] by metis
    have "state_tag (rs_state s) \<noteq> state_tag (RS_DataRead (rx_received b) (rx_retired b))"
      using RS_DataRecvd by (simp add: state_tag_def)
    then obtain s' q' where "set_state s q (RS_DataRead (rx_received b) (rx_retired b)) = Ok (s', q')"
        "rs_state s' = RS_DataRead (rx_received b) (rx_retired b)" "rs_id s' = rs_id s"
      by (rule set_state_ok)
    then show ?thesis
      using RS_DataRecvd r fc
      by (auto simp: rs_stop_sending_def sound_def balanced_def quiet_def state_simps u64_held delivered_def is_ended_def)
  qed (simp_all add: rs_stop_sending_def sound_Ok [OF fit])
qed

lemma rs_stop_sending_acked_ok:
  assumes fit: "fits f L s sfc"
  obtains ended s' q' where "rs_stop_sending_acked s q = Ok (ended, s', q')" "balanced f L s sfc s' sfc" "quiet s ended s'"
proof (cases "rs_state s")
  case (RS_AbortReading fc reached needed e r d)
  then have fc: "released fc" "session_ok sfc"
    using fit by (simp_all add: fits_def state_ok_def)
  define st where "st = (if reached then RS_ResetRecvd r d else RS_WaitForReset fc r d)"
  have "state_tag (rs_state s) \<noteq> state_tag st"
    using RS_AbortReading by (simp add: st_def state_tag_def)
  then obtain s' q' where s': "set_state s q st = Ok (s', q')" "rs_state s' = st" "rs_id s' = rs_id s"
    by (rule set_state_ok)
  moreover have "state_ok f L st" "held st = held (rs_state s)" "reached \<longrightarrow> is_ended s'" "delivered s' = delivered s"
    using RS_AbortReading fc s'(2)
    by (auto simp: st_def state_simps released_def rfc_held_def is_ended_def delivered_def)
  ultimately show ?thesis
    using RS_AbortReading fc
    by (intro that [of reached s' q']) (auto simp: rs_stop_sending_acked_def st_def balanced_def quiet_def split: if_splits)
qed (use that [of False s q] balanced_refl [OF fit] in \<open>simp_all add: rs_stop_sending_acked_def quiet_def\<close>)

subsection \<open>Frames and reads\<close>

definition reads :: "(nat \<Rightarrow> u8) \<Rightarrow> nat \<Rightarrow> recv_stream \<Rightarrow> nat \<Rightarrow> bytes \<times> bool \<Rightarrow> recv_stream \<Rightarrow> bool" where
  "reads f L s space o_fin s' \<longleftrightarrow> (let n = length (fst o_fin) in
     n \<le> space \<and> agrees f (delivered s, fst o_fin) \<and> delivered s' = delivered s + n
     \<and> (snd o_fin \<longrightarrow> delivered s' = L \<and> is_ended s'))"

text \<open>Reading bytes retires as much credit.\<close>

definition read_step ::
    "(nat \<Rightarrow> u8) \<Rightarrow> rx_orderer \<Rightarrow> stream_fc \<Rightarrow> session_fc \<Rightarrow> nat \<Rightarrow> bytes \<Rightarrow> rx_orderer \<Rightarrow> stream_fc \<Rightarrow> session_fc \<Rightarrow> bool" where
  "read_step f b fc sfc space out b' fc' sfc' \<longleftrightarrow>
     length out \<le> space \<and> agrees f (rx_retired b, out) \<and> rx_ok f b'
     \<and> rx_retired b' = rx_retired b + length out \<and> arrived b' = arrived b \<and> fc_ok fc' \<and> session_ok sfc'
     \<and> rfc_consumed fc' = rfc_consumed fc \<and> rfc_retired fc' = rfc_retired fc + length out
     \<and> rfc_held sfc' + rfc_held fc = rfc_held sfc + rfc_held fc'"

lemma read_retire:
  assumes b: "rx_ok f b" and fc: "fc_ok fc" "session_ok sfc" "rfc_held fc \<le> rfc_held sfc"
    and held: "arrived b \<subseteq> {..<rx_retired b + rfc_held fc}"
  obtains out b' fc' sfc' where "rx_read b space = Ok (out, b')" "flow_control_retire_data (length out) fc sfc = Ok (fc', sfc')"
    "read_step f b fc sfc space out b' fc' sfc'"
proof -
  obtain k b' where k: "rx_read b space = Ok (map f [rx_retired b..<rx_retired b + k], b')" "rx_ok f b'"
      "rx_retired b' = rx_retired b + k" "arrived b' = arrived b" "k \<le> space" "{rx_retired b..<rx_retired b + k} \<subseteq> arrived b"
    using rx_read_ok [OF b] by metis
  have "{rx_retired b..<rx_retired b + k} \<subseteq> {..<rx_retired b + rfc_held fc}"
    using k(6) held by blast
  from subsetD [OF this, of "rx_retired b + (k - 1)"] have "k \<le> rfc_held fc"
    by (cases k) auto
  moreover have "fc_ok sfc"
    using fc(2) by (simp add: session_ok_def)
  ultimately obtain fc' sfc' where r: "flow_control_retire_data k fc sfc = Ok (fc', sfc')" "rfc_retired fc' = rfc_retired fc + k"
      "rfc_consumed fc' = rfc_consumed fc" "rfc_retired sfc' = rfc_retired sfc + k" "rfc_consumed sfc' = rfc_consumed sfc"
      "max_allowed sfc' = max_allowed sfc"
    using retire_data_ok [OF fc(1), of sfc k] fc(3) by (metis order.trans)
  then have "fc_ok fc'" "session_ok sfc'" "rfc_held sfc' + rfc_held fc = rfc_held sfc + rfc_held fc'"
    using \<open>k \<le> rfc_held fc\<close> fc by (auto simp: fc_ok_def session_ok_def rfc_held_def)
  then show ?thesis
    using k r by (intro that [of "map f [rx_retired b..<rx_retired b + k]" b' fc' sfc']) (simp_all add: read_step_def agrees_iff)
qed

lemma buffered_zero:
  assumes "rx_ok f b" "rx_buffered b = 0"
  shows "arrived b = {..<rx_retired b}"
proof -
  have "data_ranges b = []"
  proof (rule ccontr)
    assume "data_ranges b \<noteq> []"
    then obtain s d m where e: "data_ranges b = (s, d) # m"
      by (metis neq_Nil_conv surj_pair)
    then have d: "rx_retired b < s + length d" "s < s + length d" "s + length d < 2 ^ 62"
      using assms(1) rx_ok_bounds(3) [OF assms(1)] by (auto simp: rx_ok_def entry_ok_def)
    have "u64_sub (length d) (rx_retired b - s) = length d - (rx_retired b - s)"
      using d by (intro u64_sub_eq) auto
    moreover have "u64_sub (length d) (rx_retired b - s) = 0"
      using assms(2) e by (simp add: rx_buffered_def)
    ultimately show False
      using d by linarith
  qed
  then show ?thesis
    by (simp add: arrived_def)
qed

lemma buffer_ok_held:
  assumes "buffer_ok f fc b"
  shows "rx_ok f b" "fc_ok fc" "arrived b \<subseteq> {..<rx_retired b + rfc_held fc}"
  using assms by (auto simp: buffer_ok_def rfc_held_def fc_ok_def)

lemma buffer_retire:
  assumes "buffer_ok f fc b" "session_ok sfc" "rfc_held fc \<le> rfc_held sfc"
  obtains out b' fc' sfc' where "rx_read b space = Ok (out, b')" "flow_control_retire_data (length out) fc sfc = Ok (fc', sfc')"
    "read_step f b fc sfc space out b' fc' sfc'" "buffer_ok f fc' b'"
proof -
  obtain out b' fc' sfc' where r: "rx_read b space = Ok (out, b')" "flow_control_retire_data (length out) fc sfc = Ok (fc', sfc')"
      "read_step f b fc sfc space out b' fc' sfc'"
    using read_retire [OF buffer_ok_held(1,2) [OF assms(1)] assms(2,3) buffer_ok_held(3) [OF assms(1)], of space] by blast
  have "buffer_ok f fc' b'"
    using assms(1) r(3) by (simp add: buffer_ok_def read_step_def)
  then show ?thesis
    using r that by blast
qed

lemmas read_simps = rs_read_def sound_def balanced_def reads_def read_step_def Let_def state_simps delivered_def

lemma read_recvd_ok:
  assumes st: "rs_state s = RS_DataRecvd fc b" and fit: "fits f L s sfc"
  shows "sound f L s sfc (reads f L s space) (rs_read s sfc q space)"
proof -
  have b: "buffer_ok f fc b" "session_ok sfc" "rfc_held fc \<le> rfc_held sfc" "{..<L} \<subseteq> arrived b" "rfc_consumed fc = L"
    using st fit by (simp_all add: fits_def state_simps)
  obtain out b' fc' sfc' where r: "rx_read b space = Ok (out, b')" "flow_control_retire_data (length out) fc sfc = Ok (fc', sfc')"
      and step: "read_step f b fc sfc space out b' fc' sfc'" and b': "buffer_ok f fc' b'"
    using buffer_retire [OF b(1,2,3)] by metis
  have L: "rfc_consumed fc' = L" "{..<L} \<subseteq> arrived b'"
    using b step by (simp_all add: read_step_def)
  show ?thesis
  proof (cases "rx_buffered b' = 0")
    case True
    then have "L \<le> rx_retired b'"
      using L(2) buffered_zero [of f b'] b' by (simp add: buffer_ok_def)
    then have "rfc_held fc' = 0" "rx_retired b' = L"
      using b' L by (auto simp: buffer_ok_def rfc_held_def fc_ok_def)
    then show ?thesis
      using st r step True by (auto simp: read_simps set_state_def is_ended_def)
  next
    case False
    then show ?thesis
      using st r step b' L by (auto simp: read_simps)
  qed
qed

lemma read_reliable_ok:
  assumes st: "rs_state s = RS_SizeKnownAt fc b e fs rs" and fit: "fits f L s sfc"
  shows "sound f L s sfc (reads f L s space) (rs_read s sfc q space)"
proof -
  have b: "reliable_ok f fc b fs rs" "session_ok sfc" "rfc_held fc \<le> rfc_held sfc"
    using st fit by (simp_all add: fits_def state_simps)
  then have b1: "rx_ok f b" "fc_ok fc" "arrived b \<subseteq> {..<rx_retired b + rfc_held fc}"
    by (auto simp: reliable_ok_def rfc_held_def)
  obtain out b' fc' sfc' where r: "rx_read b space = Ok (out, b')" "flow_control_retire_data (length out) fc sfc = Ok (fc', sfc')"
      and step: "read_step f b fc sfc space out b' fc' sfc'"
    using read_retire [OF b1(1,2) b(2,3) b1(3)] by metis
  define s1 where "s1 = s\<lparr>rs_state := RS_SizeKnownAt fc' b' e fs rs\<rparr>"
  have "sound f L s1 sfc' (quiet s1) (complete_reliable_reset_if_drained s1 sfc' q)"
    by (rule complete_ok [of _ fc' b' e fs rs])
      (use step b in \<open>auto simp: s1_def read_step_def reliable_ok_def rfc_held_def fc_ok_def\<close>)
  moreover have "delivered s = rx_retired b" "delivered s1 = rx_retired b'" "held (rs_state s) = rfc_held fc"
      "held (rs_state s1) = rfc_held fc'" "rs_id s1 = rs_id s"
    using st by (simp_all add: s1_def delivered_def rs_stats_def held_def)
  moreover have "rs_read s sfc q space = bind_res (complete_reliable_reset_if_drained s1 sfc' q)
      (\<lambda>(_, s', sfc'', q'). Ok ((out, False), s', sfc'', q'))"
    using st r by (simp add: rs_read_def s1_def)
  ultimately show ?thesis
    using step by (auto simp: read_step_def sound_def balanced_def quiet_def reads_def)
qed

lemma rs_read_ok:
  assumes fit: "fits f L s sfc"
  shows "sound f L s sfc (reads f L s space) (rs_read s sfc q space)"
proof -
  have ok: "session_ok sfc" "state_ok f L (rs_state s)" "held (rs_state s) \<le> rfc_held sfc"
    using fit by (simp_all add: fits_def)
  show ?thesis
  proof (cases "rs_state s")
    case (RS_Recv fc b)
    then have b: "buffer_ok f fc b" "rfc_held fc \<le> rfc_held sfc"
      using ok by (simp_all add: state_simps)
    show ?thesis
      by (rule buffer_retire [OF b(1) ok(1) b(2), of space]) (use RS_Recv ok in \<open>auto simp: read_simps\<close>)
  next
    case (RS_SizeKnown fc b)
    then have b: "buffer_ok f fc b" "rfc_held fc \<le> rfc_held sfc"
      using ok by (simp_all add: state_simps)
    show ?thesis
      by (rule buffer_retire [OF b(1) ok(1) b(2), of space]) (use RS_SizeKnown ok in \<open>auto simp: read_simps\<close>)
  next
    case (RS_DataRecvd fc b)
    then show ?thesis
      by (rule read_recvd_ok [OF _ fit])
  next
    case (RS_SizeKnownAt fc b e fs rs)
    then show ?thesis
      by (rule read_reliable_ok [OF _ fit])
  qed (simp_all add: rs_read_def sound_def)
qed

text \<open>A frame of the peer's stream.\<close>

definition frame_of :: "(nat \<Rightarrow> u8) \<Rightarrow> nat \<Rightarrow> bool \<Rightarrow> nat \<Rightarrow> bytes \<Rightarrow> bool" where
  "frame_of f L fin o_set data \<longleftrightarrow> agrees f (o_set, data) \<and> o_set + length data < 2 ^ 62 \<and> (fin \<longrightarrow> o_set + length data = L)"

lemma all_recv_ok:
  assumes "rx_ok f b" "arrived b \<subseteq> {..<rfc_consumed fc}" "rfc_consumed fc < 2 ^ 62"
  shows "all_recv fc b \<longleftrightarrow> {..<rfc_consumed fc} \<subseteq> arrived b"
proof -
  have "{..<rx_retired b + bytes_ready b} \<subseteq> {..<rfc_consumed fc}"
    using bytes_ready_ok(1) [OF assms(1)] assms(2) by (rule order.trans)
  then have "rx_retired b + bytes_ready b \<le> rfc_consumed fc"
    by simp
  moreover have "rx_retired b + bytes_ready b \<notin> arrived b" "{..<rx_retired b + bytes_ready b} \<subseteq> arrived b"
    using bytes_ready_ok [OF assms(1)] by blast+
  ultimately show ?thesis
    using assms(3) by (auto simp: all_recv_def u64_add_eq) (metis le_neq_implies_less lessThan_iff subsetD)
qed

text \<open>A frame that fits the credit of the stream is added to its buffer, or there are too many gaps.\<close>

lemma buffer_grows:
  assumes b: "buffer_ok f fc b" and fr: "agrees f (start, data)" "start + length data \<le> rfc_consumed fc"
  obtains "inbound_frame b start data = Err ProtocolViolation"
  | b' where "inbound_frame b start data = Ok b'" "buffer_ok f fc b'" "rx_retired b' = rx_retired b"
      "all_recv fc b' \<longleftrightarrow> {..<rfc_consumed fc} \<subseteq> arrived b'"
proof -
  have b1: "rx_ok f b" "arrived b \<subseteq> {..<rfc_consumed fc}" "rfc_consumed fc < 2 ^ 62"
    using b by (auto simp: buffer_ok_def fc_ok_def)
  have "rx_result f b {start..<start + length data} (inbound_frame b start data)"
    using fr b1 by (intro inbound_frame_ok) auto
  then consider "inbound_frame b start data = Err ProtocolViolation"
    | b' where "inbound_frame b start data = Ok b'" "rx_grown f b {start..<start + length data} b'"
    by (auto simp: rx_result_def)
  then show ?thesis
  proof cases
    case (2 b')
    then have g: "rx_ok f b'" "rx_retired b' = rx_retired b" "arrived b' \<subseteq> {..<rfc_consumed fc}"
      using b1(2) fr(2) by (auto simp: rx_grown_def)
    then show ?thesis
      using that(2) [of b'] 2(1) b all_recv_ok [OF g(1,3) b1(3)] by (simp add: buffer_ok_def)
  qed (rule that(1))
qed

lemma reliable_grows:
  assumes b: "reliable_ok f fc b fs rs" and fr: "agrees f (start, data)" "start + length data \<le> rs"
  obtains "inbound_frame b start data = Err ProtocolViolation"
  | b' where "inbound_frame b start data = Ok b'" "reliable_ok f fc b' fs rs" "rx_retired b' = rx_retired b"
proof -
  have "rx_result f b {start..<start + length data} (inbound_frame b start data)"
    using fr b by (intro inbound_frame_ok) (auto simp: reliable_ok_def fc_ok_def)
  then consider "inbound_frame b start data = Err ProtocolViolation"
    | b' where "inbound_frame b start data = Ok b'" "rx_grown f b {start..<start + length data} b'"
    by (auto simp: rx_result_def)
  then show ?thesis
  proof cases
    case (2 b')
    then show ?thesis
      using b fr(2) by (intro that(2) [of b']) (auto simp: reliable_ok_def rx_grown_def)
  qed (rule that(1))
qed

text \<open>Buffering the data of a frame leaves the flow controllers alone.\<close>

definition buffers :: "(nat \<Rightarrow> u8) \<Rightarrow> nat \<Rightarrow> recv_stream \<Rightarrow> (recv_stream \<times> ('t, 'a) events) res \<Rightarrow> bool" where
  "buffers f L s r \<longleftrightarrow> (\<exists>e. r = Err e)
     \<or> (\<exists>s' q'. r = Ok (s', q') \<and> state_ok f L (rs_state s') \<and> rs_id s' = rs_id s \<and> held (rs_state s') = held (rs_state s)
          \<and> delivered s' = delivered s)"

lemma buffer_frame_ok:
  assumes ok: "state_ok f L (rs_state s)" and fr: "frame_of f L fin start data"
    and took: "\<And>fc. fc_of (rs_state s) = Some fc \<Longrightarrow> start + length data \<le> rfc_consumed fc
      \<and> (fin \<longrightarrow> rfc_consumed fc = start + length data)"
  shows "buffers f L s (buffer_frame s q fin start data)"
proof (cases "rs_state s")
  case (RS_Recv fc b)
  have "buffer_ok f fc b" "agrees f (start, data)" "start + length data \<le> rfc_consumed fc" "fin \<longrightarrow> rfc_consumed fc = L"
    using RS_Recv ok fr took [of fc] by (auto simp: state_simps frame_of_def)
  then show ?thesis
    by (cases rule: buffer_grows [of f fc b start data])
      (use RS_Recv in \<open>auto simp: buffer_frame_def buffers_def set_state_def state_simps delivered_def\<close>)
next
  case (RS_SizeKnown fc b)
  have "buffer_ok f fc b" "agrees f (start, data)" "start + length data \<le> rfc_consumed fc" "rfc_consumed fc = L"
    using RS_SizeKnown ok fr took [of fc] by (auto simp: state_simps frame_of_def)
  then show ?thesis
    by (cases rule: buffer_grows [of f fc b start data])
      (use RS_SizeKnown in \<open>auto simp: buffer_frame_def buffers_def set_state_def state_simps delivered_def\<close>)
next
  case (RS_SizeKnownAt fc b e fs rs)
  have b: "reliable_ok f fc b fs rs" "agrees f (start, take (rs - start) data)"
    using RS_SizeKnownAt ok fr by (auto simp: state_simps frame_of_def intro: agrees_take)
  show ?thesis
  proof (cases "start < rs")
    case True
    then have "start + length (take (rs - start) data) \<le> rs"
      by simp
    with b show ?thesis
      by (cases rule: reliable_grows [of f fc b fs rs start "take (rs - start) data"])
        (use True RS_SizeKnownAt in \<open>auto simp: buffer_frame_def buffers_def state_simps delivered_def\<close>)
  qed (use RS_SizeKnownAt ok in \<open>simp add: buffer_frame_def buffers_def\<close>)
qed (use ok in \<open>simp_all add: buffer_frame_def buffers_def\<close>)

lemma inbound_stream_frame_ok:
  assumes fit: "fits f L s sfc" and fr: "frame_of f L fin start data"
  shows "(\<exists>e. inbound_stream_frame s sfc q fin start data = Err e)
    \<or> (\<exists>s' sfc' q'. inbound_stream_frame s sfc q fin start data = Ok (s', sfc', q') \<and> balanced f L s sfc s' sfc'
         \<and> delivered s' = delivered s)"
proof -
  have n: "u64_add start (length data) = start + length data" "start + length data < 2 ^ 62"
    using fr by (simp_all add: frame_of_def u64_add_eq)
  show ?thesis
    using consume_state_ok [OF fit n(2), of fin]
  proof (elim disjE exE conjE)
    fix st sfc'
    assume st: "flow_control_consume_data (rs_state s) sfc (start + length data) fin = Ok (st, sfc')"
        "took (rs_state s) (start + length data) fin st"
      and b: "balanced f L s sfc (s\<lparr>rs_state := st\<rparr>) sfc'" and d: "delivered (s\<lparr>rs_state := st\<rparr>) = delivered s"
    have "buffers f L (s\<lparr>rs_state := st\<rparr>) (buffer_frame (s\<lparr>rs_state := st\<rparr>) q fin start data)"
      using b st(2) by (intro buffer_frame_ok fr) (auto simp: balanced_def took_def)
    then show ?thesis
      using st(1) b d n(1) unfolding buffers_def inbound_stream_frame_def by (auto simp: balanced_def)
  qed (simp add: inbound_stream_frame_def n)
qed

end
