(* ===== verification/Recv_Run.thy ===== *)
theory Recv_Run
  imports Recv_Delivery
begin

text \<open>
  The receive side of a connection as it runs: streams are opened, frames arrive, the application reads or abandons streams,
  the peer resets them, frames are written, acknowledged and lost, and streams that have ended are removed. In every run the bytes
  that the application has read on a stream are a prefix of what the peer sent, no operation panics, and the credit of the
  connection that has not been returned is what its streams hold.
\<close>

subsection \<open>Runs\<close>

text \<open>
  \<open>out i\<close> is what the application has read on the stream \<open>i\<close>, if it was ever opened; packets are built in buffers \<open>B\<close>. The limits that a local endpoint
  grants are varints.
\<close>

inductive recv_run ::
    "'b Buffer \<Rightarrow> (stream_id \<Rightarrow> nat \<Rightarrow> u8) \<Rightarrow> (stream_id \<Rightarrow> nat) \<Rightarrow> recv_streams \<Rightarrow> session_fc \<Rightarrow> ('t, 'a) events \<Rightarrow> (stream_id \<rightharpoonup> bytes) \<Rightarrow> bool"
  for B f L where
  start: "m < 2 ^ 62 \<Longrightarrow> recv_run B f L (recv_streams_new r) (receiver_fc_new () m) [] Map.empty"
| opened: "recv_run B f L ss sfc q out \<Longrightarrow> out i = None
    \<Longrightarrow> recv_run B f L (r_insert ss i (recv_stream_new i m)) sfc q (out(i \<mapsto> []))"
| frame: "recv_run B f L ss sfc q out \<Longrightarrow> r_get ss i = Ok s \<Longrightarrow> frame_of (f i) (L i) fin start data
    \<Longrightarrow> inbound_stream_frame s sfc q fin start data = Ok (s', sfc', q') \<Longrightarrow> recv_run B f L (r_put ss i s') sfc' q' out"
| readable: "recv_run B f L ss sfc q out \<Longrightarrow> out i = Some bs \<Longrightarrow> r_read ss sfc q i space = Ok ((bs', fin), ss', sfc', q')
    \<Longrightarrow> recv_run B f L ss' sfc' q' (out(i \<mapsto> bs @ bs'))"
| stopped: "recv_run B f L ss sfc q out \<Longrightarrow> r_stop_sending ss sfc q i err = Ok (ss', sfc', q') \<Longrightarrow> recv_run B f L ss' sfc' q' out"
| was_reset: "recv_run B f L ss sfc q out \<Longrightarrow> fs < 2 ^ 62 \<Longrightarrow> r_reset ss sfc q i err fs rs = Ok (ss', sfc', q')
    \<Longrightarrow> recv_run B f L ss' sfc' q' out"
| stop_acked: "recv_run B f L ss sfc q out \<Longrightarrow> r_stop_sending_acked ss q i = Ok (ss', q') \<Longrightarrow> recv_run B f L ss' sfc q' out"
| stop_lost: "recv_run B f L ss sfc q out \<Longrightarrow> r_get ss i = Ok s \<Longrightarrow> recv_run B f L (r_put ss i (stop_sending_lost s)) sfc q out"
| max_data_lost: "recv_run B f L ss sfc q out \<Longrightarrow> r_get ss i = Ok s
    \<Longrightarrow> recv_run B f L (r_put ss i (max_stream_data_lost s n)) sfc q out"
| peer_blocked: "recv_run B f L ss sfc q out \<Longrightarrow> r_get ss i = Ok s \<Longrightarrow> recv_run B f L (r_put ss i (rs_send_flowc_update s)) sfc q out"
| window_set: "recv_run B f L ss sfc q out \<Longrightarrow> r_get ss i = Ok s \<Longrightarrow> recv_run B f L (r_put ss i (set_stream_max_data s n)) sfc q out"
| keep_alive: "recv_run B f L ss sfc q out \<Longrightarrow> r_keep_alive ss i k = Ok ss' \<Longrightarrow> recv_run B f L ss' sfc q out"
| removed: "recv_run B f L ss sfc q out \<Longrightarrow> r_remove_ended ss sending = (counts, ss') \<Longrightarrow> recv_run B f L ss' sfc q out"
| written: "recv_run B f L ss sfc q out \<Longrightarrow> r_write_frames B ss b ts now rtt = Ok (ss', b', ts') \<Longrightarrow> recv_run B f L ss' sfc q out"
| session_written: "recv_run B f L ss sfc q out \<Longrightarrow> conn_rfc_write_frames B sfc b ts now rtt = Ok (sfc', b', ts')
    \<Longrightarrow> recv_run B f L ss sfc' q out"

definition lent :: "recv_stream btree_map \<Rightarrow> nat" where
  "lent m = sum_list (map (\<lambda>e. held (rs_state (snd e))) m)"

definition stream_ok :: "(stream_id \<Rightarrow> nat \<Rightarrow> u8) \<Rightarrow> (stream_id \<Rightarrow> nat) \<Rightarrow> (stream_id \<rightharpoonup> bytes) \<Rightarrow> nat \<times> recv_stream \<Rightarrow> bool" where
  "stream_ok f L out e \<longleftrightarrow> rs_id (snd e) = fst e \<and> state_ok (f (fst e)) (L (fst e)) (rs_state (snd e))
     \<and> (case out (fst e) of None \<Rightarrow> False | Some bs \<Rightarrow> length bs = delivered (snd e))"

definition run_ok ::
    "(stream_id \<Rightarrow> nat \<Rightarrow> u8) \<Rightarrow> (stream_id \<Rightarrow> nat) \<Rightarrow> recv_streams \<Rightarrow> session_fc \<Rightarrow> (stream_id \<rightharpoonup> bytes) \<Rightarrow> bool" where
  "run_ok f L ss sfc out \<longleftrightarrow> bt_ok (r_streams ss) \<and> session_ok sfc \<and> rfc_held sfc = lent (r_streams ss)
     \<and> (\<forall>e\<in>set (r_streams ss). stream_ok f L out e) \<and> (\<forall>i bs. out i = Some bs \<longrightarrow> agrees (f i) (0, bs))"

lemma lent_simps [simp]:
  "lent [] = 0" "lent (e # m) = held (rs_state (snd e)) + lent m" "lent (m @ m') = lent m + lent m'"
  by (simp_all add: lent_def)

text \<open>A stream that is found, and the map around it.\<close>

lemma r_get_split:
  assumes "r_get ss i = Ok s" "bt_ok (r_streams ss)"
  obtains m m' where "r_streams ss = m @ (i, s) # m'" "\<forall>e\<in>set m. fst e \<noteq> i" "\<forall>e\<in>set m'. fst e \<noteq> i"
proof -
  have "map_of (r_streams ss) i = Some s"
    using assms(1) by (simp add: r_get_def bt_get_def split: option.splits)
  then have "(i, s) \<in> set (r_streams ss)"
    by (rule map_of_SomeD)
  then obtain m m' where m: "r_streams ss = m @ (i, s) # m'"
    by (meson split_list)
  with assms(2) show ?thesis
    by (intro that [OF m]) (fastforce simp: bt_ok_append)+
qed

lemma run_ok_get:
  assumes "run_ok f L ss sfc out" "r_get ss i = Ok s"
  shows "fits (f i) (L i) s sfc" "rs_id s = i" "\<exists>bs. out i = Some bs \<and> length bs = delivered s"
proof -
  have ok: "bt_ok (r_streams ss)"
    using assms(1) by (simp add: run_ok_def)
  obtain m m' where "r_streams ss = m @ (i, s) # m'"
    using r_get_split [OF assms(2) ok] by metis
  then show "fits (f i) (L i) s sfc" "rs_id s = i" "\<exists>bs. out i = Some bs \<and> length bs = delivered s"
    using assms(1) by (auto simp: run_ok_def stream_ok_def fits_def split: option.splits)
qed

lemma run_ok_put:
  assumes ok: "run_ok f L ss sfc out" "r_get ss i = Ok s" and bal: "balanced (f i) (L i) s sfc s' sfc'"
    and bs: "agrees (f i) (0, bs)" "length bs = delivered s'"
  shows "run_ok f L (set_ended (r_put ss i s') e) sfc' (out(i \<mapsto> bs))"
proof -
  have "bt_ok (r_streams ss)"
    using ok(1) by (simp add: run_ok_def)
  from r_get_split [OF ok(2) this] obtain m m' where m: "r_streams ss = m @ (i, s) # m'" "\<forall>e\<in>set m. fst e \<noteq> i" "\<forall>e\<in>set m'. fst e \<noteq> i"
    by metis
  have id: "rs_id s = i"
    by (rule run_ok_get(2) [OF ok])
  show ?thesis
    using ok(1) bal bs m id
    by (auto simp: run_ok_def r_put_def set_ended_def bt_modify_last bt_ok_append balanced_def stream_ok_def)
qed

lemma set_ended_simps [simp]: "set_ended ss False = ss" "r_streams (set_ended ss e) = r_streams ss"
  by (simp_all add: set_ended_def)

lemma run_ok_put_quiet:
  assumes "run_ok f L ss sfc out" "r_get ss i = Ok s" "balanced (f i) (L i) s sfc s' sfc'" "delivered s' = delivered s"
  shows "run_ok f L (set_ended (r_put ss i s') e) sfc' out"
proof -
  obtain bs where bs: "out i = Some bs" "length bs = delivered s"
    using run_ok_get(3) [OF assms(1,2)] by blast
  then have "agrees (f i) (0, bs)"
    using assms(1) by (simp add: run_ok_def)
  then have "run_ok f L (set_ended (r_put ss i s') e) sfc' (out(i \<mapsto> bs))"
    using bs assms by (intro run_ok_put) simp_all
  then show ?thesis
    using bs(1) by (simp add: fun_upd_idem)
qed

text \<open>Operations that leave the credit of a stream alone.\<close>

definition same_credit :: "(nat \<Rightarrow> u8) \<Rightarrow> nat \<Rightarrow> recv_stream \<Rightarrow> recv_stream \<Rightarrow> bool" where
  "same_credit f L s s' \<longleftrightarrow> (state_ok f L (rs_state s) \<longrightarrow> state_ok f L (rs_state s')) \<and> held (rs_state s') = held (rs_state s)
     \<and> rs_id s' = rs_id s \<and> delivered s' = delivered s"

lemma same_credit_refl [simp]: "same_credit f L s s"
  by (simp add: same_credit_def)

lemma same_credit_fc:
  assumes "rs_state s = RS_Recv fc b" "rfc_consumed fc' = rfc_consumed fc" "rfc_retired fc' = rfc_retired fc"
  shows "same_credit f L s (s\<lparr>rs_state := RS_Recv fc' b\<rparr>)"
  using assms by (simp add: same_credit_def state_simps buffer_ok_def fc_ok_def rfc_held_def delivered_def)

lemma fc_credit_simps [simp]:
  "rfc_consumed (send_flowc_update fc) = rfc_consumed fc" "rfc_retired (send_flowc_update fc) = rfc_retired fc"
  "rfc_consumed (set_max_active fc n) = rfc_consumed fc" "rfc_retired (set_max_active fc n) = rfc_retired fc"
  "rfc_consumed (rfc_frame_lost fc n) = rfc_consumed fc" "rfc_retired (rfc_frame_lost fc n) = rfc_retired fc"
  "rfc_consumed (rfc_frame_sent fc n) = rfc_consumed fc" "rfc_retired (rfc_frame_sent fc n) = rfc_retired fc"
  by (simp_all add: send_flowc_update_def set_max_active_def rfc_frame_lost_def rfc_frame_sent_def)

lemma same_credit_ops:
  "same_credit f L s (rs_send_flowc_update s)" "same_credit f L s (set_stream_max_data s n)"
  "same_credit f L s (max_stream_data_lost s n)" "same_credit f L s (stop_sending_lost s)"
  "same_credit f L s (s\<lparr>rs_keep_alive := k\<rparr>)"
proof -
  show "same_credit f L s (stop_sending_lost s)"
    by (cases "rs_state s") (auto simp: stop_sending_lost_def same_credit_def state_simps delivered_def)
  show "same_credit f L s (s\<lparr>rs_keep_alive := k\<rparr>)"
    by (simp add: same_credit_def delivered_def rs_stats_def)
qed (cases "rs_state s"; simp add: rs_send_flowc_update_def set_stream_max_data_def max_stream_data_lost_def same_credit_fc)+

lemma run_ok_same_credit:
  assumes "run_ok f L ss sfc out" "r_get ss i = Ok s" "same_credit (f i) (L i) s s'"
  shows "run_ok f L (r_put ss i s') sfc out"
proof -
  have "fits (f i) (L i) s sfc"
    by (rule run_ok_get(1) [OF assms(1,2)])
  then have "balanced (f i) (L i) s sfc s' sfc" "delivered s' = delivered s"
    using assms(3) by (simp_all add: same_credit_def fits_def balanced_def)
  from run_ok_put_quiet [OF assms(1,2) this, of False] show ?thesis
    by simp
qed

subsection \<open>Writing frames\<close>

lemma stream_write_credit:
  assumes "stream_rfc_write_frames B fc b ts now rtt = Ok (fc', b', ts')"
  shows "rfc_consumed fc' = rfc_consumed fc \<and> rfc_retired fc' = rfc_retired fc"
  using assms by (auto simp: stream_rfc_write_frames_def stream_auto_tune_def Let_def bind_res_Ok_iff split: if_splits)

lemma conn_write_credit:
  assumes "conn_rfc_write_frames B fc b ts now rtt = Ok (fc', b', ts')"
  shows "rfc_consumed fc' = rfc_consumed fc \<and> rfc_retired fc' = rfc_retired fc \<and> (max_allowed fc < 2 ^ 62 \<longrightarrow> max_allowed fc' < 2 ^ 62)"
  using assms
  by (auto simp: conn_rfc_write_frames_def conn_auto_tune_def Let_def bind_res_Ok_iff rfc_frame_sent_def next_limit_def MAX_VARINT_def
      split: if_splits)

lemma rs_write_frame_credit:
  assumes "rs_write_frame B s b ts now rtt = Ok (s', b', ts')"
  shows "same_credit f L s s'"
proof (cases "rs_state s")
  case (RS_Recv fc buf)
  then obtain fc' where "s' = s\<lparr>rs_state := RS_Recv fc' buf\<rparr>" "stream_rfc_write_frames B fc b ts now rtt = Ok (fc', b', ts')"
    using assms by (auto simp: rs_write_frame_def bind_res_Ok_iff)
  then show ?thesis
    using RS_Recv stream_write_credit by (metis same_credit_fc)
next
  case (RS_AbortReading fc reached needed e r d)
  then have "s' = s \<or> s' = s\<lparr>rs_state := RS_AbortReading fc reached False e r d\<rparr>"
    using assms by (auto simp: rs_write_frame_def bind_res_Ok_iff split: if_splits)
  then show ?thesis
    using RS_AbortReading by (auto simp: same_credit_def state_simps delivered_def)
qed (use assms in \<open>simp_all add: rs_write_frame_def\<close>)

lemma r_write_loop_credit:
  assumes "r_write_loop B m b ts now rtt = Ok (m', b', ts')"
  shows "list_all2 (\<lambda>e e'. fst e' = fst e \<and> same_credit (f (fst e)) (L (fst e)) (snd e) (snd e')) m m'"
  using assms
proof (induction B m b ts now rtt arbitrary: m' b' ts' rule: r_write_loop.induct)
  case (2 B i s m b ts now rtt)
  then show ?case
    by (fastforce simp: bind_res_Ok_iff intro: rs_write_frame_credit list_all2_refl split: if_splits)
qed simp

lemma credit_list:
  assumes "list_all2 (\<lambda>e e'. fst e' = fst e \<and> same_credit (f (fst e)) (L (fst e)) (snd e) (snd e')) m m'"
  shows "map fst m' = map fst m \<and> lent m' = lent m
    \<and> ((\<forall>e\<in>set m. stream_ok f L out e) \<longrightarrow> (\<forall>e\<in>set m'. stream_ok f L out e))"
  using assms
proof (induction rule: list_all2_induct)
  case (Cons e m e' m')
  have "fst e' = fst e" "held (rs_state (snd e')) = held (rs_state (snd e))" "stream_ok f L out e \<longrightarrow> stream_ok f L out e'"
    using Cons.hyps by (auto simp: same_credit_def stream_ok_def split: option.splits)
  then show ?case
    using Cons.IH by simp
qed simp

subsection \<open>The invariant\<close>

lemma lent_removed: "lent (filter (\<lambda>e. \<not> r_dead sending e) m) = lent m"
  by (induction m) (auto simp: r_dead_def is_ended_def held_def split: recv_state.splits)

lemma lent_insert:
  "bt_ok m \<Longrightarrow> i \<notin> fst ` set m \<Longrightarrow> lent (bt_insert i s m) = held (rs_state s) + lent m"
  by (induction i s m rule: bt_insert.induct) auto

lemma set_bt_insert: "set (bt_insert i s m) \<subseteq> insert (i, s) (set m)"
  by (induction i s m rule: bt_insert.induct) auto

lemma new_stream_ok: "state_ok f L (rs_state (recv_stream_new i m))" "held (rs_state (recv_stream_new i m)) = 0"
  "delivered (recv_stream_new i m) = 0" "rs_id (recv_stream_new i m) = i"
  using rx_ok_new(1) [of f] rx_ok_new(2)
  by (simp_all add: recv_stream_new_def recv_state_new_def state_simps buffer_ok_def fc_ok_def receiver_fc_new_def rfc_held_def
      delivered_def) (simp add: rx_new_def)+

lemma run_ok_opened:
  assumes ok: "run_ok f L ss sfc out" and new: "out i = None"
  shows "run_ok f L (r_insert ss i (recv_stream_new i m)) sfc (out(i \<mapsto> []))"
proof -
  have keys: "i \<notin> fst ` set (r_streams ss)"
    using ok new by (auto simp: run_ok_def stream_ok_def)
  have "stream_ok f L (out(i \<mapsto> [])) e" if mem: "e \<in> set (bt_insert i (recv_stream_new i m) (r_streams ss))" for e
  proof -
    consider "e = (i, recv_stream_new i m)" | "e \<in> set (r_streams ss)"
      using subsetD [OF set_bt_insert mem] by blast
    then show ?thesis
    proof cases
      case 2
      then have "fst e \<noteq> i" "stream_ok f L out e"
        using keys ok by (auto simp: run_ok_def)
      then show ?thesis
        by (simp add: stream_ok_def)
    qed (simp add: stream_ok_def new_stream_ok)
  qed
  moreover have "agrees (f i) (0, [])"
    by (simp add: agrees_iff)
  ultimately show ?thesis
    using ok keys by (auto simp: run_ok_def r_insert_def bt_ok_insert lent_insert new_stream_ok)
qed

lemma run_ok_read:
  assumes ok: "run_ok f L ss sfc out" and bs: "out i = Some bs" and r: "r_read ss sfc q i space = Ok ((bs', fin), ss', sfc', q')"
  shows "run_ok f L ss' sfc' (out(i \<mapsto> bs @ bs'))" "fin \<Longrightarrow> length (bs @ bs') = L i" "length bs' \<le> space"
proof -
  obtain s s' where s: "r_get ss i = Ok s" "rs_read s sfc q space = Ok ((bs', fin), s', sfc', q')"
      "ss' = set_ended (r_put ss i s') (is_ended s')"
    using r by (auto simp: r_read_def bind_res_Ok_iff)
  have "length bs = delivered s" "agrees (f i) (0, bs)"
    using run_ok_get(3) [OF ok s(1)] bs ok by (auto simp: run_ok_def)
  moreover have "balanced (f i) (L i) s sfc s' sfc'" "reads (f i) (L i) s space (bs', fin) s'"
    using rs_read_ok [OF run_ok_get(1) [OF ok s(1)], of space q] s(2) by (auto simp: sound_def)
  ultimately show "run_ok f L ss' sfc' (out(i \<mapsto> bs @ bs'))" "fin \<Longrightarrow> length (bs @ bs') = L i" "length bs' \<le> space"
    using run_ok_put [OF ok s(1), of s' sfc' "bs @ bs'"] agrees_append [of "f i" 0 bs bs'] s(3) by (simp_all add: reads_def Let_def)
qed

text \<open>An operation of one stream that returns whether it ended.\<close>

lemma run_ok_sound:
  assumes ok: "run_ok f L ss sfc out" "r_get ss i = Ok s" and r: "sound (f i) (L i) s sfc (quiet s) (Ok (ended, s', sfc', q'))"
  shows "run_ok f L (set_ended (r_put ss i s') e) sfc' out"
  using r by (intro run_ok_put_quiet [OF ok]) (auto simp: sound_def quiet_def)

theorem recv_run_ok: "recv_run B f L ss sfc q out \<Longrightarrow> run_ok f L ss sfc out"
proof (induction rule: recv_run.induct)
  case (start m r)
  then show ?case
    by (simp add: run_ok_def recv_streams_new_def session_ok_def fc_ok_def receiver_fc_new_def rfc_held_def)
next
  case (frame ss sfc q out i s fin start data s' sfc' q')
  then show ?case
    using run_ok_put_quiet [of f L ss sfc out i s s' sfc' False]
      inbound_stream_frame_ok [OF run_ok_get(1), of f L ss sfc out i s fin start data q] by auto
next
  case (stopped ss sfc q out i err ss' sfc' q')
  then obtain s ended s' where s: "r_get ss i = Ok s" "rs_stop_sending s sfc q err = Ok (ended, s', sfc', q')"
      "ss' = set_ended (r_put ss i s') ended"
    by (auto simp: r_stop_sending_def bind_res_Ok_iff)
  then show ?case
    using run_ok_sound [OF stopped.IH s(1)] rs_stop_sending_ok [OF run_ok_get(1) [OF stopped.IH s(1)], of q err] by simp
next
  case (was_reset ss sfc q out fs i err rs ss' sfc' q')
  show ?case
  proof (cases "r_get ss i")
    case (Ok s)
    then obtain ended s' where s: "rs_reset s sfc q err fs rs = Ok (ended, s', sfc', q')" "ss' = set_ended (r_put ss i s') ended"
      using was_reset by (auto simp: r_reset_def bind_res_Ok_iff)
    then show ?thesis
      using run_ok_sound [OF was_reset.IH Ok] was_reset.hyps(2)
        rs_reset_ok [OF run_ok_get(1) [OF was_reset.IH Ok], of fs q err rs] by simp
  qed (use was_reset in \<open>simp_all add: r_reset_def\<close>)
next
  case (stop_acked ss sfc q out i ss' q')
  show ?case
  proof (cases "r_get ss i")
    case (Ok s)
    obtain ended s' q'' where s: "rs_stop_sending_acked s q = Ok (ended, s', q'')" "balanced (f i) (L i) s sfc s' sfc" "quiet s ended s'"
      by (rule rs_stop_sending_acked_ok [OF run_ok_get(1) [OF stop_acked.IH Ok]])
    then show ?thesis
      using stop_acked.hyps(2) Ok run_ok_put_quiet [OF stop_acked.IH Ok s(2)] by (auto simp: r_stop_sending_acked_def quiet_def)
  qed (use stop_acked in \<open>simp_all add: r_stop_sending_acked_def\<close>)
next
  case (keep_alive ss sfc q out i k ss')
  then show ?case
    by (auto simp: r_keep_alive_def bind_res_Ok_iff intro: run_ok_same_credit same_credit_ops)
next
  case (removed ss sfc q out sending counts ss')
  then show ?case
    by (auto simp: r_remove_ended_def run_ok_def Let_def bt_ok_filter lent_removed split: if_splits)
next
  case (written ss sfc q out b ts now rtt ss' b' ts')
  then obtain m where m: "r_write_loop B (r_streams ss) b ts now rtt = Ok (m, b', ts')" "ss' = ss\<lparr>r_streams := m\<rparr>"
    by (auto simp: r_write_frames_def bind_res_Ok_iff)
  then show ?case
    using written.IH credit_list [OF r_write_loop_credit [OF m(1)], where f = f and L = L and out = out] by (simp add: run_ok_def bt_ok_def)
next
  case (session_written ss sfc q out b ts now rtt sfc' b' ts')
  then show ?case
    using conn_write_credit [of B sfc b ts now rtt sfc' b' ts'] by (auto simp: run_ok_def session_ok_def fc_ok_def rfc_held_def)
qed (rule run_ok_opened run_ok_read(1) run_ok_same_credit, assumption+, (rule same_credit_ops)?)+

subsection \<open>Properties\<close>

text \<open>A run in which the three bytes of the stream 0 arrive in two frames, the second part first.\<close>

definition sample_bytes :: "stream_id \<Rightarrow> nat \<Rightarrow> u8" where
  "sample_bytes i n = word_of_nat (n + 1)"

definition sample_session :: session_fc where
  "sample_session = (receiver_fc_new () 1000)\<lparr>rfc_consumed := 3\<rparr>"

definition sample_first :: recv_stream where
  "sample_first = \<lparr>rs_id = 0, rs_state = RS_SizeKnown ((receiver_fc_new 0 100)\<lparr>rfc_consumed := 3\<rparr>)
      \<lparr>data_ranges = [(1, [2, 3])], rx_retired = 0, rx_received = 2, rx_end = 3\<rparr>, rs_keep_alive = False\<rparr>"

definition sample_stream :: recv_stream where
  "sample_stream = \<lparr>rs_id = 0, rs_state = RS_DataRecvd ((receiver_fc_new 0 100)\<lparr>rfc_consumed := 3\<rparr>)
      \<lparr>data_ranges = [(0, [1]), (1, [2, 3])], rx_retired = 0, rx_received = 3, rx_end = 3\<rparr>, rs_keep_alive = False\<rparr>"

definition sample_streams :: recv_streams where
  "sample_streams = \<lparr>r_streams = [(0, sample_stream)], r_has_ended = False, r_role = Client\<rparr>"

definition sample_events :: "(unit, unit) events" where
  "sample_events = [Ev_RecvStreamReadable 0]"

lemmas sample_defs = sample_events_def sample_bytes_def sample_session_def sample_stream_def sample_streams_def

lemmas recv_eval = sample_first_def sample_defs inbound_stream_frame_def recv_stream_new_def recv_state_new_def receiver_fc_new_def
  rs_data_ready_def recv_buf_def rx_new_def rx_data_ready_def flow_control_consume_data_def consume_data_def set_consumed_def
  conn_rfc_consume_def u64 buffer_frame_def inbound_frame_def rx_insert_end_def rx_insert_below_def rx_overlap_def rx_add_def
  insert_range_def check_gap_limit_def MAX_GAPS_def RANGE_TARGET_def bt_last_def bt_upto_def bt_from_def bt_modify_def bt_get_def
  all_recv_def bytes_ready_def set_state_def state_tag_def needs_to_inform_app_about_fin_def recv_stream_readable_def push_unique_def
  r_read_def r_get_def rs_read_def rx_read_def flow_control_retire_data_def rfc_add_retired_def should_send_update_def rx_buffered_def
  WINDOW_UPDATE_FRACTION_def

lemma sample_frames:
  "inbound_stream_frame (recv_stream_new 0 100) (receiver_fc_new () 1000) [] True 1 [2, 3] = Ok (sample_first, sample_session, [])"
  "inbound_stream_frame sample_first sample_session [] False 0 [1] = Ok (sample_stream, sample_session, sample_events)"
  by (simp_all add: recv_eval)

lemma sample_run: "recv_run B sample_bytes (\<lambda>_. 3) sample_streams sample_session sample_events [0 \<mapsto> []]"
proof -
  have "recv_run B sample_bytes (\<lambda>_. 3) (r_insert (recv_streams_new Client) 0 (recv_stream_new 0 100)) (receiver_fc_new () 1000) [] [0 \<mapsto> []]"
    by (rule recv_run.opened [OF recv_run.start]) simp_all
  then have "recv_run B sample_bytes (\<lambda>_. 3) (r_put (r_insert (recv_streams_new Client) 0 (recv_stream_new 0 100)) 0 sample_first)
      sample_session [] [0 \<mapsto> []]"
    by (rule recv_run.frame [OF _ _ _ sample_frames(1)])
      (simp_all add: r_get_def r_insert_def recv_streams_new_def bt_get_def frame_of_def agrees_def sample_bytes_def)
  moreover have "r_put (r_put (r_insert (recv_streams_new Client) 0 (recv_stream_new 0 100)) 0 sample_first) 0 sample_stream = sample_streams"
    by (simp add: r_put_def r_insert_def recv_streams_new_def bt_modify_def sample_streams_def)
  ultimately show ?thesis
    using recv_run.frame [OF _ _ _ sample_frames(2), of B sample_bytes "\<lambda>_. 3"
        "r_put (r_insert (recv_streams_new Client) 0 (recv_stream_new 0 100)) 0 sample_first" "[0 \<mapsto> []]" 0]
    by (simp add: r_get_def r_put_def r_insert_def recv_streams_new_def bt_get_def bt_modify_def frame_of_def agrees_def sample_bytes_def)
qed



text \<open>
  C4: flow control credit is conserved: in every run, what the connection has consumed and not yet retired is exactly the sum of
  what its streams hold, so no credit leaks; when all streams have ended, by being read to the end, reset or abandoned, all of it
  has been returned.
\<close>

theorem credit_conserved:
  assumes "recv_run B f L ss sfc q out"
  shows "rfc_retired sfc + sum_list (map (\<lambda>(_, s). held (rs_state s)) (r_streams ss)) = rfc_consumed sfc
    \<and> (if list_all (\<lambda>(_, s). is_ended s) (r_streams ss) then rfc_retired sfc = rfc_consumed sfc else True)"
proof -
  have ok: "rfc_retired sfc \<le> rfc_consumed sfc" "rfc_consumed sfc - rfc_retired sfc = lent (r_streams ss)"
    using recv_run_ok [OF assms] by (simp_all add: run_ok_def session_ok_def fc_ok_def rfc_held_def)
  have "lent (r_streams ss) = 0" if "list_all (\<lambda>(_, s). is_ended s) (r_streams ss)"
    using that by (induction "r_streams ss" arbitrary: ss) (auto simp: lent_def list_all_iff is_ended_def held_def split: recv_state.splits)
  moreover have "sum_list (map (\<lambda>(_, s). held (rs_state s)) (r_streams ss)) = lent (r_streams ss)"
    by (simp add: lent_def case_prod_unfold)
  ultimately show ?thesis
    using ok by auto
qed

theorem credit_conserved_witness:
  "rfc_retired sample_session + sum_list (map (\<lambda>(_, s). held (rs_state s)) (r_streams sample_streams)) = rfc_consumed sample_session
    \<and> (if list_all (\<lambda>(_, s). is_ended s) (r_streams sample_streams) then rfc_retired sample_session = rfc_consumed sample_session else True)"
  by (rule credit_conserved [OF sample_run [of vec_buffer]])



end
