(* ===== verification/Close_Frame.thy ===== *)
theory Close_Frame
  imports Events Frame_Writer
begin

text \<open>
  What closing a connection sends: the bytes that \<open>ClosingFrame::write_frame\<close> puts into a packet that grows as needed, and the
  signals that \<open>StateSignaling\<close> allows.
\<close>

definition closing_reason :: "nat \<Rightarrow> 'p closing_frame \<Rightarrow> bytes" where
  "closing_reason available f =
     (let phrase = cf_reason_phrase f
      in if available < varint_size (length phrase) + length phrase then take (available - 2) phrase else phrase)"

definition closing_bytes :: "nat \<Rightarrow> 'p closing_frame \<Rightarrow> bytes" where
  "closing_bytes available f =
     (let reason = closing_reason available f
      in (case cf_error f of
            CR_Transport e \<Rightarrow> varints_bytes [frame_type_code FT_ConnectionCloseTransport, error_code e, cf_frame_type f]
          | CR_Application code \<Rightarrow> varints_bytes [frame_type_code FT_ConnectionCloseApplication, code])
         @ varint_bytes (length reason) @ reason)"

text \<open>The numbers of a frame that can be encoded.\<close>

definition closing_ok :: "'p closing_frame \<Rightarrow> bool" where
  "closing_ok f \<longleftrightarrow> cf_frame_type f < 2 ^ 62 \<and> length (cf_reason_phrase f) < 2 ^ 62
     \<and> (case cf_error f of CR_Transport _ \<Rightarrow> True | CR_Application code \<Rightarrow> code < 2 ^ 62)"

lemma error_code_small: "error_code e < 2 ^ 62"
proof -
  have "unat a < 256" for a :: u8
    using unsigned_less [of a, where 'a = nat] by simp
  then have "256 + unat a < 2 ^ 62" for a :: u8
    by (rule order.strict_trans2 [OF add_strict_left_mono]) simp
  then show ?thesis
    by (simp add: error_code_def ERROR_AEAD_LIMIT_REACHED_def ERROR_APPLICATION_CLOSE_def ERROR_CRYPTO_BUFFER_EXCEEDED_def
        split: error.split)
qed

lemma vec_varint:
  "v < 2 ^ 62 \<Longrightarrow> encode_varint vec_buffer e (word_of_nat v) = Ok (e\<lparr>ebuf := ebuf e @ varint_bytes v\<rparr>)"
  by (simp add: encode_varint_eq unat_of_nat)

lemma vec_vvec:
  "length v < 2 ^ 62 \<Longrightarrow> encode_vvec vec_buffer e v = Ok (e\<lparr>ebuf := ebuf e @ varint_bytes (length v) @ v\<rparr>)"
  by (simp add: encode_vvec_def encode_len_def vec_varint)

lemma closing_write_eq:
  assumes "closing_ok f" "CLOSING_MIN_LENGTH \<le> builder_remaining vec_buffer b"
  shows "closing_write_frame vec_buffer f b
    = Ok (b\<lparr>b_enc := (b_enc b)\<lparr>ebuf := ebuf (b_enc b) @ closing_bytes (min 256 (builder_remaining vec_buffer b)) f\<rparr>\<rparr>)"
proof -
  let ?a = "min 256 (builder_remaining vec_buffer b)"
  have "vvec_len (length (cf_reason_phrase f)) = Ok (varint_size (length (cf_reason_phrase f)) + length (cf_reason_phrase f))"
    using assms(1) by (simp add: vvec_len_def varint_len_size closing_ok_def)
  moreover have "(if ?a < varint_size (length (cf_reason_phrase f)) + length (cf_reason_phrase f)
      then take (?a - 2) (cf_reason_phrase f) else cf_reason_phrase f) = closing_reason ?a f"
    by (simp add: closing_reason_def)
  moreover have "length (closing_reason ?a f) < 2 ^ 62"
    using assms(1) by (auto simp: closing_reason_def closing_ok_def Let_def)
  ultimately show ?thesis
    using assms error_code_small vec_varint [of 28] vec_varint [of 29]
    by (cases "cf_error f")
      (simp_all add: closing_write_frame_def encode_frame_def vec_varint vec_vvec closing_bytes_def closing_ok_def Let_def)
qed

lemma varint_size_pos: "0 < varint_size v"
  by (simp add: varint_size_def)

text \<open>
  C33: a close frame can overrun its packet: when the reason phrase does not fit into the space that is left, it is cut to that space
  less two bytes, although the frame type, the error code and, for a transport error, the type of the offending frame precede it.
  Whenever the phrase is cut in a packet with at most 256 bytes left, the frame ends beyond the limit of the packet.
\<close>

theorem closing_frame_overruns:
  assumes "closing_ok f" "vec.wf_builder b" "CLOSING_MIN_LENGTH \<le> builder_remaining vec_buffer b" "builder_remaining vec_buffer b \<le> 256"
    and "builder_remaining vec_buffer b < varint_size (length (cf_reason_phrase f)) + length (cf_reason_phrase f)"
  shows "\<exists>b'. closing_write_frame vec_buffer f b = Ok b' \<and> b_limit b' = b_limit b \<and> b_limit b' < builder_len vec_buffer b'"
proof -
  let ?r = "builder_remaining vec_buffer b"
  have "length (cf_reason_phrase f) \<ge> ?r - 2 \<or> 64 \<le> length (cf_reason_phrase f)"
    using assms(5) by (auto simp: varint_size_def split: if_splits)
  then have "?r - 2 \<le> length (cf_reason_phrase f)"
    using assms(4,5) by (auto simp: varint_size_def split: if_splits)
  then have "length (closing_reason ?r f) = ?r - 2" "27 \<le> ?r"
    using assms(3,5) by (simp_all add: closing_reason_def Let_def CLOSING_MIN_LENGTH_def)
  then have "?r < length (closing_bytes ?r f)"
    using varint_size_pos [of "error_code (case cf_error f of CR_Transport e \<Rightarrow> e)"] varint_size_pos [of "?r - 2"]
      varint_size_pos [of "cf_frame_type f"] varint_size_pos [of 28] varint_size_pos [of 29]
      varint_size_pos [of "case cf_error f of CR_Application c \<Rightarrow> c"]
    by (cases "cf_error f") (simp_all add: closing_bytes_def Let_def)
  moreover have "estart (b_enc b) \<le> length (ebuf (b_enc b))"
    using assms(2) by (simp add: vec.wf_builder_def vec.wf_enc_def)
  ultimately show ?thesis
    using assms(4) by (simp add: closing_write_eq [OF assms(1,3)] builder_len_def builder_remaining_def vec_enc_simps min_def)
qed

definition long_close :: "unit closing_frame" where
  "long_close = closing_frame_new () (CR_Application 7) 0 (replicate 40 0x61)"

theorem closing_frame_overruns_witness:
  "\<exists>b'. closing_write_frame vec_buffer long_close (builder_new encoder_default 0 0 30) = Ok b'
    \<and> b_limit b' = b_limit (builder_new encoder_default 0 0 30 :: bytes builder) \<and> b_limit b' < builder_len vec_buffer b'"
  by (rule closing_frame_overruns)
    (simp_all add: closing_ok_def long_close_def closing_frame_new_def vec.wf_builder_def vec.wf_enc_def builder_new_def
      encoder_default_def builder_len_def builder_remaining_def vec_enc_simps CLOSING_MIN_LENGTH_def varint_size_def)

end
