(* ===== verification/Range_Tracker.thy ===== *)
theory Range_Tracker
  imports BTree_Map Flow_Control
begin

text \<open>
  \<open>RangeTracker\<close> and \<open>TxBuffer\<close> of \<open>neqo-transport/src/send_stream.rs\<close>: which bytes of a stream have been sent, acknowledged or
  lost, and the bytes themselves. Offsets are below the largest varint, so that their sums do not wrap around; the
  subtractions that the code does not guard are on \<open>u64\<close>. A \<open>VecDeque\<close> is a list; where it is split into its two slices is an
  argument of the operation that looks at them.
\<close>

datatype range_state = Range_Sent | Range_Acked

type_synonym ranges = "(nat \<times> range_state) btree_map"

record range_tracker =
  rt_acked :: nat
  rt_used :: ranges
  first_unmarked :: "(nat \<times> nat option) option"

definition range_tracker_default :: range_tracker where
  "range_tracker_default = \<lparr>rt_acked = 0, rt_used = [], first_unmarked = None\<rparr>"

definition highest_offset :: "range_tracker \<Rightarrow> nat" where
  "highest_offset t = (case bt_last (rt_used t) of None \<Rightarrow> rt_acked t | Some (k, v, _) \<Rightarrow> k + v)"

definition acked_from_zero :: "range_tracker \<Rightarrow> nat" where
  "acked_from_zero t = rt_acked t"

fun unmarked_loop :: "nat \<Rightarrow> ranges \<Rightarrow> nat \<times> nat option" where
  "unmarked_loop prev_end [] = (prev_end, None)"
| "unmarked_loop prev_end ((cur_off, cur_len, _) # m) =
     (if prev_end = cur_off then unmarked_loop (cur_off + cur_len) m
      else (prev_end, Some (u64_sub cur_off prev_end)))"

definition first_unmarked_range :: "range_tracker \<Rightarrow> (nat \<times> nat option) \<times> range_tracker" where
  "first_unmarked_range t =
     (case first_unmarked t of
        Some r \<Rightarrow> (r, t)
      | None \<Rightarrow> (let r = unmarked_loop (rt_acked t) (rt_used t) in (r, t\<lparr>first_unmarked := Some r\<rparr>)))"

text \<open>The loop of \<open>coalesce_acked\<close> takes entries from the front of the map.\<close>

fun coalesce_loop :: "nat \<Rightarrow> ranges \<Rightarrow> nat \<times> ranges" where
  "coalesce_loop acked [] = (acked, [])"
| "coalesce_loop acked ((off, len, state) # m) =
     (if off < acked then
        (let overflow = off + len - acked
         in if 0 < overflow
            then if state = Range_Acked then (acked + overflow, m) else (acked, bt_insert acked (overflow, state) m)
            else coalesce_loop acked m)
      else if off = acked then if state = Range_Acked then (acked + len, m) else (acked, (off, len, state) # m)
      else (acked, (off, len, state) # m))"

definition coalesce_acked :: "range_tracker \<Rightarrow> range_tracker" where
  "coalesce_acked t = (let (a, m) = coalesce_loop (rt_acked t) (rt_used t) in t\<lparr>rt_acked := a, rt_used := m\<rparr>)"

definition remove_all :: "nat list \<Rightarrow> ranges \<Rightarrow> ranges" where
  "remove_all ks m = foldl (\<lambda>m k. bt_remove k m) m ks"

text \<open>The part of \<open>mark_acked\<close> up to the loop that removes the covered ranges: what follows the new range.\<close>

definition acked_tail :: "ranges \<Rightarrow> nat \<Rightarrow> nat \<Rightarrow> (ranges \<times> nat) res" where
  "acked_tail m new_off new_len =
     (let new_end = new_off + new_len;
          covered = map fst (bt_below new_end (bt_from new_off m))
      in case bt_get m new_end of
           Some (extra_len, state) \<Rightarrow>
             if state = Range_Acked then Ok (remove_all covered (bt_remove new_end m), new_len + extra_len)
             else Ok (remove_all covered m, new_len)
         | None \<Rightarrow>
             if covered = [] then Ok (m, new_len)
             else
               (case bt_get m (last covered) of
                  None \<Rightarrow> Panic
                | Some (old_len, old_state) \<Rightarrow>
                    (let m' = bt_remove (last covered) m;
                         remainder = last covered + old_len - new_end
                     in if 0 < remainder
                        then if old_state = Range_Acked then Ok (remove_all (butlast covered) m', new_len + remainder)
                             else Ok (remove_all (butlast covered) (bt_insert new_end (remainder, Range_Sent) m'), new_len)
                        else Ok (remove_all (butlast covered) m', new_len))))"

text \<open>The rest: merge with a preceding acknowledged range, or cut a preceding sent one.\<close>

definition acked_head :: "ranges \<Rightarrow> nat \<Rightarrow> nat \<Rightarrow> ranges" where
  "acked_head m new_off new_len =
     (let new_end = new_off + new_len
      in case bt_last (bt_below new_off m) of
           None \<Rightarrow> bt_insert new_off (new_len, Range_Acked) m
         | Some (prev_off, prev_len, prev_state) \<Rightarrow>
             (let prev_end = prev_off + prev_len
              in if new_off \<le> prev_end
                 then if prev_state = Range_Sent
                      then (let m1 = bt_modify prev_off (\<lambda>_. (new_off - prev_off, prev_state)) m;
                                m2 = (if new_end < prev_end then bt_insert new_end (prev_end - new_end, Range_Sent) m1 else m1)
                            in bt_insert new_off (new_len, Range_Acked) m2)
                      else bt_modify prev_off (\<lambda>_. (max prev_end new_end - prev_off, prev_state)) m
                 else bt_insert new_off (new_len, Range_Acked) m))"

definition mark_acked :: "range_tracker \<Rightarrow> nat \<Rightarrow> nat \<Rightarrow> range_tracker res" where
  "mark_acked t off len =
     (let new_off = max (rt_acked t) off;
          new_len = off + len - new_off
      in if new_len = 0 then Ok t
         else
           (let t1 = t\<lparr>first_unmarked := None\<rparr>
            in if new_off = rt_acked t then Ok (coalesce_acked (t1\<lparr>rt_acked := rt_acked t + new_len\<rparr>))
               else bind_res (acked_tail (rt_used t) new_off new_len) (\<lambda>(m, n). Ok (t1\<lparr>rt_used := acked_head m new_off n\<rparr>))))"

text \<open>The loop of \<open>mark_sent\<close> over the ranges that start within the new one.\<close>

fun sent_loop :: "nat list \<Rightarrow> ranges \<Rightarrow> nat \<Rightarrow> nat \<Rightarrow> ranges res" where
  "sent_loop [] m new_off new_len = Ok (bt_insert new_off (new_len, Range_Sent) m)"
| "sent_loop (old_off # covered) m new_off new_len =
     (case bt_get m old_off of
        None \<Rightarrow> Panic
      | Some (old_len, old_state) \<Rightarrow>
          if old_state = Range_Acked
          then (let chunk_len = u64_sub old_off new_off;
                    m1 = (if 0 < chunk_len then bt_insert new_off (chunk_len, Range_Sent) m else m);
                    included = chunk_len + old_len
                in if new_len - included = 0 then Ok m1 else sent_loop covered m1 (new_off + included) (new_len - included))
          else (let overhang = old_off + old_len - (new_off + new_len)
                in sent_loop covered (if old_off \<noteq> new_off then bt_remove old_off m else m) new_off (new_len + overhang)))"

definition sent_head :: "nat list \<Rightarrow> ranges \<Rightarrow> nat \<Rightarrow> nat \<Rightarrow> ranges res" where
  "sent_head covered m new_off new_len =
     (case bt_last (bt_below new_off m) of
        None \<Rightarrow> sent_loop covered m new_off new_len
      | Some (prev_off, prev_len, prev_state) \<Rightarrow>
          if new_off \<le> prev_off + prev_len
          then (let overlap = prev_off + prev_len - new_off;
                    len = new_len - overlap
                in if len = 0 then Ok m
                   else if prev_state = Range_Acked then sent_loop covered m (new_off + overlap) len
                   else sent_loop covered m prev_off (len + prev_len))
          else sent_loop covered m new_off new_len)"

definition mark_sent :: "range_tracker \<Rightarrow> nat \<Rightarrow> nat \<Rightarrow> range_tracker res" where
  "mark_sent t off len =
     (let new_end = off + len;
          new_off = max (rt_acked t) off;
          new_len = new_end - new_off
      in if new_len = 0 then Ok t
         else
           (let t1 = t\<lparr>first_unmarked := None\<rparr>;
                m = rt_used t;
                covered = map fst (bt_below (new_off + new_len) (bt_from new_off m))
            in case bt_get m new_end of
                 Some (extra_len, Range_Sent) \<Rightarrow>
                   bind_res (sent_head covered (bt_remove new_end m) new_off (new_len + extra_len)) (\<lambda>m'. Ok (t1\<lparr>rt_used := m'\<rparr>))
               | _ \<Rightarrow> bind_res (sent_head covered m new_off new_len) (\<lambda>m'. Ok (t1\<lparr>rt_used := m'\<rparr>))))"

text \<open>
  The loop of \<open>unmark_range\<close>, over the ranges below the end from the last one backwards: the range that keeps its head, the ranges
  to remove, the tail to add, and whether a head was cut.
\<close>

fun unmark_loop ::
    "nat \<Rightarrow> nat \<Rightarrow> ranges \<Rightarrow> nat list \<Rightarrow> (nat \<times> nat \<times> range_state) option
      \<Rightarrow> (nat option \<times> nat list \<times> (nat \<times> nat \<times> range_state) option) res" where
  "unmark_loop off end_off [] to_remove to_add = Ok (None, to_remove, to_add)"
| "unmark_loop off end_off ((cur_off, cur_len, cur_state) # m) to_remove to_add =
     (let cur_end_off = cur_off + cur_len;
          head = (cur_off < off)
      in if head \<and> cur_end_off \<le> off then Ok (None, to_remove, to_add)
         else if cur_state = Range_Acked then
           if head then Ok (None, to_remove, to_add) else unmark_loop off end_off m to_remove to_add
         else
           assert_res (end_off < cur_end_off \<longrightarrow> to_add = None)
           (let to_add' = (if end_off < cur_end_off then Some (end_off, cur_end_off - end_off, cur_state) else to_add)
            in if head then Ok (Some cur_off, to_remove, to_add')
               else unmark_loop off end_off m (to_remove @ [cur_off]) to_add'))"

definition unmark_range :: "range_tracker \<Rightarrow> nat \<Rightarrow> nat \<Rightarrow> (bool \<times> range_tracker) res" where
  "unmark_range t off len =
     (if len = 0 then Ok (False, t)
      else
        (let end_off = off + len
         in bind_res (unmark_loop off end_off (rev (bt_below end_off (rt_used t))) [] None) (\<lambda>(cut, to_remove, to_add).
              (let m1 = (case cut of None \<Rightarrow> rt_used t | Some k \<Rightarrow> bt_modify k (\<lambda>(_, s). (off - k, s)) (rt_used t));
                   m2 = remove_all to_remove m1;
                   m3 = (case to_add of None \<Rightarrow> m2 | Some (k, n, s) \<Rightarrow> bt_insert k (n, s) m2)
               in Ok (cut \<noteq> None \<or> to_remove \<noteq> [], t\<lparr>first_unmarked := None, rt_used := m3\<rparr>)))))"

definition rt_unmark_sent :: "range_tracker \<Rightarrow> (bool \<times> range_tracker) res" where
  "rt_unmark_sent t = unmark_range t 0 (highest_offset t)"

subsection \<open>The send buffer\<close>

record tx_buffer =
  send_buf :: "u8 list"
  tx_ranges :: range_tracker

definition TX_MAX_SIZE :: nat where "TX_MAX_SIZE = MAX_LOCAL_MAX_STREAM_DATA"

definition tx_buffer_new :: tx_buffer where
  "tx_buffer_new = \<lparr>send_buf = [], tx_ranges = range_tracker_default\<rparr>"

definition tx_retired :: "tx_buffer \<Rightarrow> nat" where
  "tx_retired b = acked_from_zero (tx_ranges b)"

definition tx_buffered :: "tx_buffer \<Rightarrow> nat" where
  "tx_buffered b = length (send_buf b)"

definition tx_avail :: "tx_buffer \<Rightarrow> nat" where
  "tx_avail b = TX_MAX_SIZE - tx_buffered b"

definition tx_used :: "tx_buffer \<Rightarrow> nat" where
  "tx_used b = tx_retired b + tx_buffered b"

definition tx_send :: "tx_buffer \<Rightarrow> bytes \<Rightarrow> (nat \<times> tx_buffer) res" where
  "tx_send b buf =
     (let can_buffer = min (TX_MAX_SIZE - tx_buffered b) (length buf)
      in if 0 < can_buffer
         then (let b' = b\<lparr>send_buf := send_buf b @ take can_buffer buf\<rparr>
               in assert_res (length (send_buf b') \<le> TX_MAX_SIZE) (Ok (can_buffer, b')))
         else Ok (can_buffer, b))"

definition tx_first_unmarked :: "tx_buffer \<Rightarrow> (nat \<times> nat option) option \<times> tx_buffer" where
  "tx_first_unmarked b =
     (let ((start, len), t) = first_unmarked_range (tx_ranges b)
      in (if start \<noteq> tx_retired b + tx_buffered b then Some (start, len) else None, b\<lparr>tx_ranges := t\<rparr>))"

definition tx_is_empty :: "tx_buffer \<Rightarrow> bool \<times> tx_buffer" where
  "tx_is_empty b = (let (r, b') = tx_first_unmarked b in (r = None, b'))"

definition tx_has_next_bytes :: "tx_buffer \<Rightarrow> bool \<times> tx_buffer" where
  "tx_has_next_bytes b = (let (r, b') = tx_is_empty b in (\<not> r, b'))"

definition has_next_bytes_before :: "tx_buffer \<Rightarrow> nat \<Rightarrow> bool \<times> tx_buffer" where
  "has_next_bytes_before b limit =
     (let (r, b') = tx_first_unmarked b in (case r of None \<Rightarrow> False | Some (start, _) \<Rightarrow> start < limit, b'))"

text \<open>\<open>k\<close> is the length of the first of the two slices that the \<open>VecDeque\<close> consists of.\<close>

definition tx_next_bytes :: "nat \<Rightarrow> tx_buffer \<Rightarrow> ((nat \<times> bytes) option \<times> tx_buffer) res" where
  "tx_next_bytes k b =
     (let (r, b') = tx_first_unmarked b
      in case r of
           None \<Rightarrow> Ok (None, b')
         | Some (start, maybe_len) \<Rightarrow>
             (let buff_off = u64_sub start (tx_retired b);
                  slc = (if buff_off < k then drop buff_off (take k (send_buf b)) else drop buff_off (send_buf b));
                  len = (case maybe_len of None \<Rightarrow> length slc | Some n \<Rightarrow> min n (length slc))
              in assert_res (0 < len \<and> len \<le> length slc) (Ok (Some (start, take len slc), b'))))"

definition tx_mark_as_sent :: "tx_buffer \<Rightarrow> nat \<Rightarrow> nat \<Rightarrow> tx_buffer res" where
  "tx_mark_as_sent b offset len = bind_res (mark_sent (tx_ranges b) offset len) (\<lambda>t. Ok (b\<lparr>tx_ranges := t\<rparr>))"

definition tx_mark_as_acked :: "tx_buffer \<Rightarrow> nat \<Rightarrow> nat \<Rightarrow> tx_buffer res" where
  "tx_mark_as_acked b offset len =
     bind_res (mark_acked (tx_ranges b) offset len) (\<lambda>t.
       (let new_retirable = u64_sub (acked_from_zero t) (tx_retired b)
        in assert_res (new_retirable \<le> tx_buffered b)
             (Ok (b\<lparr>send_buf := drop new_retirable (send_buf b), tx_ranges := t\<rparr>))))"

definition tx_mark_as_lost :: "tx_buffer \<Rightarrow> nat \<Rightarrow> nat \<Rightarrow> tx_buffer res" where
  "tx_mark_as_lost b offset len = bind_res (unmark_range (tx_ranges b) offset len) (\<lambda>(_, t). Ok (b\<lparr>tx_ranges := t\<rparr>))"

definition tx_unmark_sent :: "tx_buffer \<Rightarrow> (bool \<times> tx_buffer) res" where
  "tx_unmark_sent b = bind_res (rt_unmark_sent (tx_ranges b)) (\<lambda>(r, t). Ok (r, b\<lparr>tx_ranges := t\<rparr>))"

end
