(* ===== verification/Send_Stream.thy ===== *)
theory Send_Stream
  imports Range_Tracker Events
begin

text \<open>
  Send streams (\<open>neqo-transport/src/send_stream.rs\<close>): priorities, \<open>State\<close> and \<open>SendStream\<close>. The flow controller of the
  connection, which the streams share through an \<open>Rc\<close>, and the event queue are passed through the operations that use them. An
  operation that fails leaves the stream as it is, so that only the error is returned.
\<close>

type_synonym stream_sfc = "stream_id sender_fc"
type_synonym conn_sfc = "unit sender_fc"

subsection \<open>Priorities\<close>

datatype transmission_priority = TP_Critical | TP_Important | TP_High | TP_Normal | TP_Low

datatype retransmission_priority = RP_Fixed transmission_priority | RP_Same | RP_Higher | RP_MuchHigher

fun priority_add :: "transmission_priority \<Rightarrow> retransmission_priority \<Rightarrow> transmission_priority" where
  "priority_add p (RP_Fixed fixed) = fixed"
| "priority_add p RP_Same = p"
| "priority_add p RP_Higher =
     (case p of TP_Critical \<Rightarrow> TP_Critical | TP_Important \<Rightarrow> TP_Important | TP_High \<Rightarrow> TP_Important
      | TP_Normal \<Rightarrow> TP_High | TP_Low \<Rightarrow> TP_Normal)"
| "priority_add p RP_MuchHigher =
     (case p of TP_Critical \<Rightarrow> TP_Critical | TP_Important \<Rightarrow> TP_Critical | TP_High \<Rightarrow> TP_Important
      | TP_Normal \<Rightarrow> TP_Important | TP_Low \<Rightarrow> TP_High)"

subsection \<open>States\<close>

text \<open>
  The fields in the order of the source: \<open>Send\<close> has the committed offset, \<open>DataSent\<close> whether the end was sent and acknowledged,
  \<open>ResetSent\<close> the error, the final size, the reliable size, the priority at which the reset is due, and the counters;
  \<open>ResetSentReliable\<close> whether the reset frame was acknowledged.
\<close>

datatype (plugins only: code size) send_state =
    SS_Ready stream_sfc
  | SS_Send stream_sfc tx_buffer nat
  | SS_DataSent tx_buffer bool bool nat
  | SS_DataRecvd nat nat
  | SS_ResetSent app_error nat nat "transmission_priority option" nat nat
  | SS_ResetSentReliable tx_buffer app_error nat nat "transmission_priority option" bool
  | SS_ResetRecvd nat nat

definition tx_buf :: "send_state \<Rightarrow> tx_buffer option" where
  "tx_buf st =
     (case st of
        SS_Send _ b _ \<Rightarrow> Some b | SS_DataSent b _ _ _ \<Rightarrow> Some b | SS_ResetSentReliable b _ _ _ _ _ \<Rightarrow> Some b | _ \<Rightarrow> None)"

text \<open>An update through \<open>tx_buf_mut\<close>.\<close>

definition set_tx_buf :: "send_state \<Rightarrow> tx_buffer \<Rightarrow> send_state" where
  "set_tx_buf st b =
     (case st of
        SS_Send fc _ c \<Rightarrow> SS_Send fc b c
      | SS_DataSent _ fs fa c \<Rightarrow> SS_DataSent b fs fa c
      | SS_ResetSentReliable _ e fs rs p a \<Rightarrow> SS_ResetSentReliable b e fs rs p a
      | _ \<Rightarrow> st)"

definition state_tx_avail :: "send_state \<Rightarrow> nat" where
  "state_tx_avail st =
     (case st of
        SS_Ready _ \<Rightarrow> TX_MAX_SIZE | SS_Send _ b _ \<Rightarrow> tx_avail b | SS_DataSent b _ _ _ \<Rightarrow> tx_avail b | _ \<Rightarrow> 0)"

definition state_fc :: "send_state \<Rightarrow> stream_sfc option" where
  "state_fc st = (case st of SS_Ready fc \<Rightarrow> Some fc | SS_Send fc _ _ \<Rightarrow> Some fc | _ \<Rightarrow> None)"

definition set_state_fc :: "send_state \<Rightarrow> stream_sfc \<Rightarrow> send_state" where
  "set_state_fc st fc = (case st of SS_Ready _ \<Rightarrow> SS_Ready fc | SS_Send _ b c \<Rightarrow> SS_Send fc b c | _ \<Rightarrow> st)"

subsection \<open>Streams\<close>

record send_stream =
  ss_id :: stream_id
  ss_state :: send_state
  ss_priority :: transmission_priority
  effective_priority :: transmission_priority
  retransmission_offset :: nat
  sendorder :: "int option"
  bytes_sent :: nat
  fair :: bool
  send_group :: "nat option"
  low_watermark :: nat

definition ss_avail :: "send_stream \<Rightarrow> conn_sfc \<Rightarrow> nat" where
  "ss_avail s cfc =
     (case state_fc (ss_state s) of
        None \<Rightarrow> 0
      | Some fc \<Rightarrow> min (min (sfc_available fc) (sfc_available cfc)) (state_tx_avail (ss_state s)))"

definition send_stream_new :: "stream_id \<Rightarrow> nat \<Rightarrow> conn_sfc \<Rightarrow> ('t, 'a) events \<Rightarrow> send_stream \<times> ('t, 'a) events" where
  "send_stream_new i max_stream_data cfc q =
     (let s = \<lparr>ss_id = i, ss_state = SS_Ready (sender_fc_new i max_stream_data), ss_priority = TP_Normal,
               effective_priority = priority_add TP_Normal RP_Higher, retransmission_offset = 0, sendorder = None,
               bytes_sent = 0, fair = False, send_group = None, low_watermark = 1\<rparr>
      in (s, if 0 < ss_avail s cfc then send_stream_writable q i else q))"

definition set_fairness :: "send_stream \<Rightarrow> bool \<Rightarrow> send_stream" where
  "set_fairness s make_fair = s\<lparr>fair := make_fair\<rparr>"

definition set_send_group :: "send_stream \<Rightarrow> nat option \<Rightarrow> send_stream" where
  "set_send_group s g = s\<lparr>send_group := g\<rparr>"

definition set_priority :: "send_stream \<Rightarrow> transmission_priority \<Rightarrow> retransmission_priority \<Rightarrow> send_stream" where
  "set_priority s t r = s\<lparr>ss_priority := t, effective_priority := priority_add t r\<rparr>"

definition set_sendorder :: "send_stream \<Rightarrow> int option \<Rightarrow> send_stream" where
  "set_sendorder s so = s\<lparr>sendorder := so\<rparr>"

definition final_size :: "send_stream \<Rightarrow> nat option" where
  "final_size s =
     (case ss_state s of
        SS_DataSent b _ _ _ \<Rightarrow> Some (tx_used b)
      | SS_ResetSent _ fs _ _ _ _ \<Rightarrow> Some fs
      | SS_ResetSentReliable _ _ fs _ _ _ \<Rightarrow> Some fs
      | _ \<Rightarrow> None)"

definition bytes_written :: "send_stream \<Rightarrow> nat" where
  "bytes_written s =
     (case ss_state s of
        SS_Send _ b _ \<Rightarrow> tx_retired b + tx_buffered b
      | SS_DataSent b _ _ _ \<Rightarrow> tx_retired b + tx_buffered b
      | SS_ResetSentReliable b _ _ _ _ _ \<Rightarrow> tx_retired b + tx_buffered b
      | SS_DataRecvd r w \<Rightarrow> r + w
      | SS_ResetSent _ _ _ _ r w \<Rightarrow> r + w
      | SS_ResetRecvd r w \<Rightarrow> r + w
      | SS_Ready _ \<Rightarrow> 0)"

definition bytes_acked :: "send_stream \<Rightarrow> nat" where
  "bytes_acked s =
     (case ss_state s of
        SS_Send _ b _ \<Rightarrow> tx_retired b
      | SS_DataSent b _ _ _ \<Rightarrow> tx_retired b
      | SS_ResetSentReliable b _ _ _ _ _ \<Rightarrow> tx_retired b
      | SS_DataRecvd r _ \<Rightarrow> r
      | SS_ResetSent _ _ _ _ r _ \<Rightarrow> r
      | SS_ResetRecvd r _ \<Rightarrow> r
      | SS_Ready _ \<Rightarrow> 0)"

definition ss_stats :: "send_stream \<Rightarrow> nat \<times> nat \<times> nat" where
  "ss_stats s = (bytes_written s, bytes_sent s, bytes_acked s)"

definition ss_is_ended :: "send_stream \<Rightarrow> bool" where
  "ss_is_ended s = (case ss_state s of SS_DataRecvd _ _ \<Rightarrow> True | SS_ResetRecvd _ _ \<Rightarrow> True | _ \<Rightarrow> False)"

definition set_writable_event_low_watermark :: "send_stream \<Rightarrow> nat \<Rightarrow> send_stream" where
  "set_writable_event_low_watermark s w = s\<lparr>low_watermark := w\<rparr>"

definition maybe_emit_writable_event :: "send_stream \<Rightarrow> conn_sfc \<Rightarrow> ('t, 'a) events \<Rightarrow> nat \<Rightarrow> nat \<Rightarrow> ('t, 'a) events" where
  "maybe_emit_writable_event s cfc q previous_limit current_limit =
     (if low_watermark s < previous_limit \<or> current_limit < low_watermark s \<or> ss_avail s cfc < low_watermark s then q
      else send_stream_writable q (ss_id s))"

subsection \<open>Writing to the stream\<close>

definition send_blocked_if_space_needed :: "send_stream \<Rightarrow> conn_sfc \<Rightarrow> nat \<Rightarrow> send_stream \<times> conn_sfc" where
  "send_blocked_if_space_needed s cfc needed_space =
     (case state_fc (ss_state s) of
        None \<Rightarrow> (s, cfc)
      | Some fc \<Rightarrow>
          (if sfc_available fc \<le> needed_space then s\<lparr>ss_state := set_state_fc (ss_state s) (sfc_blocked fc)\<rparr> else s,
           if sfc_available cfc \<le> needed_space then sfc_blocked cfc else cfc))"

definition send_internal :: "send_stream \<Rightarrow> conn_sfc \<Rightarrow> bytes \<Rightarrow> bool \<Rightarrow> (nat \<times> send_stream \<times> conn_sfc) res" where
  "send_internal s cfc buf atomic =
     (if buf = [] then Err InvalidInput
      else
        (let s1 = (case ss_state s of SS_Ready fc \<Rightarrow> s\<lparr>ss_state := SS_Send fc tx_buffer_new 0\<rparr> | _ \<Rightarrow> s)
         in case ss_state s1 of
              SS_Send fc b c \<Rightarrow>
                if ss_avail s1 cfc = 0 then Ok (0, s1, cfc)
                else if ss_avail s1 cfc < length buf \<and> atomic then
                  (let (s2, cfc2) = send_blocked_if_space_needed s1 cfc (length buf) in Ok (0, s2, cfc2))
                else
                  bind_res (tx_send b (if ss_avail s1 cfc < length buf then take (ss_avail s1 cfc) buf else buf)) (\<lambda>(sent, b').
                  bind_res (sfc_consume fc sent) (\<lambda>fc'.
                  bind_res (sfc_consume cfc sent) (\<lambda>cfc'. Ok (sent, s1\<lparr>ss_state := SS_Send fc' b' c\<rparr>, cfc'))))
            | _ \<Rightarrow> Err FinalSize))"

definition ss_send :: "send_stream \<Rightarrow> conn_sfc \<Rightarrow> bytes \<Rightarrow> (nat \<times> send_stream \<times> conn_sfc) res" where
  "ss_send s cfc buf = send_internal s cfc buf False"

definition send_atomic :: "send_stream \<Rightarrow> conn_sfc \<Rightarrow> bytes \<Rightarrow> (nat \<times> send_stream \<times> conn_sfc) res" where
  "send_atomic s cfc buf = send_internal s cfc buf True"

definition set_max_stream_data :: "send_stream \<Rightarrow> conn_sfc \<Rightarrow> ('t, 'a) events \<Rightarrow> nat \<Rightarrow> send_stream \<times> ('t, 'a) events" where
  "set_max_stream_data s cfc q limit =
     (case state_fc (ss_state s) of
        None \<Rightarrow> (s, q)
      | Some fc \<Rightarrow>
          (let previous_limit = sfc_available fc;
               (r, fc') = sfc_update fc limit;
               s' = s\<lparr>ss_state := set_state_fc (ss_state s) fc'\<rparr>
           in (s', case r of None \<Rightarrow> q | Some current_limit \<Rightarrow> maybe_emit_writable_event s' cfc q previous_limit current_limit)))"

definition ss_close :: "send_stream \<Rightarrow> send_stream" where
  "ss_close s =
     (case ss_state s of
        SS_Ready _ \<Rightarrow> s\<lparr>ss_state := SS_DataSent tx_buffer_new False False 0\<rparr>
      | SS_Send _ b c \<Rightarrow> s\<lparr>ss_state := SS_DataSent b False False c\<rparr>
      | _ \<Rightarrow> s)"

definition commit :: "send_stream \<Rightarrow> send_stream res" where
  "commit s =
     (case ss_state s of
        SS_Ready _ \<Rightarrow> Ok s
      | SS_DataRecvd _ _ \<Rightarrow> Ok s
      | SS_Send fc b _ \<Rightarrow> Ok (s\<lparr>ss_state := SS_Send fc b (tx_used b)\<rparr>)
      | SS_DataSent b fs fa _ \<Rightarrow> Ok (s\<lparr>ss_state := SS_DataSent b fs fa (tx_used b)\<rparr>)
      | _ \<Rightarrow> Err StreamState)"

subsection \<open>Resetting\<close>

definition make_reset_state :: "app_error \<Rightarrow> transmission_priority \<Rightarrow> tx_buffer \<Rightarrow> nat \<Rightarrow> nat \<Rightarrow> send_state" where
  "make_reset_state err p b fs committed =
     (let reliable_size = min committed fs
      in if reliable_size = 0 \<or> reliable_size \<le> tx_retired b
         then SS_ResetSent err fs reliable_size (Some p) (tx_retired b) (tx_buffered b)
         else SS_ResetSentReliable b err fs reliable_size (Some p) False)"

definition ss_reset :: "send_stream \<Rightarrow> app_error \<Rightarrow> send_stream" where
  "ss_reset s err =
     (case ss_state s of
        SS_Ready fc \<Rightarrow> s\<lparr>ss_state := SS_ResetSent err (sfc_used fc) 0 (Some (ss_priority s)) 0 0\<rparr>
      | SS_Send fc b c \<Rightarrow> s\<lparr>ss_state := make_reset_state err (ss_priority s) b (sfc_used fc) c\<rparr>
      | SS_DataSent b _ _ c \<Rightarrow> s\<lparr>ss_state := make_reset_state err (ss_priority s) b (tx_used b) c\<rparr>
      | _ \<Rightarrow> s)"

definition drop_commitment :: "send_stream \<Rightarrow> send_stream" where
  "drop_commitment s =
     (case ss_state s of
        SS_Send fc b _ \<Rightarrow> s\<lparr>ss_state := SS_Send fc b 0\<rparr>
      | SS_DataSent b fs fa _ \<Rightarrow> s\<lparr>ss_state := SS_DataSent b fs fa 0\<rparr>
      | SS_ResetSentReliable b err fs _ p acked \<Rightarrow>
          s\<lparr>ss_state := if acked then SS_ResetRecvd (tx_retired b) (tx_buffered b)
                       else SS_ResetSent err fs 0 p (tx_retired b) (tx_buffered b)\<rparr>
      | _ \<Rightarrow> s)"

definition reset_acked :: "send_stream \<Rightarrow> send_stream" where
  "reset_acked s =
     (case ss_state s of
        SS_ResetSent _ _ _ _ r w \<Rightarrow> s\<lparr>ss_state := SS_ResetRecvd r w\<rparr>
      | SS_ResetSentReliable b err fs reliable_size p _ \<Rightarrow>
          s\<lparr>ss_state := if reliable_size \<le> tx_retired b then SS_ResetRecvd (tx_retired b) (tx_buffered b)
                       else SS_ResetSentReliable b err fs reliable_size p True\<rparr>
      | _ \<Rightarrow> s)"

definition reset_lost :: "send_stream \<Rightarrow> send_stream res" where
  "reset_lost s =
     (case ss_state s of
        SS_ResetSent err fs rs _ r w \<Rightarrow> Ok (s\<lparr>ss_state := SS_ResetSent err fs rs (Some (effective_priority s)) r w\<rparr>)
      | SS_ResetSentReliable b err fs rs _ a \<Rightarrow>
          Ok (s\<lparr>ss_state := SS_ResetSentReliable b err fs rs (Some (effective_priority s)) a\<rparr>)
      | SS_ResetRecvd _ _ \<Rightarrow> Ok s
      | _ \<Rightarrow> Panic)"

definition blocked_lost :: "send_stream \<Rightarrow> nat \<Rightarrow> send_stream" where
  "blocked_lost s limit =
     (case state_fc (ss_state s) of
        None \<Rightarrow> s
      | Some fc \<Rightarrow> s\<lparr>ss_state := set_state_fc (ss_state s) (sfc_frame_lost fc limit)\<rparr>)"

subsection \<open>What became of sent data\<close>

text \<open>The update of \<open>fin_sent\<close> in \<open>DataSent\<close>, given \<open>fin_acked\<close>.\<close>

definition set_fin_sent :: "send_stream \<Rightarrow> (bool \<Rightarrow> bool) \<Rightarrow> send_stream" where
  "set_fin_sent s f =
     (case ss_state s of SS_DataSent b _ fin_acked c \<Rightarrow> s\<lparr>ss_state := SS_DataSent b (f fin_acked) fin_acked c\<rparr> | _ \<Rightarrow> s)"

definition ss_mark_as_sent :: "send_stream \<Rightarrow> conn_sfc \<Rightarrow> nat \<Rightarrow> nat \<Rightarrow> bool \<Rightarrow> (send_stream \<times> conn_sfc) res" where
  "ss_mark_as_sent s cfc offset len fin =
     (let s1 = s\<lparr>bytes_sent := max (bytes_sent s) (offset + len)\<rparr>
      in bind_res
           (case tx_buf (ss_state s1) of
              None \<Rightarrow> Ok (s1, cfc)
            | Some b \<Rightarrow>
                bind_res (tx_mark_as_sent b offset len) (\<lambda>b'.
                  Ok (send_blocked_if_space_needed (s1\<lparr>ss_state := set_tx_buf (ss_state s1) b'\<rparr>) cfc 0)))
           (\<lambda>(s2, cfc2). Ok (if fin then set_fin_sent s2 (\<lambda>_. True) else s2, cfc2)))"

definition ss_mark_as_acked ::
    "send_stream \<Rightarrow> conn_sfc \<Rightarrow> ('t, 'a) events \<Rightarrow> nat \<Rightarrow> nat \<Rightarrow> bool \<Rightarrow> (send_stream \<times> ('t, 'a) events) res" where
  "ss_mark_as_acked s cfc q offset len fin =
     (case ss_state s of
        SS_Send fc b c \<Rightarrow>
          bind_res (tx_mark_as_acked b offset len) (\<lambda>b'.
            (let s' = s\<lparr>ss_state := SS_Send fc b' c\<rparr>
             in Ok (s', maybe_emit_writable_event s' cfc q (tx_avail b) (tx_avail b'))))
      | SS_DataSent b fs fa c \<Rightarrow>
          bind_res (tx_mark_as_acked b offset len) (\<lambda>b'.
            (let fa' = (fa \<or> fin)
             in if fa' \<and> tx_buffered b' = 0
                then Ok (s\<lparr>ss_state := SS_DataRecvd (tx_retired b') (tx_buffered b')\<rparr>, send_stream_complete q (ss_id s))
                else Ok (s\<lparr>ss_state := SS_DataSent b' fs fa' c\<rparr>, q)))
      | SS_ResetSentReliable b err fs reliable_size p acked \<Rightarrow>
          bind_res (tx_mark_as_acked b offset len) (\<lambda>b'.
            Ok (s\<lparr>ss_state :=
                   if reliable_size \<le> tx_retired b'
                   then if acked then SS_ResetRecvd (tx_retired b') (tx_buffered b')
                        else SS_ResetSent err fs reliable_size p (tx_retired b') (tx_buffered b')
                   else SS_ResetSentReliable b' err fs reliable_size p acked\<rparr>, q))
      | _ \<Rightarrow> Ok (s, q))"

definition ss_mark_as_lost :: "send_stream \<Rightarrow> nat \<Rightarrow> nat \<Rightarrow> bool \<Rightarrow> send_stream res" where
  "ss_mark_as_lost s offset len fin =
     (let s1 = s\<lparr>retransmission_offset := max (retransmission_offset s) (offset + len)\<rparr>
      in bind_res
           (case tx_buf (ss_state s1) of
              None \<Rightarrow> Ok s1
            | Some b \<Rightarrow> bind_res (tx_mark_as_lost b offset len) (\<lambda>b'. Ok (s1\<lparr>ss_state := set_tx_buf (ss_state s1) b'\<rparr>)))
           (\<lambda>s2. Ok (if fin then set_fin_sent s2 (\<lambda>fin_acked. fin_acked) else s2)))"

subsection \<open>Writing frames\<close>

definition ss_has_next_bytes :: "send_stream \<Rightarrow> bool \<Rightarrow> bool \<times> send_stream" where
  "ss_has_next_bytes s retransmission_only =
     (case ss_state s of
        SS_Send fc b c \<Rightarrow>
          (let (r, b') = (if retransmission_only then has_next_bytes_before b (retransmission_offset s) else tx_has_next_bytes b)
           in (r, s\<lparr>ss_state := SS_Send fc b' c\<rparr>))
      | SS_DataSent b fs fa c \<Rightarrow>
          (let (r, b') = tx_has_next_bytes b in (r \<or> \<not> fs, s\<lparr>ss_state := SS_DataSent b' fs fa c\<rparr>))
      | SS_ResetSentReliable b e fs reliable_size p a \<Rightarrow>
          (let limit = (if retransmission_only then min (retransmission_offset s) reliable_size else reliable_size);
               (r, b') = has_next_bytes_before b limit
           in (r, s\<lparr>ss_state := SS_ResetSentReliable b' e fs reliable_size p a\<rparr>))
      | _ \<Rightarrow> (False, s))"

text \<open>The priority at which \<open>STREAM\<close> frames are written, and whether only retransmissions are.\<close>

definition stream_priority :: "send_stream \<Rightarrow> transmission_priority \<Rightarrow> bool option" where
  "stream_priority s p = (if p = ss_priority s then Some False else if p = effective_priority s then Some True else None)"

definition has_data_at :: "send_stream \<Rightarrow> transmission_priority \<Rightarrow> bool \<times> send_stream" where
  "has_data_at s p =
     (case ss_state s of
        SS_ResetSent _ _ _ rp _ _ \<Rightarrow> (rp = Some p, s)
      | _ \<Rightarrow>
          if (case ss_state s of SS_ResetSentReliable _ _ _ _ rp _ \<Rightarrow> rp = Some p | _ \<Rightarrow> False) then (True, s)
          else if p = ss_priority s \<and> (case state_fc (ss_state s) of None \<Rightarrow> False | Some fc \<Rightarrow> is_blocked fc) then (True, s)
          else (case stream_priority s p of None \<Rightarrow> (False, s) | Some retransmission \<Rightarrow> ss_has_next_bytes s retransmission))"

text \<open>A slice is cut at \<open>limit\<close>; as everywhere, \<open>k\<close> is where the ring buffer is split.\<close>

definition cut_bytes :: "nat \<Rightarrow> (nat \<times> bytes) option \<Rightarrow> (nat \<times> bytes) option" where
  "cut_bytes limit r =
     (case r of
        None \<Rightarrow> None
      | Some (offset, slc) \<Rightarrow>
          if offset < limit then Some (offset, take (min (limit - offset) (length slc)) slc) else None)"

definition ss_next_bytes :: "nat \<Rightarrow> send_stream \<Rightarrow> bool \<Rightarrow> ((nat \<times> bytes) option \<times> send_stream) res" where
  "ss_next_bytes k s retransmission_only =
     (case ss_state s of
        SS_Send fc b c \<Rightarrow>
          bind_res (tx_next_bytes k b) (\<lambda>(r, b').
            Ok (if retransmission_only then cut_bytes (retransmission_offset s) r else r, s\<lparr>ss_state := SS_Send fc b' c\<rparr>))
      | SS_DataSent b fs fa c \<Rightarrow>
          bind_res (tx_next_bytes k b) (\<lambda>(r, b').
            Ok (if r \<noteq> None then r else if fs then None else Some (tx_used b, []), s\<lparr>ss_state := SS_DataSent b' fs fa c\<rparr>))
      | SS_ResetSentReliable b e fs reliable_size p a \<Rightarrow>
          (let limit = (if retransmission_only then min (retransmission_offset s) reliable_size else reliable_size)
           in bind_res (tx_next_bytes k b) (\<lambda>(r, b').
                Ok (cut_bytes limit r, s\<lparr>ss_state := SS_ResetSentReliable b' e fs reliable_size p a\<rparr>)))
      | _ \<Rightarrow> Ok (None, s))"

definition length_and_fill :: "nat \<Rightarrow> nat \<Rightarrow> (nat \<times> bool) res" where
  "length_and_fill data_len space =
     (if space \<le> data_len then Ok (space, True)
      else
        bind_res (varint_len (min (space - 1) data_len)) (\<lambda>length_len.
          assert_res (length_len \<le> space)
            (Ok (data_len, space < data_len + length_len + MINIMUM_FRAME_SIZE))))"

text \<open>The frame that \<open>write_stream_frame\<close> writes, into a builder with room for its header.\<close>

definition put_stream_frame ::
    "'b Buffer \<Rightarrow> 'b builder \<Rightarrow> stream_id \<Rightarrow> nat \<Rightarrow> bytes \<Rightarrow> bool \<Rightarrow> bool \<Rightarrow> nat \<Rightarrow> ('b builder) res" where
  "put_stream_frame B b i offset data fin fill overhead =
     bind_res (if fill then pad_before B b (overhead + length data) else Ok b) (\<lambda>b1.
     bind_res (encode_frame B (b_enc b1) (frame_type_code (frame_stream_type fin (0 < offset) fill)) (\<lambda>e.
        bind_res (encode_varint B e (word_of_nat i)) (\<lambda>e1.
        bind_res (if 0 < offset then encode_varint B e1 (word_of_nat offset) else Ok e1) (\<lambda>e2.
          if fill then encode B e2 data else encode_vvec B e2 data)))) (\<lambda>e.
       (let b2 = b1\<lparr>b_enc := e\<rparr>;
            b3 = (if fill then mark_full B b2 else b2)
        in assert_res (builder_len B b3 \<le> b_limit b3) (Ok b3))))"

definition write_stream_frame ::
    "'b Buffer \<Rightarrow> nat \<Rightarrow> send_stream \<Rightarrow> conn_sfc \<Rightarrow> transmission_priority \<Rightarrow> 'b builder \<Rightarrow> tokens
      \<Rightarrow> (send_stream \<times> conn_sfc \<times> 'b builder \<times> tokens) res" where
  "write_stream_frame B k s cfc p b ts =
     (case stream_priority s p of
        None \<Rightarrow> Ok (s, cfc, b, ts)
      | Some retransmission \<Rightarrow>
          (let fin_offset = (case ss_state s of SS_DataSent tb _ _ _ \<Rightarrow> Some (tx_used tb) | _ \<Rightarrow> None)
           in bind_res (ss_next_bytes k s retransmission) (\<lambda>(r, s1).
                case r of
                  None \<Rightarrow> Ok (s1, cfc, b, ts)
                | Some (offset, data) \<Rightarrow>
                    bind_res (varint_len (ss_id s)) (\<lambda>id_len.
                    bind_res (if 0 < offset then varint_len offset else Ok 0) (\<lambda>offset_len.
                      (let overhead = 1 + id_len + offset_len
                       in if builder_remaining B b < overhead then Ok (s1, cfc, b, ts)
                          else
                            bind_res (length_and_fill (length data) (builder_remaining B b - overhead)) (\<lambda>(len, fill).
                              (let fin = (fin_offset = Some (offset + len))
                               in if len = 0 \<and> \<not> fin then Ok (s1, cfc, b, ts)
                                  else
                                    bind_res (put_stream_frame B b (ss_id s) offset (take len data) fin fill overhead) (\<lambda>b'.
                                    bind_res (ss_mark_as_sent s1 cfc offset len fin) (\<lambda>(s2, cfc2).
                                      assert_res (len < 2 ^ 32)
                                        (Ok (s2, cfc2, b', ts @ [Tok_Stream (SRT_Stream
                                          \<lparr>rt_id = ss_id s, rt_offset = offset, rt_length = len, rt_fin = fin\<rparr>)]))))))))))))"

text \<open>The \<open>RESET_STREAM\<close> or \<open>RESET_STREAM_AT\<close> frame, and whether nothing is to follow.\<close>

definition put_reset_frame ::
    "'b Buffer \<Rightarrow> 'b builder \<Rightarrow> stream_id \<Rightarrow> app_error \<Rightarrow> nat \<Rightarrow> nat \<Rightarrow> (bool \<times> 'b builder) res" where
  "put_reset_frame B b i err fs reliable_size =
     (if reliable_size = 0 then write_varint_frame B b [frame_type_code FT_ResetStream, i, err, fs]
      else write_varint_frame B b [frame_type_code FT_ResetStreamAt, i, err, fs, reliable_size])"

definition write_reset_frame ::
    "'b Buffer \<Rightarrow> send_stream \<Rightarrow> transmission_priority \<Rightarrow> 'b builder \<Rightarrow> tokens
      \<Rightarrow> (bool \<times> send_stream \<times> 'b builder \<times> tokens) res" where
  "write_reset_frame B s p b ts =
     (case ss_state s of
        SS_ResetSent err fs rs rp r w \<Rightarrow>
          if rp \<noteq> Some p then Ok (False, s, b, ts)
          else
            bind_res (put_reset_frame B b (ss_id s) err fs rs) (\<lambda>(written, b').
              if written
              then Ok (True, s\<lparr>ss_state := SS_ResetSent err fs rs None r w\<rparr>, b', ts @ [Tok_Stream (SRT_ResetStream (ss_id s))])
              else Ok (False, s, b', ts))
      | SS_ResetSentReliable tb err fs rs rp a \<Rightarrow>
          if rp \<noteq> Some p then Ok (False, s, b, ts)
          else
            bind_res (put_reset_frame B b (ss_id s) err fs rs) (\<lambda>(written, b').
              if written
              then Ok (False, s\<lparr>ss_state := SS_ResetSentReliable tb err fs rs None a\<rparr>, b',
                       ts @ [Tok_Stream (SRT_ResetStream (ss_id s))])
              else Ok (False, s, b', ts))
      | _ \<Rightarrow> Ok (False, s, b, ts))"

definition write_blocked_frame ::
    "'b Buffer \<Rightarrow> send_stream \<Rightarrow> transmission_priority \<Rightarrow> 'b builder \<Rightarrow> tokens \<Rightarrow> (send_stream \<times> 'b builder \<times> tokens) res" where
  "write_blocked_frame B s p b ts =
     (case state_fc (ss_state s) of
        None \<Rightarrow> Ok (s, b, ts)
      | Some fc \<Rightarrow>
          if p = ss_priority s
          then bind_res (stream_sfc_write_frames B fc b ts) (\<lambda>(fc', b', ts').
                 Ok (s\<lparr>ss_state := set_state_fc (ss_state s) fc'\<rparr>, b', ts'))
          else Ok (s, b, ts))"

definition ss_write_frames ::
    "'b Buffer \<Rightarrow> nat \<Rightarrow> send_stream \<Rightarrow> conn_sfc \<Rightarrow> transmission_priority \<Rightarrow> 'b builder \<Rightarrow> tokens
      \<Rightarrow> (bool \<times> send_stream \<times> conn_sfc \<times> 'b builder \<times> tokens) res" where
  "ss_write_frames B k s cfc p b ts =
     bind_res (write_reset_frame B s p b ts) (\<lambda>(done, s1, b1, ts1).
       if done then Ok (True, s1, cfc, b1, ts1)
       else
         bind_res (write_blocked_frame B s1 p b1 ts1) (\<lambda>(s2, b2, ts2).
           if is_full B b2 then Ok (False, s2, cfc, b2, ts2)
           else
             bind_res (write_stream_frame B k s2 cfc p b2 ts2) (\<lambda>(s3, cfc3, b3, ts3).
               Ok (\<not> is_full B b3, s3, cfc3, b3, ts3))))"

end
