(* ===== verification/Range_Spec.thy ===== *)
theory Range_Spec
  imports Range_Tracker
begin

text \<open>
  What \<open>RangeTracker\<close> implements: a state for every offset of the stream, that sending, acknowledging and losing a range of
  offsets changes pointwise.
\<close>

subsection \<open>Ranges\<close>

definition re :: "nat \<times> nat \<times> range_state \<Rightarrow> nat" where
  "re e = fst e + fst (snd e)"

definition is_acked :: "nat \<times> nat \<times> range_state \<Rightarrow> bool" where
  "is_acked e \<longleftrightarrow> snd (snd e) = Range_Acked"

lemma re_simps [simp]: "re (k, n, s) = k + n" "is_acked (k, n, s) \<longleftrightarrow> s = Range_Acked"
  by (simp_all add: re_def is_acked_def)

text \<open>One range lies before another; acknowledged ranges are never adjacent.\<close>

definition before :: "nat \<times> nat \<times> range_state \<Rightarrow> nat \<times> nat \<times> range_state \<Rightarrow> bool" where
  "before e e' \<longleftrightarrow> re e \<le> fst e' \<and> (is_acked e \<and> is_acked e' \<longrightarrow> re e < fst e')"

definition map_ok :: "ranges \<Rightarrow> bool" where
  "map_ok m \<longleftrightarrow> sorted_wrt before m \<and> (\<forall>e\<in>set m. fst e < re e)"

text \<open>The state of an offset.\<close>

fun st_at :: "ranges \<Rightarrow> nat \<Rightarrow> range_state option" where
  "st_at [] x = None"
| "st_at (e # m) x = (if fst e \<le> x \<and> x < re e then Some (snd (snd e)) else st_at m x)"

lemma map_ok_simps [simp]:
  "map_ok []" "map_ok (e # m) \<longleftrightarrow> fst e < re e \<and> (\<forall>e'\<in>set m. before e e') \<and> map_ok m"
  by (auto simp: map_ok_def)

lemma map_ok_append:
  "map_ok (m @ m') \<longleftrightarrow> map_ok m \<and> map_ok m' \<and> (\<forall>e\<in>set m. \<forall>e'\<in>set m'. before e e')"
  by (auto simp: map_ok_def sorted_wrt_append)

lemma st_at_append: "st_at (m @ m') x = (case st_at m x of None \<Rightarrow> st_at m' x | Some s \<Rightarrow> Some s)"
  by (induction m) auto

lemma st_at_outside: "\<forall>e\<in>set m. x < fst e \<or> re e \<le> x \<Longrightarrow> st_at m x = None"
  by (induction m) fastforce+

lemma beforeD: "before e e' \<Longrightarrow> re e \<le> fst e'"
  by (simp add: before_def)

lemma map_ok_pos: "map_ok m \<Longrightarrow> e \<in> set m \<Longrightarrow> fst e < re e"
  by (simp add: map_ok_def)

lemma map_ok_bt_ok: "map_ok m \<Longrightarrow> bt_ok m"
  by (induction m) (auto dest!: beforeD intro: order.strict_trans2)

lemma st_at_Some: "st_at m x = Some s \<Longrightarrow> \<exists>e\<in>set m. fst e \<le> x \<and> x < re e \<and> snd (snd e) = s"
  by (induction m) (auto split: if_splits)

lemma st_at_mem: "map_ok m \<Longrightarrow> e \<in> set m \<Longrightarrow> fst e \<le> x \<Longrightarrow> x < re e \<Longrightarrow> st_at m x = Some (snd (snd e))"
  by (induction m) (auto dest!: beforeD)

text \<open>The part of the map that lies in an interval.\<close>

lemma split_range:
  assumes "bt_ok (m :: ranges)" "a \<le> b"
  obtains l c u where "m = l @ c @ u" "\<forall>e\<in>set l. fst e < a" "\<forall>e\<in>set c. a \<le> fst e \<and> fst e < b" "\<forall>e\<in>set u. b \<le> fst e"
    "bt_below b (bt_from a m) = c"
proof
  let ?l = "filter (\<lambda>e. fst e < a) m" and ?f = "bt_from a m"
  have f: "?f = filter (\<lambda>e. a \<le> fst e) m" "bt_ok ?f"
    using bt_from_split [OF assms(1)] bt_ok_filter [OF assms(1)] by simp_all
  show "m = ?l @ bt_below b ?f @ bt_from b ?f"
    using bt_below_split [OF assms(1), of a] takeWhile_dropWhile_id [of "\<lambda>e. fst e < a" m]
    by (simp add: bt_below_def bt_from_def)
  show "\<forall>e\<in>set ?l. fst e < a" "\<forall>e\<in>set (bt_below b ?f). a \<le> fst e \<and> fst e < b" "\<forall>e\<in>set (bt_from b ?f). b \<le> fst e"
    using f by (auto simp: bt_below_split bt_from_split)
qed simp

lemma remove_all_keys: "remove_all ks m = filter (\<lambda>e. fst e \<notin> set ks) m"
  by (induction ks arbitrary: m) (auto simp: remove_all_def bt_remove_def intro: filter_cong)

lemma remove_covered:
  assumes "\<forall>e\<in>set l. fst e < a" "\<forall>e\<in>set c. a \<le> fst e \<and> fst e < b" "\<forall>e\<in>set u. b \<le> fst e"
  shows "remove_all (map fst c) (l @ c @ u) = l @ u" "remove_all (map fst c) (l @ u) = l @ u"
proof -
  have "filter (\<lambda>e. fst e \<notin> fst ` set c) l = l" "filter (\<lambda>e. fst e \<notin> fst ` set c) u = u" "filter (\<lambda>e. fst e \<notin> fst ` set c) c = []"
    using assms by (fastforce simp: filter_id_conv filter_empty_conv)+
  then show "remove_all (map fst c) (l @ c @ u) = l @ u" "remove_all (map fst c) (l @ u) = l @ u"
    by (simp_all add: remove_all_keys)
qed

lemma bt_get_append:
  "bt_get (m @ m') k = (case bt_get m k of None \<Rightarrow> bt_get m' k | Some v \<Rightarrow> Some v)"
  by (simp add: bt_get_def map_add_def split: option.split)

lemma bt_get_notin: "\<forall>e\<in>set m. fst e \<noteq> k \<Longrightarrow> bt_get m k = None"
  by (auto simp: bt_get_def map_of_eq_None_iff)

lemma bt_get_Cons [simp]: "bt_get ((k', v) # m) k = (if k = k' then Some v else bt_get m k)" "bt_get [] k = None"
  by (auto simp: bt_get_def)

lemma bt_get_head:
  assumes "bt_ok u" "\<forall>e\<in>set u. k \<le> fst e" "bt_get u k = Some v"
  obtains u' where "u = (k, v) # u'"
proof (cases u)
  case (Cons e u')
  have "(k, v) \<in> set u"
    using assms(3) by (auto simp: bt_get_def dest: map_of_SomeD)
  then have "e = (k, v)"
    using assms(1,2) Cons by fastforce
  then show ?thesis
    using Cons that by simp
qed (use assms in simp)

lemma bt_get_None: "bt_get u k = None \<Longrightarrow> e \<in> set u \<Longrightarrow> fst e \<noteq> k"
  by (auto simp: bt_get_def map_of_eq_None_iff)

subsection \<open>Acknowledging\<close>

text \<open>
  What \<open>acked_tail\<close> leaves behind the new range: the ranges that start within it are gone, and what it was extended by was acknowledged
  before.
\<close>

definition tail_ok :: "ranges \<Rightarrow> ranges \<Rightarrow> nat \<Rightarrow> nat \<Rightarrow> ranges \<Rightarrow> nat \<Rightarrow> bool" where
  "tail_ok l m off len u' n \<longleftrightarrow> map_ok (l @ u') \<and> len \<le> n
     \<and> (\<forall>e\<in>set u'. off + n \<le> fst e \<and> (is_acked e \<longrightarrow> off + n < fst e))
     \<and> (\<forall>x. off + len \<le> x \<longrightarrow> (if x < off + n then st_at m x = Some Range_Acked else st_at (l @ u') x = st_at m x))"

lemma acked_tail_covered:
  fixes c0 :: ranges
  assumes ok: "map_ok (l @ c @ u)" and c: "c = c0 @ [(k, ol, os)]" and l: "\<forall>e\<in>set l. fst e < off"
    and cs: "\<forall>e\<in>set c. off \<le> fst e \<and> fst e < off + len" and u: "\<forall>e\<in>set u. off + len < fst e"
    and cov: "bt_below (off + len) (bt_from off (l @ c @ u)) = c" and none: "bt_get (l @ c @ u) (off + len) = None"
  shows "\<exists>u' n. acked_tail (l @ c @ u) off len = Ok (l @ u', n) \<and> tail_ok l (l @ c @ u) off len u' n"
proof -
  let ?e = "off + len"
  define r where "r = k + ol - ?e"
  have k: "off \<le> k" "k < ?e" "0 < ol" "\<forall>e\<in>set u. k + ol \<le> fst e"
    using c cs ok by (auto simp: map_ok_append before_def)
  have "\<forall>e\<in>set (l @ c0). re e \<le> k" and pos: "\<forall>e\<in>set (l @ c0). fst e < re e"
    using ok by (auto simp: c map_ok_append before_def dest: map_ok_pos)
  then have lc: "\<forall>e\<in>set (l @ c0). fst e < k \<and> re e \<le> ?e"
    using k(2) by (metis less_imp_le order.strict_trans2 order.trans)
  then have l': "st_at l x = None \<and> st_at c0 x = None" if "?e \<le> x" for x
    using that by (intro conjI st_at_outside) (auto intro: order.trans)
  have "bt_get (l @ c0) k = None" "bt_remove k (l @ c0) = l @ c0" "bt_remove k u = u"
    using lc k by (intro bt_get_notin bt_remove_notin; fastforce)+
  then have gk: "bt_get (l @ c @ u) k = Some (ol, os)" and rk: "bt_remove k (l @ c @ u) = l @ c0 @ u"
    by (simp_all add: c bt_get_append split: option.splits)
  have rc: "remove_all (map fst c0) (l @ c0 @ u'') = l @ u''" if "\<forall>e\<in>set u''. ?e \<le> fst e" for u''
    using l cs c that by (intro remove_covered [of l off c0 ?e]) auto
  have ru: "remove_all (map fst c0) (l @ c0 @ u) = l @ u"
    "remove_all (map fst c0) (l @ c0 @ (?e, r, Range_Sent) # u) = l @ (?e, r, Range_Sent) # u"
    using u by (intro rc; force)+
  have "\<forall>e\<in>set (l @ c0). fst e < ?e"
    using lc k(2) by (meson order.strict_trans)
  then have ins: "bt_insert ?e v (l @ c0 @ u) = l @ c0 @ (?e, v) # u" for v
    using bt_insert_between [of "l @ c0" ?e u v] u by simp
  have bl: "last (map fst c) = k" "butlast (map fst c) = map fst c0" "c \<noteq> []"
    by (simp_all add: c map_butlast [symmetric])
  have t: "acked_tail (l @ c @ u) off len
      = (if 0 < r then if os = Range_Acked then Ok (l @ u, len + r) else Ok (l @ (?e, r, Range_Sent) # u, len) else Ok (l @ u, len))"
    unfolding acked_tail_def Let_def cov bl none gk rk option.case prod.case r_def [symmetric] ins ru using bl(3) by simp
  show ?thesis
  proof (cases "0 < r")
    case True
    then have kr: "k + ol = ?e + r"
      by (simp add: r_def)
    have "tail_ok l (l @ c @ u) off len ((?e, r, Range_Sent) # u) len" if "os = Range_Sent"
      using that ok c l' k kr u True by (auto simp: tail_ok_def map_ok_append before_def st_at_append)
    moreover have "tail_ok l (l @ c @ u) off len u (len + r)" if "os = Range_Acked"
      using that ok c l' k kr u True by (auto simp: tail_ok_def map_ok_append before_def st_at_append)
    ultimately show ?thesis
      using t True by (cases os) auto
  next
    case False
    then have "tail_ok l (l @ c @ u) off len u len"
      using ok c l' k u by (auto simp: r_def tail_ok_def map_ok_append before_def st_at_append)
    then show ?thesis
      using t False by auto
  qed
qed

lemma acked_tail_ok:
  assumes ok: "map_ok (l @ c @ u)" and l: "\<forall>e\<in>set l. fst e < off" and c: "\<forall>e\<in>set c. off \<le> fst e \<and> fst e < off + len"
    and u: "\<forall>e\<in>set u. off + len \<le> fst e" and cov: "bt_below (off + len) (bt_from off (l @ c @ u)) = c" and len: "0 < len"
  shows "\<exists>u' n. acked_tail (l @ c @ u) off len = Ok (l @ u', n) \<and> tail_ok l (l @ c @ u) off len u' n"
proof -
  let ?e = "off + len"
  note rem = remove_covered [OF l c u]
  have "bt_get l ?e = None" "bt_get c ?e = None"
    using l c len by (intro bt_get_notin; fastforce)+
  then have get: "bt_get (l @ c @ u) ?e = bt_get u ?e"
    by (simp add: bt_get_append)
  show ?thesis
  proof (cases "bt_get u ?e")
    case (Some v)
    obtain extra s where v: "v = (extra, s)" by (cases v)
    have "bt_ok u"
      using ok by (simp add: map_ok_append map_ok_bt_ok)
    then obtain u2 where u2: "u = (?e, extra, s) # u2"
      using bt_get_head u Some v by metis
    have l': "st_at l x = None" "st_at c x = None" if "?e \<le> x" for x
      using ok u2 that by (intro st_at_outside; fastforce simp: map_ok_append dest: beforeD)+
    show ?thesis
    proof (cases s)
      case Range_Acked
      have "\<forall>e\<in>set u2. ?e + extra \<le> fst e" "0 < extra"
        using ok u2 by (auto simp: map_ok_append before_def)
      then have "bt_remove ?e l = l" "bt_remove ?e c = c" "bt_remove ?e u2 = u2"
        using l c len by (intro bt_remove_notin; fastforce)+
      then have "bt_remove ?e (l @ c @ u) = l @ c @ u2"
        using u2 by simp
      moreover have "remove_all (map fst c) (l @ c @ u2) = l @ u2"
        using l c u u2 by (intro remove_covered [of l off c ?e]) auto
      moreover have "tail_ok l (l @ c @ u) off len u2 (len + extra)"
        using ok u2 Range_Acked l' by (auto simp: tail_ok_def map_ok_append before_def st_at_append)
      ultimately show ?thesis
        using Some get v cov Range_Acked by (auto simp: acked_tail_def Let_def)
    next
      case Range_Sent
      have "tail_ok l (l @ c @ u) off len u len"
        using ok u2 Range_Sent l' by (auto simp: tail_ok_def map_ok_append before_def st_at_append)
      then show ?thesis
        using Some get v cov rem(1) Range_Sent by (auto simp: acked_tail_def Let_def)
    qed
  next
    case None
    then have u1: "\<forall>e\<in>set u. ?e < fst e"
      using u bt_get_None by (metis le_neq_implies_less)
    show ?thesis
    proof (cases c rule: rev_cases)
      case Nil
      then show ?thesis
        using None get cov ok u1 by (auto simp: acked_tail_def tail_ok_def Let_def intro!: exI [of _ u])
    next
      case (snoc c0 e)
      obtain k ol os where "e = (k, ol, os)" by (cases e)
      then show ?thesis
        using acked_tail_covered [of l c u c0 k ol os off len] snoc ok l c u1 cov None get by simp
    qed
  qed
qed

text \<open>The new range between what precedes and what follows it.\<close>

definition above :: "nat \<Rightarrow> ranges \<Rightarrow> bool" where
  "above a m \<longleftrightarrow> (\<forall>e\<in>set m. a \<le> fst e \<and> (is_acked e \<longrightarrow> a < fst e))"

lemma above_simps [simp]:
  "above a []" "above a (e # m) \<longleftrightarrow> a \<le> fst e \<and> (is_acked e \<longrightarrow> a < fst e) \<and> above a m"
  "above a (m @ m') \<longleftrightarrow> above a m \<and> above a m'"
  by (auto simp: above_def)

lemma aboveI: "\<forall>e\<in>set m. a < fst e \<Longrightarrow> above a m"
  by (simp add: above_def less_imp_le)

lemma acked_head_ok:
  assumes ok: "map_ok (l @ u)" and l: "\<forall>e\<in>set l. fst e < off" and n: "0 < n"
    and u: "\<forall>e\<in>set u. off + n \<le> fst e \<and> (is_acked e \<longrightarrow> off + n < fst e)"
  shows "map_ok (acked_head (l @ u) off n)"
    "st_at (acked_head (l @ u) off n) x = (if off \<le> x \<and> x < off + n then Some Range_Acked else st_at (l @ u) x)"
    "above a l \<Longrightarrow> a < off \<Longrightarrow> above a (acked_head (l @ u) off n)"
proof -
  let ?R = "\<lambda>m. map_ok m \<and> st_at m x = (if off \<le> x \<and> x < off + n then Some Range_Acked else st_at (l @ u) x)
      \<and> (above a l \<and> a < off \<longrightarrow> above a m)"
  have below: "bt_below off (l @ u) = l"
    using bt_below_append [of l off u] l u n by (cases u) (auto simp: bt_below_def)
  have u1: "\<forall>e\<in>set u. off < fst e"
    using u n by fastforce
  then have au: "above a u" if "a < off"
    using that by (intro aboveI) fastforce
  have ins: "bt_insert off v (l @ u) = l @ (off, v) # u" for v
    using bt_insert_between [of l off u v] l u1 by blast
  have ux: "st_at u x = None" if "x < off + n"
    using u that by (intro st_at_outside) fastforce
  have plain: "?R (l @ (off, n, Range_Acked) # u)" if "\<forall>e\<in>set l. re e \<le> off \<and> (is_acked e \<longrightarrow> re e < off)"
  proof -
    have "st_at l x = None" if "off \<le> x"
      using \<open>\<forall>e\<in>set l. re e \<le> off \<and> (is_acked e \<longrightarrow> re e < off)\<close> that by (intro st_at_outside) fastforce
    then show ?thesis
      using ok that u ux n au by (auto simp: map_ok_append before_def st_at_append split: option.split)
  qed
  have "?R (acked_head (l @ u) off n)"
  proof (cases l rule: rev_cases)
    case Nil
    then show ?thesis
      using plain below ins by (simp add: acked_head_def Let_def)
  next
    case (snoc l0 p)
    obtain po pl ps where p: "p = (po, pl, ps)" by (cases p)
    define pe where "pe = po + pl"
    have l0: "l = l0 @ [(po, pl, ps)]" and po: "po < off" "po < pe" "\<forall>e\<in>set l0. re e \<le> po \<and> (is_acked e \<and> ps = Range_Acked \<longrightarrow> re e < po)"
        "\<forall>e\<in>set u. pe \<le> fst e \<and> (ps = Range_Acked \<and> is_acked e \<longrightarrow> pe < fst e)"
      using snoc p ok l by (auto simp: pe_def map_ok_append before_def)
    show ?thesis
    proof (cases "off \<le> pe")
      case False
      then have "\<forall>e\<in>set l. re e \<le> off \<and> (is_acked e \<longrightarrow> re e < off)"
        using l0 po by (fastforce simp: pe_def)
      then show ?thesis
        using plain below ins False l0 by (simp add: acked_head_def Let_def pe_def)
    next
      case True
      have keys: "\<forall>e\<in>set l0. fst e < po" "\<forall>e\<in>set u. po < fst e"
        using ok l0 u1 po by (fastforce simp: map_ok_append before_def dest: map_ok_pos)+
      have mod: "bt_modify po g (l @ u) = l0 @ (po, g (pl, ps)) # u" for g
        using bt_modify_last [of l0 po u g "(pl, ps)"] keys by (force simp: l0)
      have l0x: "st_at l0 x = None" if "po \<le> x"
        using po(3) that by (intro st_at_outside) fastforce
      show ?thesis
      proof (cases ps)
        case Range_Acked
        then have "acked_head (l @ u) off n = l0 @ (po, max pe (off + n) - po, Range_Acked) # u"
          using below l0 True mod by (simp add: acked_head_def Let_def pe_def)
        then show ?thesis
          using ok l0 po u ux Range_Acked True l0x l au
          by (auto simp: pe_def map_ok_append before_def st_at_append max_def split: option.split)
      next
        case Range_Sent
        define t where "t = (if off + n < pe then [(off + n, pe - (off + n), Range_Sent)] else [])"
        have "bt_insert (off + n) v (l0 @ (po, w) # u) = l0 @ (po, w) # (off + n, v) # u" if "off + n < pe" for v w
          using bt_insert_between [of "l0 @ [(po, w)]" "off + n" u v] keys po that by force
        moreover have "bt_insert off v (l0 @ (po, w) # t @ u) = l0 @ (po, w) # (off, v) # t @ u" for v w
          using bt_insert_between [of "l0 @ [(po, w)]" off "t @ u" v] keys po u1 n by (force simp: t_def)
        ultimately have "acked_head (l @ u) off n = l0 @ (po, off - po, Range_Sent) # (off, n, Range_Acked) # t @ u"
          using below l0 True mod Range_Sent by (auto simp: acked_head_def Let_def pe_def t_def)
        then show ?thesis
          using ok l0 po u ux Range_Sent True l0x l n au
          by (auto simp: t_def pe_def map_ok_append before_def st_at_append split: option.split)
      qed
    qed
  qed
  then show "map_ok (acked_head (l @ u) off n)"
    "st_at (acked_head (l @ u) off n) x = (if off \<le> x \<and> x < off + n then Some Range_Acked else st_at (l @ u) x)"
    "above a l \<Longrightarrow> a < off \<Longrightarrow> above a (acked_head (l @ u) off n)"
    by auto
qed

text \<open>The state of every offset of the stream, and the invariant of the tracker.\<close>

definition status :: "range_tracker \<Rightarrow> nat \<Rightarrow> range_state option" where
  "status t x = (if x < rt_acked t then Some Range_Acked else st_at (rt_used t) x)"

definition rt_ok :: "range_tracker \<Rightarrow> bool" where
  "rt_ok t \<longleftrightarrow> map_ok (rt_used t) \<and> above (rt_acked t) (rt_used t)
     \<and> (case first_unmarked t of None \<Rightarrow> True | Some r \<Rightarrow> r = unmarked_loop (rt_acked t) (rt_used t))"

lemma rt_ok_default: "rt_ok range_tracker_default" "status range_tracker_default x = None"
  by (simp_all add: rt_ok_def range_tracker_default_def above_def status_def)

lemma coalesce_loop_ok:
  assumes "map_ok m" "coalesce_loop a m = (a', m')"
  shows "map_ok m' \<and> above a' m' \<and> a \<le> a'
    \<and> (if x < a' then Some Range_Acked else st_at m' x) = (if x < a then Some Range_Acked else st_at m x)"
  using assms
proof (induction a m arbitrary: a' m' rule: coalesce_loop.induct)
  case (2 a off len state m)
  have m: "map_ok m" "0 < len" "\<forall>e\<in>set m. off + len \<le> fst e \<and> (state = Range_Acked \<and> is_acked e \<longrightarrow> off + len < fst e)"
    using 2(2) by (auto simp: before_def)
  have mx: "st_at m x = None" if "x < off + len"
    using m(3) that by (intro st_at_outside) fastforce
  consider (past) "off < a" "off + len \<le> a" | (over) "off < a" "a < off + len" | "off = a" | "a < off"
    by linarith
  then show ?case
  proof cases
    case past
    then show ?thesis
      using 2 m by auto
  next
    case over
    have "\<forall>e\<in>set m. a < fst e"
      using over m(3) by fastforce
    then have "bt_insert a v m = (a, v) # m" "above a m" for v
      using bt_insert_between [of "[]" a m v] by (simp_all add: aboveI)
    then show ?thesis
      using 2(3) m mx over by (cases state) (auto simp: before_def above_def [of "off + len"])
  next
    case 3
    then have "above a m" "state = Range_Acked \<Longrightarrow> above (a + len) m"
      using m(2,3) by (intro aboveI, fastforce, simp add: above_def)
    then show ?thesis
      using 3 2(3) m mx by (cases state) (auto simp: before_def)
  next
    case 4
    then show ?thesis
      using 2(3) m by (fastforce simp: above_def before_def)
  qed
qed (auto simp: above_def)

lemma mark_acked_ok:
  assumes ok: "rt_ok t"
  obtains t' where "mark_acked t off len = Ok t'" "rt_ok t'" "rt_acked t \<le> rt_acked t'"
    "\<And>x. status t' x = (if off \<le> x \<and> x < off + len then Some Range_Acked else status t x)"
proof -
  define a where "a = max (rt_acked t) off"
  define n where "n = off + len - a"
  let ?t = "t\<lparr>first_unmarked := None\<rparr>"
  have m: "map_ok (rt_used t)" "above (rt_acked t) (rt_used t)"
    using ok by (simp_all add: rt_ok_def)
  have eq: "mark_acked t off len = (if n = 0 then Ok t else if a = rt_acked t then Ok (coalesce_acked (?t\<lparr>rt_acked := rt_acked t + n\<rparr>))
      else bind_res (acked_tail (rt_used t) a n) (\<lambda>(m, k). Ok (?t\<lparr>rt_used := acked_head m a k\<rparr>)))"
    by (simp add: mark_acked_def Let_def a_def n_def)
  consider "n = 0" | (front) "0 < n" "a = rt_acked t" | (middle) "0 < n" "rt_acked t < a" "a = off"
    by (cases "n = 0"; cases "off \<le> rt_acked t") (auto simp: a_def)
  then show ?thesis
  proof cases
    case 1
    then have "status t x = (if off \<le> x \<and> x < off + len then Some Range_Acked else status t x)" for x
      by (auto simp: status_def n_def a_def max_def split: if_splits)
    then show ?thesis
      using that [of t] ok eq 1 by simp
  next
    case front
    obtain a' m' where c: "coalesce_loop (rt_acked t + n) (rt_used t) = (a', m')" by force
    have "status (?t\<lparr>rt_acked := a', rt_used := m'\<rparr>) x = (if off \<le> x \<and> x < off + len then Some Range_Acked else status t x)" for x
      using coalesce_loop_ok [OF m(1) c, of x] front by (auto simp: status_def n_def a_def split: if_splits)
    moreover have "map_ok m'" "above a' m'" "rt_acked t \<le> a'"
      using coalesce_loop_ok [OF m(1) c, of 0] by simp_all
    ultimately show ?thesis
      using that [of "?t\<lparr>rt_acked := a', rt_used := m'\<rparr>"] front c by (simp add: eq coalesce_acked_def rt_ok_def)
  next
    case middle
    obtain l c u where s: "rt_used t = l @ c @ u" "\<forall>e\<in>set l. fst e < a" "\<forall>e\<in>set c. a \<le> fst e \<and> fst e < a + n"
        "\<forall>e\<in>set u. a + n \<le> fst e" and cov: "bt_below (a + n) (bt_from a (rt_used t)) = c"
      by (rule split_range [OF map_ok_bt_ok [OF m(1)] le_add1])
    then obtain u' k where k: "acked_tail (rt_used t) a n = Ok (l @ u', k)" "tail_ok l (l @ c @ u) a n u' k"
      using acked_tail_ok [of l c u a n] m(1) cov middle(1) by auto
    define m' where "m' = acked_head (l @ u') a k"
    have u': "map_ok (l @ u')" "0 < k" "\<forall>e\<in>set u'. a + k \<le> fst e \<and> (is_acked e \<longrightarrow> a + k < fst e)"
      using k(2) middle(1) by (auto simp: tail_ok_def)
    note h = acked_head_ok [OF u'(1) s(2) u'(2,3)]
    have "status (?t\<lparr>rt_used := m'\<rparr>) x = (if off \<le> x \<and> x < off + len then Some Range_Acked else status t x)" for x
    proof -
      have "st_at (l @ u') x = st_at (l @ c @ u) x" if "x < a"
      proof -
        have "st_at u' x = None" "st_at (c @ u) x = None"
          using u'(3) s(3,4) that by (intro st_at_outside; fastforce)+
        then show ?thesis
          by (cases "st_at l x") (simp_all add: st_at_append [of l])
      qed
      moreover have "if x < a + k then st_at (l @ c @ u) x = Some Range_Acked else st_at (l @ u') x = st_at (l @ c @ u) x" if "a + n \<le> x"
        using k(2) that by (simp add: tail_ok_def)
      moreover have "n \<le> k" "a + n = off + len"
        using k(2) middle by (simp_all add: tail_ok_def n_def)
      ultimately have "st_at m' x = (if off \<le> x \<and> x < off + len then Some Range_Acked else st_at (rt_used t) x)"
        using h(2) [of x] middle(3) s(1) unfolding m'_def by (cases "x < a"; cases "a + n \<le> x"; cases "x < a + k"; simp)
      then show ?thesis
        using middle(2,3) by (simp add: status_def)
    qed
    moreover have "above (rt_acked t) m'"
      using h(3) [of "rt_acked t"] m(2) s(1) middle(2) by (simp add: m'_def)
    ultimately show ?thesis
      using that [of "?t\<lparr>rt_used := m'\<rparr>"] middle k(1) h(1) by (simp add: eq rt_ok_def m'_def)
  qed
qed

end
