(* ===== verification/Range_Sent.thy ===== *)
theory Range_Sent
  imports Range_Spec
begin

text \<open>
  Sending and losing ranges: \<open>mark_sent\<close> fills the gaps of a range, \<open>unmark_range\<close> makes them again, neither touches what has been
  acknowledged.
\<close>

subsection \<open>Sending\<close>

text \<open>
  The loop of \<open>mark_sent\<close> on a map with the ranges \<open>l\<close> before the new one, \<open>c\<close> within it and \<open>u\<close> behind it. An entry at its start,
  \<open>w\<close>, may be left over; it is overwritten.
\<close>

definition fill :: "ranges \<Rightarrow> nat \<Rightarrow> nat \<Rightarrow> nat \<Rightarrow> range_state option" where
  "fill m a b x = (if a \<le> x \<and> x < b \<and> st_at m x = None then Some Range_Sent else st_at m x)"

definition stale :: "ranges \<Rightarrow> nat \<Rightarrow> bool" where
  "stale w off \<longleftrightarrow> w = [] \<or> (\<exists>n. w = [(off, n, Range_Sent)])"

lemma insert_stale:
  assumes "\<forall>e\<in>set l. fst e < off" "stale w off" "\<forall>e\<in>set m. off < fst e"
  shows "bt_insert off v (l @ w @ m) = l @ (off, v) # m"
  using assms(2) unfolding stale_def
proof
  assume "w = []"
  then show ?thesis
    using bt_insert_between [of l off m v] assms by simp
next
  assume "\<exists>n. w = [(off, n, Range_Sent)]"
  then obtain n where w: "w = [(off, n, Range_Sent)]" by blast
  show ?thesis
    using assms(1) unfolding w by (induction l) auto
qed

lemma sent_loop_ok:
  assumes "map_ok (l @ c @ u)" "\<forall>e\<in>set l. re e \<le> off" "stale w off" "bt_ok (w @ c)"
    "\<forall>e\<in>set c. off \<le> fst e \<and> fst e < off + len" "\<forall>e\<in>set u. off + len \<le> fst e" "0 < len" "off + len < 2 ^ 64"
    "\<forall>e\<in>set c. re e < 2 ^ 64"
  shows "\<exists>m. sent_loop (map fst c) (l @ w @ c @ u) off len = Ok m \<and> map_ok m
    \<and> (\<forall>x. st_at m x = fill (l @ c @ u) off (off + len) x) \<and> (\<forall>a. above a l \<and> a \<le> off \<and> above a (c @ u) \<longrightarrow> above a m)"
  using assms
proof (induction c arbitrary: l w off len)
  case Nil
  have l: "\<forall>e\<in>set l. fst e < off"
    using Nil.prems(1,2) by (fastforce simp: map_ok_append dest: map_ok_pos)
  have u: "\<forall>e\<in>set u. off < fst e"
    using Nil.prems(6,7) by fastforce
  have "sent_loop (map fst []) (l @ w @ [] @ u) off len = Ok (l @ (off, len, Range_Sent) # u)"
    using insert_stale [OF l Nil.prems(3) u] by simp
  moreover have "map_ok (l @ (off, len, Range_Sent) # u)"
    using Nil.prems by (auto simp: map_ok_append before_def)
  moreover have "st_at (l @ (off, len, Range_Sent) # u) x = fill (l @ [] @ u) off (off + len) x" for x
  proof -
    have "st_at l x = None" if "off \<le> x"
      using Nil.prems(2) that by (intro st_at_outside) fastforce
    moreover have "st_at u x = None" if "x < off + len"
      using Nil.prems(6) that by (intro st_at_outside) fastforce
    ultimately show ?thesis
      by (auto simp: fill_def st_at_append split: option.split)
  qed
  ultimately show ?case
    by auto
next
  case (Cons e c)
  obtain oo ol os where e: "e = (oo, ol, os)" by (cases e)
  note p = Cons.prems [unfolded e]
  have cu: "0 < ol" "\<forall>e'\<in>set (c @ u). oo + ol \<le> fst e'" "off \<le> oo" "oo < off + len" "oo + ol < 2 ^ 64"
    using p(1,5,9) by (auto simp: map_ok_append before_def)
  have "off < oo + ol"
    using cu by linarith
  with cu(2) have gt: "\<forall>e'\<in>set (c @ u). off < fst e'"
    by (meson order.strict_trans2)
  have l: "\<forall>e'\<in>set l. fst e' < off"
    using p(1,2) by (fastforce simp: map_ok_append dest: map_ok_pos)
  have w: "oo = off \<longrightarrow> w = []" "\<forall>e'\<in>set w. fst e' = off"
    using p(3,4) by (auto simp: stale_def)
  have "bt_get l oo = None" "bt_get w oo = None"
    using l w cu(3) by (intro bt_get_notin; fastforce)+
  then have get: "bt_get (l @ w @ (oo, ol, os) # c @ u) oo = Some (ol, os)"
    by (simp add: bt_get_append)
  have lx: "st_at l x = None" if "off \<le> x" for x
    using p(2) that by (intro st_at_outside) fastforce
  have cx: "st_at (c @ u) x = None" if "x < oo + ol" for x
    using cu(2) that by (intro st_at_outside) fastforce
  show ?case
  proof (cases os)
    case Range_Acked
    define k where "k = (if off < oo then [(off, oo - off, Range_Sent)] else [])"
    define l' where "l' = l @ k @ [(oo, ol, Range_Acked)]"
    have ins: "bt_insert off v (l @ w @ (oo, ol, os) # c @ u) = l @ (off, v) # (oo, ol, os) # c @ u" if "off < oo" for v
      using gt that by (intro insert_stale [OF l p(3)]) simp
    have step: "sent_loop (map fst ((oo, ol, os) # c)) (l @ w @ ((oo, ol, os) # c) @ u) off len
        = (if len \<le> oo - off + ol then Ok (l' @ c @ u)
           else sent_loop (map fst c) (l' @ [] @ c @ u) (oo + ol) (len - (oo - off + ol)))"
      using get ins w(1) cu(3,5) Range_Acked by (simp add: Let_def u64_sub_eq k_def l'_def)
    have "\<forall>e'\<in>set (c @ u). before (off, oo - off, Range_Sent) e'"
      using cu(2,3) by (fastforce simp: before_def)
    then have ok: "map_ok (l' @ c @ u)"
      using p(1,2) cu(1,3) Range_Acked by (auto simp: l'_def k_def map_ok_append) (auto simp: before_def)
    have fx: "fill (l' @ c @ u) (oo + ol) (off + len) x = fill (l @ ((oo, ol, os) # c) @ u) off (off + len) x" for x
    proof (cases "off \<le> x")
      case True
      then show ?thesis
        using lx [OF True] cx [of x] cu(3,4) Range_Acked by (auto simp: fill_def l'_def k_def st_at_append)
    next
      case False
      then show ?thesis
        using cx [of x] cu(1,3) by (auto simp: fill_def l'_def k_def st_at_append split: option.split)
    qed
    have ab: "above a (l' @ c @ u)" if "above a l" "a \<le> off" "above a ((oo, ol, os) # c @ u)" for a
      using that by (auto simp: l'_def k_def Range_Acked)
    show ?thesis
    proof (cases "len \<le> oo - off + ol")
      case True
      then have "off + len \<le> oo + ol"
        using cu(3) by linarith
      then have "st_at (l' @ c @ u) x = fill (l' @ c @ u) (oo + ol) (off + len) x" for x
        by (simp add: fill_def)
      then show ?thesis
        unfolding e step using True ok fx ab by simp
    next
      case False
      have "\<exists>m. sent_loop (map fst c) (l' @ [] @ c @ u) (oo + ol) (len - (oo - off + ol)) = Ok m \<and> map_ok m
          \<and> (\<forall>x. st_at m x = fill (l' @ c @ u) (oo + ol) (oo + ol + (len - (oo - off + ol))) x)
          \<and> (\<forall>a. above a l' \<and> a \<le> oo + ol \<and> above a (c @ u) \<longrightarrow> above a m)"
        using ok p False cu by (intro Cons.IH) (auto simp: stale_def l'_def k_def map_ok_append before_def)
      moreover have "oo + ol + (len - (oo - off + ol)) = off + len"
        using False cu(3) by linarith
      ultimately obtain m where "sent_loop (map fst c) (l' @ [] @ c @ u) (oo + ol) (len - (oo - off + ol)) = Ok m" "map_ok m"
          "\<forall>x. st_at m x = fill (l' @ c @ u) (oo + ol) (off + len) x"
          "\<forall>a. above a l' \<and> a \<le> oo + ol \<and> above a (c @ u) \<longrightarrow> above a m"
        by metis
      then show ?thesis
        unfolding e step using False fx ab cu(3) by simp
    qed
  next
    case Range_Sent
    define n where "n = len + (oo + ol - (off + len))"
    define w' where "w' = (if oo = off then [(oo, ol, Range_Sent)] else w)"
    have "bt_remove oo l = l" "oo \<noteq> off \<Longrightarrow> bt_remove oo w = w" "bt_remove oo (c @ u) = c @ u"
      using l w(2) cu(1,2,3) by (intro bt_remove_notin; fastforce)+
    then have step: "sent_loop (map fst ((oo, ol, os) # c)) (l @ w @ ((oo, ol, os) # c) @ u) off len
        = sent_loop (map fst c) (l @ w' @ c @ u) off n"
      using get w(1) Range_Sent by (simp add: Let_def w'_def n_def)
    have n: "off + n = max (off + len) (oo + ol)"
      by (simp add: n_def)
    have "bt_ok (w' @ c)" "stale w' off"
      using p(3,4) gt by (auto simp: w'_def stale_def)
    moreover have "\<forall>e'\<in>set c. off \<le> fst e' \<and> fst e' < off + n" "\<forall>e'\<in>set u. off + n \<le> fst e'"
      using p(5,6) cu(2) unfolding n by auto
    ultimately have "\<exists>m. sent_loop (map fst c) (l @ w' @ c @ u) off n = Ok m \<and> map_ok m
        \<and> (\<forall>x. st_at m x = fill (l @ c @ u) off (off + n) x) \<and> (\<forall>a. above a l \<and> a \<le> off \<and> above a (c @ u) \<longrightarrow> above a m)"
      using p(1,2,7,8,9) cu(5) n by (intro Cons.IH) (auto simp: map_ok_append n_def)
    moreover have "fill (l @ c @ u) off (off + n) x = fill (l @ ((oo, ol, os) # c) @ u) off (off + len) x" for x
      using lx [of x] cx [of x] cu(1,3,4) Range_Sent unfolding fill_def n
      by (cases "st_at l x"; cases "off \<le> x") (auto simp: st_at_append)
    ultimately show ?thesis
      unfolding e step by fastforce
  qed
qed

text \<open>What \<open>mark_sent\<close> makes of the map.\<close>

definition filled :: "ranges \<Rightarrow> nat \<Rightarrow> nat \<Rightarrow> ranges \<Rightarrow> bool" where
  "filled m a b m' \<longleftrightarrow> map_ok m' \<and> (\<forall>x. st_at m' x = fill m a b x) \<and> (\<forall>k. above k m \<and> k \<le> a \<longrightarrow> above k m')"

lemma sent_loop_filled:
  assumes "map_ok (l @ c @ u)" "\<forall>e\<in>set l. re e \<le> off" "\<forall>e\<in>set c. off \<le> fst e \<and> fst e < off + len"
    "\<forall>e\<in>set u. off + len \<le> fst e" "0 < len" "off + len < 2 ^ 64" "\<forall>e\<in>set c. re e < 2 ^ 64"
  shows "\<exists>m. sent_loop (map fst c) (l @ c @ u) off len = Ok m \<and> filled (l @ c @ u) off (off + len) m"
proof -
  have "bt_ok c"
    using assms(1) by (auto simp: map_ok_append intro: map_ok_bt_ok)
  then show ?thesis
    using sent_loop_ok [of l c u off "[]" len] assms by (auto simp: filled_def stale_def)
qed

lemma sent_head_ok:
  assumes ok: "map_ok (l @ c @ u)" and l: "\<forall>e\<in>set l. fst e < off" and c: "\<forall>e\<in>set c. off \<le> fst e \<and> fst e < off + len"
    and u: "\<forall>e\<in>set u. off + len \<le> fst e" and b: "0 < len" "off + len < 2 ^ 64" "\<forall>e\<in>set c. re e < 2 ^ 64"
  shows "\<exists>m. sent_head (map fst c) (l @ c @ u) off len = Ok m \<and> filled (l @ c @ u) off (off + len) m"
proof (cases l rule: rev_cases)
  case Nil
  have "\<forall>e\<in>set (c @ u). off \<le> fst e"
    using c u by fastforce
  then show ?thesis
    using bt_below_append [of "[]" off "c @ u"] sent_loop_filled [of "[]" c u off len] assms Nil by (simp add: sent_head_def)
next
  case (snoc l0 p)
  obtain po pl ps where p: "p = (po, pl, ps)" by (cases p)
  have "\<forall>e\<in>set (c @ u). off \<le> fst e"
    using c u by fastforce
  then have below: "bt_last (bt_below off (l @ c @ u)) = Some (po, pl, ps)"
    using bt_below_append [of l off "c @ u"] l snoc p by simp
  have po: "po < off" "0 < pl" "\<forall>e\<in>set l0. re e \<le> po" "\<forall>e\<in>set (c @ u). po + pl \<le> fst e" "map_ok (l0 @ c @ u)"
    using ok l snoc p by (auto simp: map_ok_append before_def)
  have cx: "st_at (c @ u) x = None" if "x < po + pl" for x
    using po(4) that by (intro st_at_outside) fastforce
  have l0x: "st_at l0 x = None" if "po \<le> x" for x
    using po(3) that by (intro st_at_outside) fastforce
  have mx: "st_at (l @ c @ u) x = Some ps" if "po \<le> x" "x < po + pl" for x
    using l0x [OF that(1)] that by (simp add: snoc p st_at_append)
  consider (apart) "po + pl < off" | (inside) "off + len \<le> po + pl"
    | (acked) "off \<le> po + pl" "po + pl < off + len" "ps = Range_Acked"
    | (sent) "off \<le> po + pl" "po + pl < off + len" "ps = Range_Sent"
    using range_state.exhaust by (metis linorder_not_less)
  then show ?thesis
  proof cases
    case apart
    have "\<forall>e\<in>set l. re e \<le> off"
      using apart po(1,3) by (fastforce simp: snoc p)
    then show ?thesis
      using sent_loop_filled [of l c u off len] assms below apart by (simp add: sent_head_def)
  next
    case inside
    then have "st_at (l @ c @ u) x = fill (l @ c @ u) off (off + len) x" for x
      using mx [of x] po(1) by (simp add: fill_def)
    then show ?thesis
      using below inside ok by (auto simp: sent_head_def filled_def Let_def)
  next
    case acked
    define n where "n = len - (po + pl - off)"
    have n: "po + pl + n = off + len" "0 < n"
      using acked by (simp_all add: n_def)
    have "\<forall>e\<in>set l. re e \<le> po + pl" "\<forall>e\<in>set c. po + pl \<le> fst e \<and> fst e < off + len"
      using po(3,4) c by (fastforce simp: snoc p)+
    then obtain m where m: "sent_loop (map fst c) (l @ c @ u) (po + pl) n = Ok m" "filled (l @ c @ u) (po + pl) (off + len) m"
      using sent_loop_filled [of l c u "po + pl" n] ok u b n by auto
    have "fill (l @ c @ u) (po + pl) (off + len) x = fill (l @ c @ u) off (off + len) x" for x
      using mx [of x] po(1) acked(1) by (auto simp: fill_def)
    then have "filled (l @ c @ u) off (off + len) m"
      using m(2) acked(1) by (auto simp: filled_def)
    then show ?thesis
      using m(1) below acked n by (auto simp: sent_head_def n_def Let_def)
  next
    case sent
    define n where "n = len - (po + pl - off) + pl"
    have n: "po + n = off + len" "0 < n"
      using sent po(1,2) by (simp_all add: n_def)
    have "bt_ok c"
      using ok by (auto simp: map_ok_append intro: map_ok_bt_ok)
    moreover have "\<forall>e\<in>set c. po < fst e"
      using po(1) c by (meson order.strict_trans2)
    ultimately have "bt_ok ([(po, pl, Range_Sent)] @ c)" "\<forall>e\<in>set c. po \<le> fst e \<and> fst e < po + n"
      using c n by (simp_all add: less_imp_le)
    then obtain m where m: "sent_loop (map fst c) (l0 @ [(po, pl, Range_Sent)] @ c @ u) po n = Ok m" "map_ok m"
        "\<forall>x. st_at m x = fill (l0 @ c @ u) po (off + len) x" "\<forall>k. above k l0 \<and> k \<le> po \<and> above k (c @ u) \<longrightarrow> above k m"
      using sent_loop_ok [of l0 c u po "[(po, pl, Range_Sent)]" n] po(3,5) u b n by (auto simp: stale_def)
    have "fill (l0 @ c @ u) po (off + len) x = fill (l @ c @ u) off (off + len) x" for x
      using cx [of x] l0x [of x] po(1) sent
      by (cases "st_at l0 x"; cases "po \<le> x"; cases "x < po + pl") (auto simp: fill_def snoc p st_at_append)
    then have "filled (l @ c @ u) off (off + len) m"
      using m by (simp add: filled_def snoc p)
    then show ?thesis
      using m(1) below sent n by (auto simp: sent_head_def n_def snoc p Let_def)
  qed
qed

text \<open>A sent range that starts where the new one ends is taken out of the map and becomes part of the new one.\<close>

lemma filled_merge:
  assumes "map_ok (p @ (k, n, Range_Sent) # u)" "filled (p @ u) a (k + n) m" "a \<le> k"
  shows "filled (p @ (k, n, Range_Sent) # u) a k m"
proof -
  have "st_at p x = None" if "k \<le> x" for x
    using assms(1) that by (intro st_at_outside) (fastforce simp: map_ok_append before_def)
  moreover have "st_at u x = None" if "x < k + n" for x
    using assms(1) that by (intro st_at_outside) (fastforce simp: map_ok_append before_def)
  ultimately have "fill (p @ u) a (k + n) x = fill (p @ (k, n, Range_Sent) # u) a k x" for x
    using assms(3) by (cases "k \<le> x"; cases "st_at p x") (auto simp: fill_def st_at_append)
  then show ?thesis
    using assms(2) by (simp add: filled_def)
qed

text \<open>The offsets that have a state bound the ranges.\<close>

lemma status_bound:
  assumes "rt_ok t" "\<forall>x. status t x \<noteq> None \<longrightarrow> x < L" "e \<in> set (rt_used t)"
  shows "re e \<le> L"
proof -
  have "fst e < re e" "rt_acked t \<le> fst e" "map_ok (rt_used t)"
    using assms(1,3) by (auto simp: rt_ok_def above_def dest: map_ok_pos)
  then have "status t (re e - 1) \<noteq> None"
    using st_at_mem [OF _ assms(3), of "re e - 1"] by (auto simp: status_def)
  then show ?thesis
    using assms(2) by fastforce
qed

lemma mark_sent_ok:
  assumes ok: "rt_ok t" and b: "\<forall>x. status t x \<noteq> None \<longrightarrow> x < L" "off + len \<le> L" "L < 2 ^ 64"
  obtains t' where "mark_sent t off len = Ok t'" "rt_ok t'" "rt_acked t' = rt_acked t"
    "\<And>x. status t' x = (if off \<le> x \<and> x < off + len \<and> status t x = None then Some Range_Sent else status t x)"
proof -
  define a where "a = max (rt_acked t) off"
  define n where "n = off + len - a"
  let ?m = "rt_used t"
  have m: "map_ok ?m" "above (rt_acked t) ?m"
    using ok by (simp_all add: rt_ok_def)
  have rl: "re e < 2 ^ 64" if "e \<in> set ?m" for e
    using status_bound [OF ok b(1) that] b(3) by linarith
  have st: "(if rt_acked t \<le> x then st_at m' x = fill ?m a (off + len) x else True)
      \<longleftrightarrow> status (t\<lparr>first_unmarked := None, rt_used := m'\<rparr>) x
        = (if off \<le> x \<and> x < off + len \<and> status t x = None then Some Range_Sent else status t x)" for x m'
    by (simp add: status_def fill_def a_def)
  show ?thesis
  proof (cases "n = 0")
    case True
    then have "status t x = (if off \<le> x \<and> x < off + len \<and> status t x = None then Some Range_Sent else status t x)" for x
      by (auto simp: status_def n_def a_def max_def split: if_splits)
    then show ?thesis
      using that [of t] ok True by (simp add: mark_sent_def n_def a_def Let_def)
  next
    case False
    then have an: "a + n = off + len" "0 < n"
      by (auto simp: n_def)
    obtain l c u where s: "?m = l @ c @ u" "\<forall>e\<in>set l. fst e < a" "\<forall>e\<in>set c. a \<le> fst e \<and> fst e < a + n"
        "\<forall>e\<in>set u. a + n \<le> fst e" and cov: "bt_below (a + n) (bt_from a ?m) = c"
      by (rule split_range [OF map_ok_bt_ok [OF m(1)] le_add1])
    have c: "\<forall>e\<in>set c. re e < 2 ^ 64" and an': "a + n < 2 ^ 64"
      using rl s(1) an b(2,3) by auto
    have "\<exists>m'. mark_sent t off len = Ok (t\<lparr>first_unmarked := None, rt_used := m'\<rparr>) \<and> filled ?m a (a + n) m'"
    proof (cases "\<exists>k. bt_get ?m (a + n) = Some (k, Range_Sent)")
      case True
      then obtain k where k: "bt_get ?m (a + n) = Some (k, Range_Sent)" by blast
      have lc: "\<forall>e\<in>set (l @ c). fst e \<noteq> a + n"
        using s(2,3) by fastforce
      then have "bt_get u (a + n) = Some (k, Range_Sent)"
        using k bt_get_append [of "l @ c" u "a + n"] by (simp add: s(1) bt_get_notin)
      then obtain u' where u: "u = (a + n, k, Range_Sent) # u'"
        using bt_get_head [of u "a + n"] s(1,4) map_ok_bt_ok [OF m(1)] by (auto simp: bt_ok_append)
      have u': "map_ok (l @ c @ u')" "0 < k" "\<forall>e\<in>set u'. a + n + k \<le> fst e" "a + n + k < 2 ^ 64"
        using m(1) rl [of "(a + n, k, Range_Sent)"] by (auto simp: s(1) u map_ok_append before_def)
      then have "bt_remove (a + n) ?m = l @ c @ u'"
        using lc bt_remove_notin [of "l @ c" "a + n"] bt_remove_notin [of u' "a + n"] by (fastforce simp: s(1) u)
      moreover have "\<forall>e\<in>set c. a \<le> fst e \<and> fst e < a + (n + k)"
        using s(3) u'(2) by fastforce
      then obtain m' where "sent_head (map fst c) (l @ c @ u') a (n + k) = Ok m'" "filled (l @ c @ u') a (a + n + k) m'"
        using sent_head_ok [of l c u' a "n + k"] u' s(2) c an(2) by (auto simp: add.assoc)
      ultimately show ?thesis
        using filled_merge [of "l @ c" "a + n" k u' a m'] k cov an m(1) unfolding s(1) u
        by (auto simp: mark_sent_def Let_def a_def [symmetric] n_def [symmetric] s(1) u)
    next
      case False
      then have "mark_sent t off len
          = bind_res (sent_head (map fst c) ?m a n) (\<lambda>m'. Ok (t\<lparr>first_unmarked := None, rt_used := m'\<rparr>))"
        using cov an by (auto simp: mark_sent_def Let_def a_def [symmetric] n_def [symmetric] split: option.splits range_state.splits)
      then show ?thesis
        using sent_head_ok [of l c u a n] m(1) s c an(2) an' by auto
    qed
    then obtain m' where "mark_sent t off len = Ok (t\<lparr>first_unmarked := None, rt_used := m'\<rparr>)" "filled ?m a (a + n) m'"
      by blast
    moreover from this(2) have "status (t\<lparr>first_unmarked := None, rt_used := m'\<rparr>) x
        = (if off \<le> x \<and> x < off + len \<and> status t x = None then Some Range_Sent else status t x)" for x
      by (intro iffD1 [OF st]) (simp add: filled_def an(1))
    moreover have "rt_acked t \<le> a"
      by (simp add: a_def)
    ultimately show ?thesis
      using that [of "t\<lparr>first_unmarked := None, rt_used := m'\<rparr>"] m(2) by (simp add: filled_def rt_ok_def)
  qed
qed

subsection \<open>Losing\<close>

text \<open>What is left of a range, and of the map, when \<open>[a, b)\<close> is lost.\<close>

definition pieces :: "nat \<Rightarrow> nat \<Rightarrow> nat \<times> nat \<times> range_state \<Rightarrow> ranges" where
  "pieces a b e =
     (if is_acked e \<or> re e \<le> a \<or> b \<le> fst e then [e]
      else (if fst e < a then [(fst e, a - fst e, Range_Sent)] else []) @ (if b < re e then [(b, re e - b, Range_Sent)] else []))"

definition lose :: "nat \<Rightarrow> nat \<Rightarrow> ranges \<Rightarrow> ranges" where
  "lose a b m = concat (map (pieces a b) m)"

lemma lose_simps [simp]: "lose a b [] = []" "lose a b (e # m) = pieces a b e @ lose a b m" "lose a b (m @ m') = lose a b m @ lose a b m'"
  by (simp_all add: lose_def)

lemma pieces_within: "p \<in> set (pieces a b e) \<Longrightarrow> fst e \<le> fst p \<and> re p \<le> re e \<and> (is_acked p \<longrightarrow> p = e)"
  by (auto simp: pieces_def split: if_splits)

lemma lose_within: "p \<in> set (lose a b m) \<Longrightarrow> \<exists>e\<in>set m. fst e \<le> fst p \<and> re p \<le> re e \<and> (is_acked p \<longrightarrow> p = e)"
  by (simp add: lose_def) (meson pieces_within)

lemma pieces_ok: "fst e < re e \<Longrightarrow> a < b \<Longrightarrow> map_ok (pieces a b e)"
  by (auto simp: pieces_def before_def)

lemma lose_ok:
  assumes "map_ok m" "a < b"
  shows "map_ok (lose a b m)"
  using assms(1)
proof (induction m)
  case (Cons e m)
  have "before p p'" if p: "p \<in> set (pieces a b e)" and "p' \<in> set (lose a b m)" for p p'
  proof -
    obtain e' where e': "e' \<in> set m" "fst e' \<le> fst p'" "is_acked p' \<longrightarrow> p' = e'"
      using lose_within \<open>p' \<in> set (lose a b m)\<close> by blast
    then have "before e e'"
      using Cons.prems by simp
    then show ?thesis
      using pieces_within [OF p] e' by (auto simp: before_def)
  qed
  then show ?case
    using Cons pieces_ok [of e a b] assms(2) by (simp add: map_ok_append)
qed simp

lemma lose_above: "above k m \<Longrightarrow> above k (lose a b m)"
  using lose_within unfolding above_def by (metis order.trans)

lemma st_at_lose:
  assumes "map_ok m" "a < b"
  shows "st_at (lose a b m) x = (if a \<le> x \<and> x < b \<and> st_at m x = Some Range_Sent then None else st_at m x)"
  using assms(1)
proof (induction m)
  case (Cons e m)
  have "st_at m x = None" if "x < re e"
    using Cons.prems that by (intro st_at_outside) (fastforce simp: before_def)
  moreover have "st_at (pieces a b e) x = (if a \<le> x \<and> x < b \<and> st_at [e] x = Some Range_Sent then None else st_at [e] x)"
    using assms(2) Cons.prems by (cases "snd (snd e)") (auto simp: pieces_def is_acked_def)
  ultimately show ?case
    using Cons by (cases "fst e \<le> x \<and> x < re e") (auto simp: st_at_append)
qed simp

text \<open>The loop goes backwards over the ranges that start within the lost one, and stops at the first one that starts before it.\<close>

definition sent_keys :: "ranges \<Rightarrow> nat list" where
  "sent_keys c = rev (map fst (filter (\<lambda>e. \<not> is_acked e) c))"

definition overhang :: "nat \<Rightarrow> ranges \<Rightarrow> (nat \<times> nat \<times> range_state) option" where
  "overhang b c = (case bt_last c of None \<Rightarrow> None
     | Some (k, n, s) \<Rightarrow> if s = Range_Sent \<and> b < k + n then Some (b, k + n - b, Range_Sent) else None)"

lemma sent_keys_simps [simp]:
  "sent_keys [] = []" "sent_keys (c @ [(k, n, s)]) = (if s = Range_Acked then [] else [k]) @ sent_keys c"
  by (simp_all add: sent_keys_def)

lemma unmark_loop_inner:
  "\<forall>e\<in>set c. a \<le> fst e \<and> re e \<le> b \<Longrightarrow> unmark_loop a b (rev c @ r) rm add = unmark_loop a b r (rm @ sent_keys c) add"
proof (induction c arbitrary: rm rule: rev_induct)
  case (snoc e c)
  obtain k n s where e: "e = (k, n, s)" by (cases e)
  then have "\<not> k < a" "\<not> b < k + n"
    using snoc.prems by auto
  then show ?case
    using snoc by (cases s) (simp_all add: e Let_def assert_res_def)
qed simp

lemma unmark_loop_within:
  assumes "map_ok c" "\<forall>e\<in>set c. a \<le> fst e \<and> fst e < b"
  shows "unmark_loop a b (rev c @ r) [] None = unmark_loop a b r (sent_keys c) (overhang b c)"
proof (cases c rule: rev_cases)
  case (snoc c0 e)
  obtain k n s where e: "e = (k, n, s)" by (cases e)
  have "\<forall>e\<in>set c0. a \<le> fst e \<and> re e \<le> b"
    using assms by (fastforce simp: snoc e map_ok_append before_def)
  then show ?thesis
    using unmark_loop_inner [of c0 a b r] assms(2) by (cases s) (auto simp: snoc e Let_def assert_res_def overhang_def)
qed (simp add: overhang_def)

lemma lose_within_range: "map_ok c \<Longrightarrow> \<forall>e\<in>set c. a \<le> fst e \<and> fst e < b
    \<Longrightarrow> lose a b c = filter is_acked c @ (case overhang b c of None \<Rightarrow> [] | Some e \<Rightarrow> [e])"
proof (induction c rule: rev_induct)
  case (snoc e c)
  obtain k n s where e: "e = (k, n, s)" by (cases e)
  have "\<forall>e'\<in>set c. re e' \<le> b"
    using snoc.prems by (fastforce simp: e map_ok_append before_def)
  then have "overhang b c = None"
    by (cases c rule: rev_cases) (auto simp: overhang_def)
  then show ?case
    using snoc by (cases s) (auto simp: e overhang_def pieces_def map_ok_append)
qed (simp add: overhang_def)

lemma remove_sent_keys:
  assumes "map_ok c" "\<forall>e\<in>set h. fst e < a" "\<forall>e\<in>set c. a \<le> fst e \<and> fst e < b" "\<forall>e\<in>set u. b \<le> fst e"
  shows "remove_all (sent_keys c) (h @ c @ u) = h @ filter is_acked c @ u"
proof -
  have "filter (\<lambda>e. fst e \<notin> set (sent_keys c)) c = filter is_acked c"
    using map_ok_bt_ok [OF assms(1)]
    by (intro filter_cong refl) (auto simp: sent_keys_def bt_ok_def strict_sorted_iff distinct_map dest: inj_onD)
  moreover have "filter (\<lambda>e. fst e \<notin> set (sent_keys c)) h = h" "filter (\<lambda>e. fst e \<notin> set (sent_keys c)) u = u"
    using assms by (fastforce simp: filter_id_conv sent_keys_def)+
  ultimately show ?thesis
    by (simp add: remove_all_keys)
qed

lemma lose_outside: "\<forall>e\<in>set m. is_acked e \<or> re e \<le> a \<or> b \<le> fst e \<Longrightarrow> lose a b m = m"
  by (induction m) (auto simp: pieces_def)

lemma overhang_Some: "overhang b c = Some e \<Longrightarrow> \<exists>e'\<in>set c. fst e = b \<and> b < re e'"
  by (cases c rule: rev_cases) (auto simp: overhang_def split: if_splits)

text \<open>The tail of a cut range goes before the ranges behind it.\<close>

lemma insert_overhang:
  assumes "\<forall>e\<in>set p. fst e < b" "\<And>e. add = Some e \<Longrightarrow> fst e = b \<and> (\<forall>e\<in>set u. b < fst e)"
  shows "(case add of None \<Rightarrow> p @ u | Some (k, n, s) \<Rightarrow> bt_insert k (n, s) (p @ u)) = p @ (case add of None \<Rightarrow> [] | Some e \<Rightarrow> [e]) @ u"
proof (cases add)
  case (Some e)
  then show ?thesis
    using bt_insert_between [OF assms(1), of u "snd e"] assms(2) by (cases e) auto
qed simp

lemma unmark_range_map:
  assumes ok: "map_ok (h @ c @ u)" and h: "\<forall>e\<in>set h. fst e < a" and c: "\<forall>e\<in>set c. a \<le> fst e \<and> fst e < b"
    and u: "\<forall>e\<in>set u. b \<le> fst e" and b: "a < b"
  shows "\<exists>cut rm add. unmark_loop a b (rev (h @ c)) [] None = Ok (cut, rm, add)
     \<and> (let m1 = (case cut of None \<Rightarrow> h @ c @ u | Some k \<Rightarrow> bt_modify k (\<lambda>(_, s). (a - k, s)) (h @ c @ u));
           m2 = remove_all rm m1
       in (case add of None \<Rightarrow> m2 | Some (k, n, s) \<Rightarrow> bt_insert k (n, s) m2)) = lose a b (h @ c @ u)
     \<and> (cut \<noteq> None \<or> rm \<noteq> []) = (\<exists>e\<in>set (h @ c @ u). \<not> is_acked e \<and> a < re e \<and> fst e < b)"
proof -
  have p: "map_ok h" "map_ok c" "map_ok u"
    using ok by (simp_all add: map_ok_append)
  have loop: "unmark_loop a b (rev (h @ c)) [] None = unmark_loop a b (rev h) (sent_keys c) (overhang b c)"
    using unmark_loop_within [OF p(2) c, of "rev h"] by simp
  have lu: "lose a b u = u"
    using u by (intro lose_outside) blast
  have lc: "lose a b c = filter is_acked c @ (case overhang b c of None \<Rightarrow> [] | Some e \<Rightarrow> [e])"
    using lose_within_range [OF p(2) c] .
  have rm: "remove_all (sent_keys c) (h' @ c @ u) = h' @ filter is_acked c @ u" if "\<forall>e\<in>set h'. fst e < a" for h'
    using remove_sent_keys [OF p(2) that c u] .
  have sk: "sent_keys c \<noteq> [] \<longleftrightarrow> (\<exists>e\<in>set c. \<not> is_acked e \<and> a < re e)" "\<forall>e\<in>set u. \<not> fst e < b" "\<forall>e\<in>set c. fst e < b"
    using p(2) c u by (fastforce simp: sent_keys_def filter_empty_conv dest: map_ok_pos)+
  have add: "fst e = b \<and> (\<forall>e'\<in>set u. b < fst e')" if e: "overhang b c' = Some e" and "map_ok (c' @ u)" for c' e
    using overhang_Some [OF e] \<open>map_ok (c' @ u)\<close> by (fastforce simp: map_ok_append before_def)
  have put: "(case add of None \<Rightarrow> h' @ filter is_acked c @ u | Some (k, n, s) \<Rightarrow> bt_insert k (n, s) (h' @ filter is_acked c @ u))
      = h' @ filter is_acked c @ (case add of None \<Rightarrow> [] | Some e \<Rightarrow> [e]) @ u"
    if "\<forall>e\<in>set h'. fst e < a" "\<And>e. add = Some e \<Longrightarrow> fst e = b \<and> (\<forall>e\<in>set u. b < fst e)" for h' add
  proof -
    have "\<forall>e\<in>set h'. fst e < b"
      using that(1) b by (meson order.strict_trans)
    then have "\<forall>e\<in>set (h' @ filter is_acked c). fst e < b"
      using c by auto
    then show ?thesis
      using insert_overhang [of "h' @ filter is_acked c" b add u, unfolded append_assoc] that(2) by simp
  qed
  have cu: "map_ok (c @ u)"
    using ok by (simp add: map_ok_append)
  show ?thesis
  proof (cases "h = [] \<or> is_acked (last h) \<or> re (last h) \<le> a")
    case True
    then have h1: "\<forall>e\<in>set h. is_acked e \<or> re e \<le> a"
      using h p(1) by (cases h rule: rev_cases) (fastforce simp: map_ok_append before_def)+
    have "unmark_loop a b (rev h) (sent_keys c) (overhang b c) = Ok (None, sent_keys c, overhang b c)"
      using True h by (cases h rule: rev_cases) (auto simp: Let_def)
    moreover have "lose a b h = h"
      using h1 by (intro lose_outside) blast
    moreover have "None \<noteq> None \<or> sent_keys c \<noteq> [] \<longleftrightarrow> (\<exists>e\<in>set (h @ c @ u). \<not> is_acked e \<and> a < re e \<and> fst e < b)"
      using sk h1 by fastforce
    ultimately show ?thesis
      using loop lu lc rm [OF h] put [OF h add [of c], OF _ cu]
      by (intro exI [of _ None] exI [of _ "sent_keys c"] exI [of _ "overhang b c"]) (simp add: Let_def cong: option.case_cong)
  next
    case False
    then obtain h0 k n where h0: "h = h0 @ [(k, n, Range_Sent)]" and kn: "a < k + n"
      by (cases h rule: rev_cases) (auto, metis range_state.exhaust)
    define add where "add = (if b < k + n then Some (b, k + n - b, Range_Sent) else overhang b c)"
    have k: "k < a" "\<forall>e\<in>set h0. re e \<le> k" "\<forall>e\<in>set (c @ u). k + n \<le> fst e"
      using ok h by (auto simp: h0 map_ok_append before_def)
    have c0: "c = []" if "b < k + n"
      using k(3) c that by (cases c) auto
    have "unmark_loop a b (rev h) (sent_keys c) (overhang b c) = Ok (Some k, sent_keys c, add)"
      using k(1) kn c0 by (auto simp: h0 add_def Let_def assert_res_def overhang_def)
    moreover have "\<forall>e\<in>set h0. fst e \<noteq> k" "\<forall>e\<in>set (c @ u). fst e \<noteq> k"
      using p(1) k kn by (fastforce simp: h0 map_ok_append before_def dest: map_ok_pos, fastforce)
    then have "bt_modify k (\<lambda>(_, s). (a - k, s)) (h @ c @ u) = (h0 @ [(k, a - k, Range_Sent)]) @ c @ u"
      using bt_modify_last [of h0 k "c @ u"] by (simp add: h0)
    moreover have "lose a b (h @ c @ u) = (h0 @ [(k, a - k, Range_Sent)]) @ filter is_acked c @ (case add of None \<Rightarrow> [] | Some e \<Rightarrow> [e]) @ u"
    proof -
      have "lose a b h0 = h0"
        using k by (intro lose_outside) fastforce
      then show ?thesis
        using lu lc c0 k(1) kn b by (auto simp: h0 add_def pieces_def overhang_def)
    qed
    moreover have "\<exists>e\<in>set (h @ c @ u). \<not> is_acked e \<and> a < re e \<and> fst e < b"
      using kn k(1) b by (simp add: h0)
    moreover have "\<forall>e\<in>set (h0 @ [(k, a - k, Range_Sent)]). fst e < a"
      using h by (simp add: h0)
    moreover have "\<forall>e\<in>set u. b < fst e" if "b < k + n"
      using k(3) that by (simp add: order.strict_trans2)
    then have "\<And>e. add = Some e \<Longrightarrow> fst e = b \<and> (\<forall>e\<in>set u. b < fst e)"
      using add [of c] cu by (auto simp: add_def split: if_splits)
    ultimately show ?thesis
      using loop rm [of "h0 @ [(k, a - k, Range_Sent)]"] put [of "h0 @ [(k, a - k, Range_Sent)]" add]
      by (intro exI [of _ "Some k"] exI [of _ "sent_keys c"] exI [of _ add]) (simp add: Let_def cong: option.case_cong)
  qed
qed

lemma unmark_range_ok:
  assumes ok: "rt_ok t"
  obtains r t' where "unmark_range t off len = Ok (r, t')" "rt_ok t'" "rt_acked t' = rt_acked t"
    "\<And>x. status t' x = (if off \<le> x \<and> x < off + len \<and> status t x = Some Range_Sent then None else status t x)"
    "r \<longleftrightarrow> (\<exists>x. off \<le> x \<and> x < off + len \<and> status t x = Some Range_Sent)"
proof (cases "len = 0")
  case True
  then show ?thesis
    using that [of False t] ok by (simp add: unmark_range_def)
next
  case False
  let ?m = "rt_used t"
  have m: "map_ok ?m" "above (rt_acked t) ?m" and b: "off < off + len"
    using ok False by (simp_all add: rt_ok_def)
  obtain h c u where s: "?m = h @ c @ u" "\<forall>e\<in>set h. fst e < off" "\<forall>e\<in>set c. off \<le> fst e \<and> fst e < off + len"
      "\<forall>e\<in>set u. off + len \<le> fst e"
    by (rule split_range [OF map_ok_bt_ok [OF m(1)] le_add1])
  have below: "bt_below (off + len) ?m = h @ c"
    using bt_below_append [of "h @ c" "off + len" u] s by fastforce
  let ?r = "\<exists>e\<in>set ?m. \<not> is_acked e \<and> off < re e \<and> fst e < off + len"
  have "unmark_range t off len = Ok (?r, t\<lparr>first_unmarked := None, rt_used := lose off (off + len) ?m\<rparr>)"
    using unmark_range_map [OF m(1) [unfolded s(1)] s(2,3,4) b] False unfolding s(1) [symmetric] below [symmetric]
    by (elim exE conjE) (simp add: unmark_range_def Let_def)
  moreover have "?r \<longleftrightarrow> (\<exists>x. off \<le> x \<and> x < off + len \<and> status t x = Some Range_Sent)"
    (is "_ \<longleftrightarrow> ?s")
  proof
    assume ?r
    then obtain e where e: "e \<in> set ?m" "\<not> is_acked e" "off < re e" "fst e < off + len" by blast
    then have "rt_acked t \<le> fst e" "fst e < re e" "snd (snd e) = Range_Sent"
      using m by (auto simp: above_def map_ok_pos) (cases "snd (snd e)"; simp add: is_acked_def)
    then show ?s
      using e b st_at_mem [OF m(1) e(1), of "max off (fst e)"] by (intro exI [of _ "max off (fst e)"]) (simp add: status_def)
  next
    assume ?s
    then obtain x where "off \<le> x" "x < off + len" "st_at ?m x = Some Range_Sent"
      by (auto simp: status_def split: if_splits)
    then show ?r
      using st_at_Some [of ?m x] by (force simp: is_acked_def)
  qed
  ultimately show ?thesis
    using that [of ?r "t\<lparr>first_unmarked := None, rt_used := lose off (off + len) ?m\<rparr>"] m lose_ok [OF m(1) b] lose_above [OF m(2)]
      st_at_lose [OF m(1) b] by (simp add: rt_ok_def status_def)
qed

end
