(* ===== verification/Send_Buffer.thy ===== *)
theory Send_Buffer
  imports Range_Sent
begin

text \<open>
  The promises of \<open>RangeTracker\<close> and \<open>TxBuffer\<close> to the send stream: a run of range operations computes the state of every offset, and
  the buffer offers the first byte that is neither in flight nor acknowledged, with the contents that the application wrote there.
\<close>

subsection \<open>The first unmarked range\<close>

lemma unmarked_loop_ok:
  assumes "map_ok m" "\<forall>e\<in>set m. a \<le> fst e" "\<forall>e\<in>set m. re e < 2 ^ 64" "unmarked_loop a m = (s, n)"
  shows "a \<le> s \<and> (\<forall>x. a \<le> x \<and> x < s \<longrightarrow> st_at m x \<noteq> None) \<and>
    (case n of None \<Rightarrow> \<forall>x\<ge>s. st_at m x = None
     | Some k \<Rightarrow> 0 < k \<and> s + k < 2 ^ 64 \<and> (\<forall>x. s \<le> x \<and> x < s + k \<longrightarrow> st_at m x = None) \<and> st_at m (s + k) \<noteq> None)"
  using assms
proof (induction m arbitrary: a)
  case (Cons e m)
  obtain k l t where e: "e = (k, l, t)" by (cases e)
  have m: "\<forall>e\<in>set m. k + l \<le> fst e" "0 < l" "k + l < 2 ^ 64" "a \<le> k"
    using Cons.prems by (auto simp: e before_def)
  then have mx: "st_at m x = None" if "x < k + l" for x
    using that by (intro st_at_outside) fastforce
  show ?case
  proof (cases "a = k")
    case True
    then have IH: "k + l \<le> s \<and> (\<forall>x. k + l \<le> x \<and> x < s \<longrightarrow> st_at m x \<noteq> None) \<and>
        (case n of None \<Rightarrow> \<forall>x\<ge>s. st_at m x = None
         | Some k \<Rightarrow> 0 < k \<and> s + k < 2 ^ 64 \<and> (\<forall>x. s \<le> x \<and> x < s + k \<longrightarrow> st_at m x = None) \<and> st_at m (s + k) \<noteq> None)"
      using Cons m(1) by (intro Cons.IH) (auto simp: e)
    have "st_at (e # m) x = (if x < k + l then if k \<le> x then Some t else None else st_at m x)" for x
      using mx [of x] by (simp add: e)
    then show ?thesis
      using IH True by (auto split: option.splits)
  next
    case False
    then have "s = a" "n = Some (k - a)" "a < k"
      using Cons.prems(4) m by (auto simp: e u64_sub_eq)
    then show ?thesis
      using mx m by (auto simp: e)
  qed
qed auto

text \<open>The tracker of a stream of which \<open>L\<close> bytes exist.\<close>

definition tracker_ok :: "nat \<Rightarrow> range_tracker \<Rightarrow> bool" where
  "tracker_ok L t \<longleftrightarrow> rt_ok t \<and> (\<forall>x. status t x \<noteq> None \<longrightarrow> x < L)"

lemma first_unmarked_range_ok:
  assumes t: "tracker_ok L t" and L: "L < 2 ^ 64"
  obtains s n t' where "first_unmarked_range t = ((s, n), t')" "tracker_ok L t'" "status t' = status t" "rt_acked t' = rt_acked t"
    "rt_acked t \<le> s" "status t s = None" "\<And>x. x < s \<Longrightarrow> status t x \<noteq> None" "s \<le> L"
    "case n of None \<Rightarrow> \<forall>x\<ge>s. status t x = None
     | Some k \<Rightarrow> 0 < k \<and> (\<forall>x. s \<le> x \<and> x < s + k \<longrightarrow> status t x = None) \<and> status t (s + k) \<noteq> None"
proof -
  obtain s n where l: "unmarked_loop (rt_acked t) (rt_used t) = (s, n)" by force
  have ok: "rt_ok t" and b: "\<forall>x. status t x \<noteq> None \<longrightarrow> x < L"
    using t by (simp_all add: tracker_ok_def)
  define t' where "t' = snd (first_unmarked_range t)"
  have f: "first_unmarked_range t = ((s, n), t')" and t': "rt_used t' = rt_used t" "rt_acked t' = rt_acked t" "rt_ok t'"
    using ok l by (auto simp: t'_def first_unmarked_range_def rt_ok_def Let_def split: option.splits)
  have "\<forall>e\<in>set (rt_used t). rt_acked t \<le> fst e" "\<forall>e\<in>set (rt_used t). re e < 2 ^ 64" "map_ok (rt_used t)"
    using ok status_bound [OF ok b] L by (fastforce simp: rt_ok_def above_def)+
  note u = unmarked_loop_ok [OF this(3,1,2) l]
  have s': "status t' = status t"
    using t' by (simp add: status_def fun_eq_iff)
  have "status t x \<noteq> None" if "x < s" for x
    using u that by (simp add: status_def)
  moreover from this have "s \<le> L"
    using b by (metis less_irrefl linorder_not_less)
  ultimately show ?thesis
    using that [OF f] u s' t' b by (auto simp: tracker_ok_def status_def split: option.splits)
qed

subsection \<open>Runs of the tracker\<close>

lemma highest_offset_bound: "rt_ok t \<Longrightarrow> status t x = Some Range_Sent \<Longrightarrow> x < highest_offset t"
proof -
  assume "rt_ok t" "status t x = Some Range_Sent"
  then obtain e where e: "e \<in> set (rt_used t)" "x < re e" and ok: "map_ok (rt_used t)"
    using st_at_Some [of "rt_used t" x] by (auto simp: status_def rt_ok_def split: if_splits)
  obtain m k n s where m: "rt_used t = m @ [(k, n, s)]"
    using e(1) by (cases "rt_used t" rule: rev_cases) auto
  have "re e \<le> k + n"
    using e(1) ok by (fastforce simp: m map_ok_append before_def)
  then show ?thesis
    using e(2) by (simp add: highest_offset_def m)
qed

lemma acked_maximal: "rt_ok t \<Longrightarrow> status t (acked_from_zero t) \<noteq> Some Range_Acked"
  using st_at_Some [of "rt_used t" "rt_acked t"] by (fastforce simp: status_def acked_from_zero_def rt_ok_def above_def is_acked_def)

text \<open>The operations on a tracker, and what each is to do to the state of the offsets.\<close>

datatype range_op = Op_Sent nat nat | Op_Acked nat nat | Op_Lost nat nat | Op_Unmark_Sent | Op_First_Unmarked

fun rt_op :: "range_op \<Rightarrow> range_tracker \<Rightarrow> range_tracker res" where
  "rt_op (Op_Sent off len) t = mark_sent t off len"
| "rt_op (Op_Acked off len) t = mark_acked t off len"
| "rt_op (Op_Lost off len) t = bind_res (unmark_range t off len) (\<lambda>(_, t'). Ok t')"
| "rt_op Op_Unmark_Sent t = bind_res (rt_unmark_sent t) (\<lambda>(_, t'). Ok t')"
| "rt_op Op_First_Unmarked t = Ok (snd (first_unmarked_range t))"

fun spec_op :: "range_op \<Rightarrow> (nat \<Rightarrow> range_state option) \<Rightarrow> nat \<Rightarrow> range_state option" where
  "spec_op (Op_Sent off len) f x = (if off \<le> x \<and> x < off + len \<and> f x = None then Some Range_Sent else f x)"
| "spec_op (Op_Acked off len) f x = (if off \<le> x \<and> x < off + len then Some Range_Acked else f x)"
| "spec_op (Op_Lost off len) f x = (if off \<le> x \<and> x < off + len \<and> f x = Some Range_Sent then None else f x)"
| "spec_op Op_Unmark_Sent f x = (if f x = Some Range_Sent then None else f x)"
| "spec_op Op_First_Unmarked f x = f x"

fun op_bound :: "nat \<Rightarrow> range_op \<Rightarrow> bool" where
  "op_bound L (Op_Sent off len) = (off + len \<le> L)"
| "op_bound L (Op_Acked off len) = (off + len \<le> L)"
| "op_bound L _ = True"

fun rt_run :: "range_op list \<Rightarrow> range_tracker \<Rightarrow> range_tracker res" where
  "rt_run [] t = Ok t"
| "rt_run (p # ps) t = bind_res (rt_op p t) (rt_run ps)"

lemma rt_op_ok:
  assumes t: "tracker_ok L t" and L: "L < 2 ^ 64" and p: "op_bound L p"
  obtains t' where "rt_op p t = Ok t'" "tracker_ok L t'" "status t' = spec_op p (status t)"
proof -
  have ok: "rt_ok t" and b: "\<forall>x. status t x \<noteq> None \<longrightarrow> x < L"
    using t by (simp_all add: tracker_ok_def)
  have "\<exists>t'. rt_op p t = Ok t' \<and> rt_ok t' \<and> status t' = spec_op p (status t)"
  proof (cases p)
    case (Op_Sent off len)
    then show ?thesis
      using p by (auto simp: fun_eq_iff intro: mark_sent_ok [OF ok b _ L, of off len])
  next
    case (Op_Acked off len)
    then show ?thesis
      by (auto simp: fun_eq_iff intro: mark_acked_ok [OF ok, of off len])
  next
    case (Op_Lost off len)
    obtain r t' where "unmark_range t off len = Ok (r, t')" "rt_ok t'"
        "\<And>x. status t' x = (if off \<le> x \<and> x < off + len \<and> status t x = Some Range_Sent then None else status t x)"
      by (rule unmark_range_ok [OF ok, of off len]) blast
    then show ?thesis
      by (auto simp: Op_Lost fun_eq_iff)
  next
    case Op_Unmark_Sent
    obtain r t' where "unmark_range t 0 (highest_offset t) = Ok (r, t')" "rt_ok t'"
        "\<And>x. status t' x = (if 0 \<le> x \<and> x < 0 + highest_offset t \<and> status t x = Some Range_Sent then None else status t x)"
      by (rule unmark_range_ok [OF ok, of 0 "highest_offset t"]) blast
    then show ?thesis
      using highest_offset_bound [OF ok] by (auto simp: Op_Unmark_Sent rt_unmark_sent_def fun_eq_iff)
  next
    case Op_First_Unmarked
    obtain s n t' where "first_unmarked_range t = ((s, n), t')" "tracker_ok L t'" "status t' = status t"
      by (rule first_unmarked_range_ok [OF t L]) blast
    then show ?thesis
      by (auto simp: Op_First_Unmarked tracker_ok_def fun_eq_iff)
  qed
  moreover have "x < L" if "spec_op p (status t) x \<noteq> None" for x
    using that b p by (cases p) (auto split: if_splits)
  ultimately show ?thesis
    using that by (auto simp: tracker_ok_def)
qed

lemma tracker_ok_default: "tracker_ok L range_tracker_default"
  by (simp add: tracker_ok_def rt_ok_default)

lemma rt_run_ok:
  assumes "tracker_ok L t" "L < 2 ^ 64" "list_all (op_bound L) ps"
  shows "\<exists>t'. rt_run ps t = Ok t' \<and> tracker_ok L t' \<and> status t' = fold spec_op ps (status t)"
  using assms(1,3)
proof (induction ps arbitrary: t)
  case (Cons p ps)
  obtain t1 where "rt_op p t = Ok t1" "tracker_ok L t1" "status t1 = spec_op p (status t)"
    using rt_op_ok [OF Cons.prems(1) assms(2), of p] Cons.prems(2) by auto
  then show ?case
    using Cons.IH [of t1] Cons.prems(2) by simp
qed simp

text \<open>
  C6: Any sequence of sending, acknowledging and losing ranges within the first \<open>L\<close> bytes leaves the tracker with the
  state that the pointwise specification gives every offset; what it reports as acknowledged is the longest acknowledged
  prefix, and its first unmarked range starts at the first offset without a state.
\<close>

theorem range_tracker_refines:
  assumes "L < 2 ^ 64" "list_all (op_bound L) ps"
  shows "\<exists>t. rt_run ps range_tracker_default = Ok t \<and> status t = fold spec_op ps (\<lambda>_. None)
    \<and> (\<forall>x. x < acked_from_zero t \<longrightarrow> fold spec_op ps (\<lambda>_. None) x = Some Range_Acked)
    \<and> fold spec_op ps (\<lambda>_. None) (acked_from_zero t) \<noteq> Some Range_Acked
    \<and> fst (fst (first_unmarked_range t)) = (LEAST x. fold spec_op ps (\<lambda>_. None) x = None)"
proof -
  let ?f = "fold spec_op ps (\<lambda>_. None)"
  have d: "status range_tracker_default = (\<lambda>_. None)"
    using rt_ok_default(2) by (simp add: fun_eq_iff)
  obtain t where t: "rt_run ps range_tracker_default = Ok t" "tracker_ok L t" "status t = ?f"
    using rt_run_ok [OF tracker_ok_default assms] unfolding d by blast
  obtain s n t' where s: "first_unmarked_range t = ((s, n), t')" "status t s = None" "\<And>x. x < s \<Longrightarrow> status t x \<noteq> None"
    by (rule first_unmarked_range_ok [OF t(2) assms(1)]) blast
  then have "(LEAST x. ?f x = None) = s"
    unfolding t(3) by (intro Least_equality) (auto simp: linorder_not_less [symmetric] simp del: not_None_eq)
  moreover have "?f x = Some Range_Acked" if "x < acked_from_zero t" for x
    using that by (simp add: t(3) [symmetric] status_def acked_from_zero_def)
  ultimately show ?thesis
    using t s(1) acked_maximal [of t] by (intro exI [of _ t]) (simp add: tracker_ok_def)
qed

theorem range_tracker_refines_witness:
  "\<exists>t. rt_run [Op_Sent 0 10, Op_Acked 4 2, Op_Lost 0 10, Op_Sent 0 2] range_tracker_default = Ok t
    \<and> fst (fst (first_unmarked_range t)) = (LEAST x. fold spec_op [Op_Sent 0 10, Op_Acked 4 2, Op_Lost 0 10, Op_Sent 0 2] (\<lambda>_. None) x = None)"
  using range_tracker_refines [of 10 "[Op_Sent 0 10, Op_Acked 4 2, Op_Lost 0 10, Op_Sent 0 2]"] by auto

subsection \<open>The buffer\<close>

text \<open>The buffer of a stream to which the application has written \<open>d\<close>.\<close>

definition tx_ok :: "bytes \<Rightarrow> tx_buffer \<Rightarrow> bool" where
  "tx_ok d b \<longleftrightarrow> tracker_ok (length d) (tx_ranges b) \<and> send_buf b = drop (tx_retired b) d \<and> length d < 2 ^ 64
     \<and> tx_buffered b \<le> TX_MAX_SIZE"

abbreviation tx_status :: "tx_buffer \<Rightarrow> nat \<Rightarrow> range_state option" where
  "tx_status b \<equiv> status (tx_ranges b)"

lemma tx_retired_bound:
  assumes "tx_ok d b"
  shows "tx_retired b \<le> length d" "tx_used b = length d"
proof -
  have "status (tx_ranges b) (length d) = None"
    using assms by (auto simp: tx_ok_def tracker_ok_def)
  then show "tx_retired b \<le> length d"
    by (auto simp: status_def tx_retired_def acked_from_zero_def split: if_splits)
  then show "tx_used b = length d"
    using assms by (simp add: tx_ok_def tx_used_def tx_buffered_def)
qed

lemma tx_ok_new: "tx_ok [] tx_buffer_new"
  by (simp add: tx_ok_def tx_buffer_new_def tracker_ok_default tx_retired_def tx_buffered_def)

lemma tx_send_ok:
  assumes "tx_ok d b" "length d + length buf < 2 ^ 64"
  shows "\<exists>b'. tx_send b buf = Ok (min (tx_avail b) (length buf), b') \<and> tx_ok (d @ take (min (tx_avail b) (length buf)) buf) b'
    \<and> tx_ranges b' = tx_ranges b"
proof -
  let ?n = "min (tx_avail b) (length buf)"
  have t: "tracker_ok (length (d @ take ?n buf)) (tx_ranges b)" "tx_retired b \<le> length d"
    using assms(1) tx_retired_bound [OF assms(1)] by (force simp: tx_ok_def tracker_ok_def)+
  have "tx_ok (d @ take ?n buf) (b\<lparr>send_buf := send_buf b @ take ?n buf\<rparr>)"
    using assms t by (auto simp: tx_ok_def tx_retired_def tx_buffered_def tx_avail_def)
  then show ?thesis
    using assms by (cases "?n = 0") (auto simp: tx_send_def Let_def tx_avail_def tx_buffered_def assert_res_def tx_ok_def)
qed

lemma tx_first_unmarked_ok:
  assumes ok: "tx_ok d b"
  obtains r b' where "tx_first_unmarked b = (r, b')" "tx_ok d b'" "tx_status b' = tx_status b" "send_buf b' = send_buf b"
    "tx_retired b' = tx_retired b"
    "case r of None \<Rightarrow> \<forall>x<length d. tx_status b x \<noteq> None
     | Some (s, n) \<Rightarrow> tx_retired b \<le> s \<and> s < length d \<and> (\<forall>x < s. tx_status b x \<noteq> None) \<and> tx_status b s = None
         \<and> (case n of None \<Rightarrow> \<forall>x\<ge>s. tx_status b x = None
            | Some k \<Rightarrow> 0 < k \<and> s + k < length d \<and> (\<forall>x. s \<le> x \<and> x < s + k \<longrightarrow> tx_status b x = None))"
proof -
  have t: "tracker_ok (length d) (tx_ranges b)" and L: "length d < 2 ^ 64"
    using ok by (simp_all add: tx_ok_def)
  obtain s n t' where f: "first_unmarked_range (tx_ranges b) = ((s, n), t')" and t': "tracker_ok (length d) t'" "status t' = tx_status b"
      "rt_acked t' = rt_acked (tx_ranges b)"
    and s: "rt_acked (tx_ranges b) \<le> s" "tx_status b s = None" "\<And>x. x < s \<Longrightarrow> tx_status b x \<noteq> None" "s \<le> length d"
    and n: "case n of None \<Rightarrow> \<forall>x\<ge>s. tx_status b x = None
     | Some k \<Rightarrow> 0 < k \<and> (\<forall>x. s \<le> x \<and> x < s + k \<longrightarrow> tx_status b x = None) \<and> tx_status b (s + k) \<noteq> None"
    by (rule first_unmarked_range_ok [OF t L]) blast
  have "tx_ok d (b\<lparr>tx_ranges := t'\<rparr>)"
    using ok t' by (auto simp: tx_ok_def tx_retired_def acked_from_zero_def tx_buffered_def)
  moreover have "tx_first_unmarked b = (if s = length d then None else Some (s, n), b\<lparr>tx_ranges := t'\<rparr>)"
    using f tx_retired_bound(2) [OF ok] by (simp add: tx_first_unmarked_def tx_used_def)
  moreover have "s + k < length d" if "n = Some k" for k
    using n t that by (auto simp: tracker_ok_def)
  ultimately show ?thesis
    using that s n t' by (auto simp: tx_retired_def acked_from_zero_def split: option.splits if_splits)
qed

text \<open>The bytes that \<open>next_bytes\<close> offers, when \<open>d\<close> was written and \<open>f\<close> is the state of the offsets.\<close>

definition offered :: "bytes \<Rightarrow> (nat \<Rightarrow> range_state option) \<Rightarrow> (nat \<times> bytes) option \<Rightarrow> bool" where
  "offered d f r = (case r of
       None \<Rightarrow> \<forall>x<length d. f x \<noteq> None
     | Some (s, bs) \<Rightarrow> bs \<noteq> [] \<and> s + length bs \<le> length d \<and> bs = take (length bs) (drop s d)
         \<and> (\<forall>x < s. f x \<noteq> None) \<and> (\<forall>x. s \<le> x \<and> x < s + length bs \<longrightarrow> f x = None))"

lemma tx_next_bytes_ok:
  assumes ok: "tx_ok d b"
  shows "\<exists>r b'. tx_next_bytes k b = Ok (r, b') \<and> tx_ok d b' \<and> tx_status b' = tx_status b \<and> send_buf b' = send_buf b
    \<and> tx_retired b' = tx_retired b \<and> offered d (tx_status b) r"
proof -
  obtain r b' where f: "tx_first_unmarked b = (r, b')" and b': "tx_ok d b'" "tx_status b' = tx_status b" "send_buf b' = send_buf b"
      "tx_retired b' = tx_retired b"
    and r: "case r of None \<Rightarrow> \<forall>x<length d. tx_status b x \<noteq> None
     | Some (s, n) \<Rightarrow> tx_retired b \<le> s \<and> s < length d \<and> (\<forall>x < s. tx_status b x \<noteq> None) \<and> tx_status b s = None
         \<and> (case n of None \<Rightarrow> \<forall>x\<ge>s. tx_status b x = None
            | Some k \<Rightarrow> 0 < k \<and> s + k < length d \<and> (\<forall>x. s \<le> x \<and> x < s + k \<longrightarrow> tx_status b x = None))"
    by (rule tx_first_unmarked_ok [OF ok])
  show ?thesis
  proof (cases r)
    case None
    then show ?thesis
      using f b' r by (simp add: tx_next_bytes_def offered_def)
  next
    case (Some sn)
    obtain s n where sn: "sn = (s, n)" by force
    have s: "tx_retired b \<le> s" "s < length d" "\<forall>x < s. tx_status b x \<noteq> None"
      using r Some sn by auto
    define q where "q = s - tx_retired b"
    have q: "u64_sub s (tx_retired b) = q"
      using s ok by (simp add: q_def u64_sub_eq tx_ok_def)
    define slc where "slc = (if q < k then drop q (take k (send_buf b)) else drop q (send_buf b))"
    define m where "m = (case n of None \<Rightarrow> length slc | Some n \<Rightarrow> min n (length slc))"
    have "send_buf b = drop (tx_retired b) d"
      using ok by (simp add: tx_ok_def)
    then have d: "drop q (send_buf b) = drop s d" and ol: "q < length (send_buf b)"
      using s by (auto simp: q_def add.commute)
    define j where "j = (if q < k then min (k - q) (length (drop s d)) else length (drop s d))"
    have j: "slc = take j (drop s d)" "0 < j" "j \<le> length (drop s d)"
      using s(2) d by (auto simp: slc_def j_def drop_take min_def)
    have "0 < m" "m \<le> length slc" "\<forall>x. s \<le> x \<and> x < s + m \<longrightarrow> tx_status b x = None"
      using r j Some sn by (auto simp: m_def split: option.splits)
    moreover from this have "take m slc = take (length (take m slc)) (drop s d)" "length (take m slc) = m" "s + m \<le> length d"
      using j by auto
    ultimately have "offered d (tx_status b) (Some (s, take m slc))"
      using s(3) unfolding offered_def by auto
    moreover have "tx_next_bytes k b = assert_res (0 < m \<and> m \<le> length slc) (Ok (Some (s, take m slc), b'))"
      unfolding tx_next_bytes_def f Some sn Let_def prod.case option.case q slc_def [symmetric] m_def [symmetric] ..
    ultimately show ?thesis
      using b' \<open>0 < m\<close> \<open>m \<le> length slc\<close> by (simp add: assert_res_def)
  qed
qed

text \<open>The operations that only change the state of offsets.\<close>

fun tx_op :: "range_op \<Rightarrow> tx_buffer \<Rightarrow> tx_buffer res" where
  "tx_op (Op_Sent off len) b = tx_mark_as_sent b off len"
| "tx_op (Op_Acked off len) b = tx_mark_as_acked b off len"
| "tx_op (Op_Lost off len) b = tx_mark_as_lost b off len"
| "tx_op Op_Unmark_Sent b = bind_res (tx_unmark_sent b) (\<lambda>(_, b'). Ok b')"
| "tx_op Op_First_Unmarked b = Ok (snd (tx_first_unmarked b))"

lemma tracker_ok_acked_least: "tracker_ok L t \<Longrightarrow> \<forall>x<k. status t x = Some Range_Acked \<Longrightarrow> k \<le> rt_acked t"
  using acked_maximal [of t] unfolding tracker_ok_def acked_from_zero_def by (meson linorder_not_less)

lemma tx_op_ok:
  assumes ok: "tx_ok d b" and p: "op_bound (length d) p"
  shows "\<exists>b'. tx_op p b = Ok b' \<and> tx_ok d b' \<and> tx_status b' = spec_op p (tx_status b) \<and> tx_retired b \<le> tx_retired b'"
proof -
  have t: "tracker_ok (length d) (tx_ranges b)" and L: "length d < 2 ^ 64"
    using ok by (simp_all add: tx_ok_def)
  obtain t' where t': "rt_op p (tx_ranges b) = Ok t'" "tracker_ok (length d) t'" "status t' = spec_op p (tx_status b)"
    by (rule rt_op_ok [OF t L p])
  have "spec_op p (tx_status b) x = Some Range_Acked" if "x < rt_acked (tx_ranges b)" for x
    using that by (cases p) (auto simp: status_def)
  then have le: "rt_acked (tx_ranges b) \<le> rt_acked t'"
    using t'(2,3) by (intro tracker_ok_acked_least) auto
  have le': "rt_acked t' \<le> length d"
    using t'(2) by (metis (mono_tags) tracker_ok_def linorder_not_less less_irrefl option.distinct(1) status_def)
  define b' where "b' = b\<lparr>send_buf := drop (rt_acked t' - rt_acked (tx_ranges b)) (send_buf b), tx_ranges := t'\<rparr>"
  have "tx_ok d b'" "tx_status b' = spec_op p (tx_status b)" "tx_retired b \<le> tx_retired b'"
    using ok t' le le' L by (auto simp: b'_def tx_ok_def tx_retired_def acked_from_zero_def tx_buffered_def)
  moreover have "tx_op p b = Ok b'"
  proof (cases "\<exists>off len. p = Op_Acked off len")
    case True
    then show ?thesis
      using t'(1) le le' L ok
      by (auto simp: tx_mark_as_acked_def tx_retired_def acked_from_zero_def u64_sub_eq b'_def tx_ok_def tx_buffered_def)
  next
    case False
    then have "status t' x = Some Range_Acked \<longleftrightarrow> tx_status b x = Some Range_Acked" for x
      unfolding t'(3) by (cases p) auto
    then have "\<forall>x<rt_acked t'. tx_status b x = Some Range_Acked"
      by (metis status_def)
    then have "rt_acked t' = rt_acked (tx_ranges b)"
      using le tracker_ok_acked_least [OF t] by (simp add: antisym)
    then have "b' = b\<lparr>tx_ranges := t'\<rparr>"
      by (simp add: b'_def)
    then show ?thesis
      using t'(1) False
      by (cases p) (auto simp: tx_mark_as_sent_def tx_mark_as_lost_def tx_unmark_sent_def tx_first_unmarked_def Let_def bind_res_Ok_iff split: prod.splits)
  qed
  ultimately show ?thesis
    by blast
qed

text \<open>The uses of a buffer: what has been written to it and the state of the offsets.\<close>

inductive tx_reach :: "bytes \<Rightarrow> tx_buffer \<Rightarrow> (nat \<Rightarrow> range_state option) \<Rightarrow> bool" where
  tx_start: "tx_reach [] tx_buffer_new (\<lambda>_. None)"
| tx_written: "tx_reach d b f \<Longrightarrow> length d + length buf < 2 ^ 64 \<Longrightarrow> tx_send b buf = Ok (n, b') \<Longrightarrow> tx_reach (d @ take n buf) b' f"
| tx_offers: "tx_reach d b f \<Longrightarrow> tx_next_bytes k b = Ok (r, b') \<Longrightarrow> tx_reach d b' f"
| tx_marks: "tx_reach d b f \<Longrightarrow> op_bound (length d) p \<Longrightarrow> tx_op p b = Ok b' \<Longrightarrow> tx_reach d b' (spec_op p f)"

lemma tx_reach_ok: "tx_reach d b f \<Longrightarrow> tx_ok d b \<and> tx_status b = f"
proof (induction rule: tx_reach.induct)
  case tx_start
  then show ?case
    using tx_ok_new by (auto simp: tx_buffer_new_def rt_ok_default(2))
next
  case (tx_written d b f buf n b')
  then show ?case
    using tx_send_ok [of d b buf] by auto
next
  case (tx_offers d b f k r b')
  then show ?case
    using tx_next_bytes_ok [of d b k] by auto
next
  case (tx_marks d b f p b')
  then show ?case
    using tx_op_ok [of d b p] by auto
qed


lemma sample_reach: "tx_reach [1, 2, 3] \<lparr>send_buf = [1, 2, 3], tx_ranges = range_tracker_default\<rparr> (\<lambda>_. None)"
  using tx_written [OF tx_start, of "[1, 2, 3]" 3] 
  by (simp add: tx_send_def tx_buffer_new_def tx_buffered_def TX_MAX_SIZE_def MAX_LOCAL_MAX_STREAM_DATA_def Let_def assert_res_def)


end
