(* ===== verification/Send_Delivery.thy ===== *)
theory Send_Delivery
  imports Send_Stream Send_Buffer
begin

text \<open>
  What a send stream keeps: \<open>d\<close> is what the application has written to it, \<open>F\<close> the recovery tokens of the frames it has written, \<open>A\<close>
  those of its acknowledged \<open>STREAM\<close> frames.
\<close>

subsection \<open>The invariant\<close>

definition covers :: "stream_token list \<Rightarrow> nat \<Rightarrow> bool" where
  "covers A x \<longleftrightarrow> (\<exists>t\<in>set A. rt_offset t \<le> x \<and> x < rt_offset t + rt_length t)"

text \<open>The flow controller of a stream to which \<open>n\<close> bytes were written.\<close>

definition sfc_ok :: "nat \<Rightarrow> 'a sender_fc \<Rightarrow> bool" where
  "sfc_ok n fc \<longleftrightarrow> sfc_used fc = n \<and> n \<le> sfc_limit fc \<and> sfc_limit fc \<le> MAX_VARINT"

fun state_inv :: "bytes \<Rightarrow> stream_token list \<Rightarrow> send_state \<Rightarrow> bool" where
  "state_inv d A (SS_Ready fc) = (d = [] \<and> sfc_ok 0 fc)"
| "state_inv d A (SS_Send fc b c) = (tx_ok d b \<and> sfc_ok (length d) fc \<and> c \<le> length d)"
| "state_inv d A (SS_DataSent b fs fa c) = (tx_ok d b \<and> c \<le> length d \<and> (fa \<longrightarrow> (\<exists>t\<in>set A. rt_fin t)))"
| "state_inv d A (SS_DataRecvd r w) = (r = length d \<and> w = 0 \<and> (\<exists>t\<in>set A. rt_fin t))"
| "state_inv d A (SS_ResetSent e fs rs p r w) = (fs = length d \<and> r + w = length d \<and> rs \<le> length d \<and> (rs = 0 \<or> rs \<le> r))"
| "state_inv d A (SS_ResetSentReliable b e fs rs p a) =
     (tx_ok d b \<and> fs = length d \<and> rs \<le> length d \<and> tx_retired b < rs)"
| "state_inv d A (SS_ResetRecvd r w) = (r + w = length d)"

definition buf_acked :: "stream_token list \<Rightarrow> tx_buffer \<Rightarrow> bool" where
  "buf_acked A b \<longleftrightarrow> (\<forall>x. tx_status b x = Some Range_Acked \<longrightarrow> covers A x)"

fun state_acked :: "stream_token list \<Rightarrow> send_state \<Rightarrow> bool" where
  "state_acked A (SS_Ready fc) = True"
| "state_acked A (SS_Send fc b c) = buf_acked A b"
| "state_acked A (SS_DataSent b f g c) = buf_acked A b"
| "state_acked A (SS_DataRecvd r w) = (\<forall>x<r. covers A x)"
| "state_acked A (SS_ResetSent e fs rs p r w) = (\<forall>x<r. covers A x)"
| "state_acked A (SS_ResetSentReliable b e fs rs p a) = buf_acked A b"
| "state_acked A (SS_ResetRecvd r w) = (\<forall>x<r. covers A x)"

definition open_state :: "send_state \<Rightarrow> bool" where
  "open_state st \<longleftrightarrow> state_fc st \<noteq> None"

definition is_reset :: "send_state \<Rightarrow> bool" where
  "is_reset st \<longleftrightarrow> (case st of SS_ResetSent _ _ _ _ _ _ \<Rightarrow> True | SS_ResetSentReliable _ _ _ _ _ _ \<Rightarrow> True
     | SS_ResetRecvd _ _ \<Rightarrow> True | _ \<Rightarrow> False)"

definition stream_tokens :: "tokens \<Rightarrow> stream_token list" where
  "stream_tokens F = List.map_filter (\<lambda>t. case t of Tok_Stream (SRT_Stream t) \<Rightarrow> Some t | _ \<Rightarrow> None) F"

definition frame_inv :: "bytes \<Rightarrow> send_stream \<Rightarrow> stream_token \<Rightarrow> bool" where
  "frame_inv d s t \<longleftrightarrow> rt_offset t + rt_length t \<le> bytes_sent s \<and> (rt_fin t \<longrightarrow> \<not> open_state (ss_state s) \<and> rt_offset t + rt_length t = length d)"

definition ss_inv :: "bytes \<Rightarrow> tokens \<Rightarrow> stream_token list \<Rightarrow> send_stream \<Rightarrow> bool" where
  "ss_inv d F A s \<longleftrightarrow> state_inv d A (ss_state s) \<and> state_acked A (ss_state s) \<and> bytes_sent s \<le> length d
     \<and> list_all (frame_inv d s) (stream_tokens F) \<and> set A \<subseteq> set (stream_tokens F)
     \<and> (Tok_Stream (SRT_ResetStream (ss_id s)) \<in> set F \<longrightarrow> is_reset (ss_state s))"

lemma stream_tokens_append [simp]: "stream_tokens (F @ F') = stream_tokens F @ stream_tokens F'"
  by (simp add: stream_tokens_def List.map_filter_def)

lemma stream_tokens_Cons [simp]:
  "stream_tokens [] = []" "stream_tokens (Tok_Stream (SRT_Stream t) # F) = t # stream_tokens F"
  "stream_tokens (Tok_Stream (SRT_ResetStream i) # F) = stream_tokens F"
  "stream_tokens (Tok_Stream (SRT_StreamDataBlocked i n) # F) = stream_tokens F"
  by (simp_all add: stream_tokens_def List.map_filter_def)

lemma sfc_available_ok: "sfc_ok n fc \<Longrightarrow> sfc_available fc = sfc_limit fc - n"
  by (auto simp: sfc_ok_def sfc_available_def u64_sub_eq MAX_VARINT_def min_def)

lemma sfc_blocked_ok [simp]: "sfc_ok n (sfc_blocked fc) = sfc_ok n fc"
  by (simp add: sfc_ok_def sfc_blocked_def)

lemma sfc_frame_lost_ok [simp]: "sfc_ok n (sfc_frame_lost fc l) = sfc_ok n fc"
  by (simp add: sfc_ok_def sfc_frame_lost_def split: option.split)

lemma sfc_update_ok: "sfc_ok n fc \<Longrightarrow> l \<le> MAX_VARINT \<Longrightarrow> sfc_ok n (snd (sfc_update fc l))"
  by (auto simp: sfc_ok_def sfc_update_def Let_def)

text \<open>The parts of a state that the operations leave alone.\<close>

lemma tx_buf_simps [simp]:
  "tx_buf (SS_Ready fc) = None" "tx_buf (SS_Send fc b c) = Some b" "tx_buf (SS_DataSent b f g c) = Some b"
  "tx_buf (SS_DataRecvd r w) = None" "tx_buf (SS_ResetSent e fs rs p r w) = None"
  "tx_buf (SS_ResetSentReliable b e fs rs p a) = Some b" "tx_buf (SS_ResetRecvd r w) = None"
  by (simp_all add: tx_buf_def)

lemma state_fc_simps [simp]:
  "state_fc (SS_Ready fc) = Some fc" "state_fc (SS_Send fc b c) = Some fc" "state_fc (SS_DataSent b f g c) = None"
  "state_fc (SS_DataRecvd r w) = None" "state_fc (SS_ResetSent e fs rs p r w) = None"
  "state_fc (SS_ResetSentReliable b e fs rs p a) = None" "state_fc (SS_ResetRecvd r w) = None"
  by (simp_all add: state_fc_def)

lemma set_state_fc_simps [simp]:
  "set_state_fc (SS_Ready fc) fc' = SS_Ready fc'" "set_state_fc (SS_Send fc b c) fc' = SS_Send fc' b c"
  by (simp_all add: set_state_fc_def)

lemma set_tx_buf_simps [simp]:
  "set_tx_buf (SS_Send fc b c) b' = SS_Send fc b' c" "set_tx_buf (SS_DataSent b f g c) b' = SS_DataSent b' f g c"
  "set_tx_buf (SS_ResetSentReliable b e fs rs p a) b' = SS_ResetSentReliable b' e fs rs p a"
  by (simp_all add: set_tx_buf_def)

lemma is_reset_simps [simp]:
  "\<not> is_reset (SS_Ready fc)" "\<not> is_reset (SS_Send fc b c)" "\<not> is_reset (SS_DataSent b f g c)" "\<not> is_reset (SS_DataRecvd r w)"
  "is_reset (SS_ResetSent e fs rs p r w)" "is_reset (SS_ResetSentReliable b e fs rs p a)" "is_reset (SS_ResetRecvd r w)"
  by (simp_all add: is_reset_def)

lemma state_fcE:
  assumes "state_fc st = Some fc"
  obtains "st = SS_Ready fc" | b c where "st = SS_Send fc b c"
  using assms by (cases st) auto

lemma tx_bufE:
  assumes "tx_buf st = Some b"
  obtains fc c where "st = SS_Send fc b c" | f g c where "st = SS_DataSent b f g c"
    | e fs rs p a where "st = SS_ResetSentReliable b e fs rs p a"
  using assms by (cases st) auto

lemma retired_acked: "tx_ok d b \<Longrightarrow> x < tx_retired b \<Longrightarrow> tx_status b x = Some Range_Acked"
  by (simp add: tx_retired_def acked_from_zero_def status_def)

lemma retired_covered: "tx_ok d b \<Longrightarrow> buf_acked A b \<Longrightarrow> x < tx_retired b \<Longrightarrow> covers A x"
  by (simp add: buf_acked_def retired_acked)

lemma buf_acked_new [simp]: "buf_acked A tx_buffer_new"
  by (simp add: buf_acked_def tx_buffer_new_def rt_ok_default(2))

text \<open>A new state for the same stream data and frames.\<close>

lemma ss_inv_state:
  assumes "ss_inv d F A s" "state_inv d A st" "state_acked A st" "open_state st \<Longrightarrow> open_state (ss_state s)"
    "is_reset (ss_state s) \<Longrightarrow> is_reset st"
  shows "ss_inv d F A (s\<lparr>ss_state := st\<rparr>)"
  using assms by (auto simp: ss_inv_def frame_inv_def list_all_iff)

lemma ss_inv_simps [simp]:
  "ss_inv d F A (s\<lparr>low_watermark := w\<rparr>) = ss_inv d F A s" "ss_inv d F A (s\<lparr>ss_priority := p, effective_priority := p'\<rparr>) = ss_inv d F A s"
  "ss_inv d F A (s\<lparr>retransmission_offset := n\<rparr>) = ss_inv d F A s"
  by (simp_all add: ss_inv_def frame_inv_def [abs_def])

subsection \<open>The application\<close>

lemma send_stream_new_inv: "m \<le> MAX_VARINT \<Longrightarrow> ss_inv [] [] [] (fst (send_stream_new i m cfc q))"
  by (simp add: send_stream_new_def Let_def ss_inv_def sfc_ok_def sender_fc_new_def)

text \<open>The invariant, state by state.\<close>

lemma ss_inv_st: "ss_inv d F A s \<Longrightarrow> state_inv d A (ss_state s) \<and> state_acked A (ss_state s)"
  by (simp add: ss_inv_def)

lemma ss_close_inv: "ss_inv d F A s \<Longrightarrow> ss_inv d F A (ss_close s)"
  using ss_inv_st [of d F A s] tx_ok_new by (cases "ss_state s") (auto simp: ss_close_def open_state_def intro!: ss_inv_state)

lemma commit_inv:
  assumes "ss_inv d F A s"
  shows "commit s \<noteq> Panic" "commit s = Ok s' \<Longrightarrow> ss_inv d F A s'"
  using assms ss_inv_st [OF assms] tx_retired_bound [of d]
  by (cases "ss_state s"; auto simp: commit_def open_state_def intro!: ss_inv_state)+

lemma make_reset_state_inv:
  assumes "ss_inv d F A s" "tx_buf (ss_state s) = Some b" "fs = length d"
  shows "ss_inv d F A (s\<lparr>ss_state := make_reset_state err p b fs c\<rparr>)"
proof -
  have b: "tx_ok d b" "buf_acked A b"
    using ss_inv_st [OF assms(1)] by (auto intro: tx_bufE [OF assms(2)])
  then show ?thesis
    using assms tx_retired_bound [OF b(1)]
    by (auto simp: make_reset_state_def Let_def open_state_def tx_used_def intro!: ss_inv_state intro: retired_covered)
qed

lemma ss_reset_inv:
  assumes "ss_inv d F A s"
  shows "ss_inv d F A (ss_reset s err)"
proof (cases "ss_state s")
  case (SS_Ready fc)
  then show ?thesis
    using assms ss_inv_st [OF assms] by (auto simp: ss_reset_def sfc_ok_def open_state_def intro!: ss_inv_state)
next
  case (SS_Send fc b c)
  then show ?thesis
    using ss_inv_st [OF assms] by (auto simp: ss_reset_def sfc_ok_def intro!: make_reset_state_inv [OF assms])
next
  case (SS_DataSent b f g c)
  then show ?thesis
    using ss_inv_st [OF assms] tx_retired_bound [of d b] by (auto simp: ss_reset_def intro!: make_reset_state_inv [OF assms])
qed (use assms in \<open>simp_all add: ss_reset_def\<close>)

lemma drop_commitment_inv:
  assumes "ss_inv d F A s"
  shows "ss_inv d F A (drop_commitment s)"
  using assms ss_inv_st [OF assms] tx_retired_bound [of d]
  by (cases "ss_state s") (auto simp: drop_commitment_def open_state_def tx_used_def intro!: ss_inv_state intro: retired_covered)

lemma reset_acked_inv:
  assumes "ss_inv d F A s"
  shows "ss_inv d F A (reset_acked s)"
  using assms ss_inv_st [OF assms] tx_retired_bound [of d]
  by (cases "ss_state s") (auto simp: reset_acked_def open_state_def tx_used_def intro!: ss_inv_state intro: retired_covered)

lemma reset_lost_inv:
  assumes "ss_inv d F A s" "is_reset (ss_state s)"
  shows "\<exists>s'. reset_lost s = Ok s' \<and> ss_inv d F A s'"
  using assms ss_inv_st [OF assms(1)] by (cases "ss_state s") (auto simp: reset_lost_def open_state_def intro!: ss_inv_state)

lemma ss_inv_fc:
  assumes "ss_inv d F A s" "state_fc (ss_state s) = Some fc" "sfc_ok (length d) fc \<Longrightarrow> sfc_ok (length d) fc'"
  shows "ss_inv d F A (s\<lparr>ss_state := set_state_fc (ss_state s) fc'\<rparr>)"
  using assms ss_inv_st [OF assms(1)] by (elim state_fcE) (auto simp: open_state_def intro!: ss_inv_state)

lemma blocked_lost_inv: "ss_inv d F A s \<Longrightarrow> ss_inv d F A (blocked_lost s l)"
  by (auto simp: blocked_lost_def split: option.split intro: ss_inv_fc)

lemma send_blocked_inv: "ss_inv d F A s \<Longrightarrow> ss_inv d F A (fst (send_blocked_if_space_needed s cfc n))"
  by (auto simp: send_blocked_if_space_needed_def split: option.split intro: ss_inv_fc)

lemma set_max_stream_data_inv: "ss_inv d F A s \<Longrightarrow> l \<le> MAX_VARINT \<Longrightarrow> ss_inv d F A (fst (set_max_stream_data s cfc q l))"
  using sfc_update_ok [of "length d" _ l]
  by (auto simp: set_max_stream_data_def Let_def case_prod_beta split: option.split intro!: ss_inv_fc)

text \<open>More data on an open stream.\<close>

lemma ss_inv_written:
  assumes "ss_inv d F A s" "open_state (ss_state s)" "tx_ok (d @ x) b" "sfc_ok (length (d @ x)) fc" "c \<le> length d" "buf_acked A b"
  shows "ss_inv (d @ x) F A (s\<lparr>ss_state := SS_Send fc b c\<rparr>)"
proof -
  have "\<not> is_reset (ss_state s)"
    using assms(2) by (cases "ss_state s") (auto simp: open_state_def)
  then show ?thesis
    using assms by (auto simp: ss_inv_def frame_inv_def list_all_iff)
qed

lemma send_internal_ok:
  assumes inv: "ss_inv d F A s" and cfc: "sfc_ok m cfc"
  shows "case send_internal s cfc buf atomic of
      Ok (n, s', cfc') \<Rightarrow> n \<le> length buf \<and> ss_inv (d @ take n buf) F A s' \<and> sfc_ok (m + n) cfc' \<and> ss_id s' = ss_id s
    | Err e \<Rightarrow> True | Panic \<Rightarrow> False"
proof -
  define s1 where "s1 = (case ss_state s of SS_Ready fc \<Rightarrow> s\<lparr>ss_state := SS_Send fc tx_buffer_new 0\<rparr> | _ \<Rightarrow> s)"
  have i1: "ss_inv d F A s1" and id: "ss_id s1 = ss_id s"
    using inv ss_inv_st [OF inv] tx_ok_new by (auto simp: s1_def open_state_def split: send_state.split intro!: ss_inv_state)
  show ?thesis
  proof (cases "\<exists>fc b c. ss_state s1 = SS_Send fc b c")
    case False
    then have "send_internal s cfc buf atomic = Err InvalidInput \<or> send_internal s cfc buf atomic = Err FinalSize"
      unfolding send_internal_def s1_def [symmetric] Let_def by (cases "ss_state s1") auto
    then show ?thesis by auto
  next
    case True
    then obtain fc b c where st: "ss_state s1 = SS_Send fc b c" by blast
    have ok: "tx_ok d b" "sfc_ok (length d) fc" "c \<le> length d" "buf_acked A b"
      using ss_inv_st [OF i1] st by auto
    define n where "n = min (ss_avail s1 cfc) (length buf)"
    have av: "n \<le> sfc_limit fc - length d" "n \<le> sfc_limit cfc - m" "n \<le> tx_avail b"
      using sfc_available_ok [OF ok(2)] sfc_available_ok [OF cfc] st by (auto simp: n_def ss_avail_def state_tx_avail_def)
    have buf: "(if ss_avail s1 cfc < length buf then take (ss_avail s1 cfc) buf else buf) = take n buf"
      by (simp add: n_def)
    have lim: "sfc_limit fc < 2 ^ 62" "length d \<le> sfc_limit fc" "sfc_used fc = length d" "m \<le> sfc_limit cfc" "sfc_limit cfc < 2 ^ 62" "sfc_used cfc = m"
      using ok(2) cfc by (simp_all add: sfc_ok_def MAX_VARINT_def)
    then have "length d + length (take n buf) < 2 ^ 64"
      using av(1) by simp
    moreover have "min (tx_avail b) (length (take n buf)) = n"
      using av(3) by (simp add: n_def)
    ultimately obtain b' where b': "tx_send b (take n buf) = Ok (n, b')" "tx_ok (d @ take n buf) b'" "tx_ranges b' = tx_ranges b"
      using tx_send_ok [OF ok(1), of "take n buf"] by auto
    have c: "sfc_consume fc n = Ok (fc\<lparr>sfc_used := length d + n\<rparr>)" "sfc_consume cfc n = Ok (cfc\<lparr>sfc_used := m + n\<rparr>)"
      using lim av by (simp_all add: sfc_consume_def u64_add_eq)
    have "ss_inv (d @ take n buf) F A (s1\<lparr>ss_state := SS_Send (fc\<lparr>sfc_used := length d + n\<rparr>) b' c\<rparr>)"
      using i1 st b' ok lim av by (intro ss_inv_written) (auto simp: open_state_def sfc_ok_def buf_acked_def n_def)
    then have sent: "n \<le> length buf \<and> ss_inv (d @ take n buf) F A (s1\<lparr>ss_state := SS_Send (fc\<lparr>sfc_used := length d + n\<rparr>) b' c\<rparr>)
        \<and> sfc_ok (m + n) (cfc\<lparr>sfc_used := m + n\<rparr>)"
      using cfc av(2) lim by (auto simp: n_def sfc_ok_def)
    have "sfc_ok m (snd (send_blocked_if_space_needed s1 cfc k))" "ss_id (fst (send_blocked_if_space_needed s1 cfc k)) = ss_id s" for k
      using cfc id by (simp_all add: send_blocked_if_space_needed_def split: option.split)
    then show ?thesis
      using sent c b'(1) i1 st id cfc send_blocked_inv [OF i1, of cfc "length buf"]
      unfolding send_internal_def s1_def [symmetric] Let_def by (simp add: buf case_prod_beta)
  qed
qed

subsection \<open>Frames sent, acknowledged and lost\<close>

lemma tx_retired_same:
  assumes "tx_ok d b" "tx_ok d b'" "\<And>x. tx_status b' x = Some Range_Acked \<longleftrightarrow> tx_status b x = Some Range_Acked"
  shows "tx_retired b' = tx_retired b"
proof -
  have "rt_acked (tx_ranges a) \<le> rt_acked (tx_ranges b)"
    if "tx_ok d b" "\<And>x. tx_status a x = Some Range_Acked \<longleftrightarrow> tx_status b x = Some Range_Acked" for a b
  proof (rule tracker_ok_acked_least)
    show "tracker_ok (length d) (tx_ranges b)"
      using that(1) by (simp add: tx_ok_def)
    show "\<forall>x<rt_acked (tx_ranges a). tx_status b x = Some Range_Acked"
      using that(2) by (metis status_def)
  qed
  then show ?thesis
    using assms by (metis acked_from_zero_def antisym tx_retired_def)
qed

lemma ss_inv_buf:
  assumes inv: "ss_inv d F A s" and b: "tx_buf (ss_state s) = Some b" and ok: "tx_ok d b'"
    and acked: "\<And>x. tx_status b' x = Some Range_Acked \<longleftrightarrow> tx_status b x = Some Range_Acked"
  shows "ss_inv d F A (s\<lparr>ss_state := set_tx_buf (ss_state s) b'\<rparr>)"
proof -
  have "tx_ok d b"
    using ss_inv_st [OF inv] by (auto intro: tx_bufE [OF b])
  then have "tx_retired b' = tx_retired b"
    using tx_retired_same ok acked by blast
  then show ?thesis
    using ss_inv_st [OF inv] ok acked by (auto simp: open_state_def buf_acked_def intro!: ss_inv_state [OF inv] intro: tx_bufE [OF b])
qed

lemma ss_inv_bufD: "ss_inv d F A s \<Longrightarrow> tx_buf (ss_state s) = Some b \<Longrightarrow> tx_ok d b \<and> buf_acked A b"
  using ss_inv_st [of d F A s] by (auto elim!: tx_bufE)

lemma ss_inv_sent_bytes:
  assumes "ss_inv d F A s" "n \<le> length d"
  shows "ss_inv d F A (s\<lparr>bytes_sent := max (bytes_sent s) n\<rparr>)"
  using assms by (auto simp: ss_inv_def frame_inv_def list_all_iff)

lemma ss_inv_token:
  assumes "ss_inv d F A s" "frame_inv d s t"
  shows "ss_inv d (F @ [Tok_Stream (SRT_Stream t)]) A s"
  using assms by (auto simp: ss_inv_def)

lemma send_blocked_same [simp]:
  "bytes_sent (fst (send_blocked_if_space_needed s cfc n)) = bytes_sent s" "ss_id (fst (send_blocked_if_space_needed s cfc n)) = ss_id s"
  "open_state (ss_state (fst (send_blocked_if_space_needed s cfc n))) = open_state (ss_state s)"
  "sfc_ok m (snd (send_blocked_if_space_needed s cfc n)) = sfc_ok m cfc"
  by (auto simp: send_blocked_if_space_needed_def open_state_def split: option.split elim!: state_fcE)

lemma set_fin_sent_inv: "ss_inv d F A s \<Longrightarrow> ss_inv d F A (set_fin_sent s f)"
  using ss_inv_st [of d F A s] by (cases "ss_state s") (auto simp: set_fin_sent_def open_state_def intro!: ss_inv_state)

lemma set_fin_sent_same [simp]: "ss_id (set_fin_sent s f) = ss_id s"
  by (simp add: set_fin_sent_def split: send_state.split)

lemma mark_as_sent_ok:
  assumes inv: "ss_inv d F A s" and t: "rt_offset t + rt_length t \<le> length d"
    "rt_fin t \<Longrightarrow> \<not> open_state (ss_state s) \<and> rt_offset t + rt_length t = length d"
  shows "\<exists>s' cfc'. ss_mark_as_sent s cfc (rt_offset t) (rt_length t) (rt_fin t) = Ok (s', cfc') \<and> ss_id s' = ss_id s
    \<and> ss_inv d (F @ [Tok_Stream (SRT_Stream t)]) A s' \<and> (sfc_ok m cfc \<longrightarrow> sfc_ok m cfc')"
proof -
  define s1 where "s1 = s\<lparr>bytes_sent := max (bytes_sent s) (rt_offset t + rt_length t)\<rparr>"
  have i1: "ss_inv d F A s1" and st: "ss_state s1 = ss_state s" "ss_id s1 = ss_id s" "rt_offset t + rt_length t \<le> bytes_sent s1"
    using ss_inv_sent_bytes [OF inv t(1)] by (simp_all add: s1_def)
  have fin: "ss_inv d (F @ [Tok_Stream (SRT_Stream t)]) A (if rt_fin t then set_fin_sent s2 (\<lambda>_. True) else s2)"
    if i2: "ss_inv d F A s2" "bytes_sent s2 = bytes_sent s1" "open_state (ss_state s2) = open_state (ss_state s)" for s2
  proof -
    have "ss_inv d (F @ [Tok_Stream (SRT_Stream t)]) A s2"
      using i2 t(2) st(3) by (intro ss_inv_token) (auto simp: frame_inv_def)
    then show ?thesis
      by (simp add: set_fin_sent_inv)
  qed
  show ?thesis
  proof (cases "tx_buf (ss_state s)")
    case None
    then show ?thesis
      using fin [OF i1] st by (auto simp: ss_mark_as_sent_def Let_def s1_def [symmetric])
  next
    case (Some b)
    have ok: "tx_ok d b"
      using ss_inv_bufD [OF inv Some] by simp
    then obtain b' where b': "tx_mark_as_sent b (rt_offset t) (rt_length t) = Ok b'" "tx_ok d b'"
        "tx_status b' = spec_op (Op_Sent (rt_offset t) (rt_length t)) (tx_status b)"
      using tx_op_ok [of d b "Op_Sent (rt_offset t) (rt_length t)"] t(1) by auto
    define s2 where "s2 = s1\<lparr>ss_state := set_tx_buf (ss_state s1) b'\<rparr>"
    have i2: "ss_inv d F A s2"
      unfolding s2_def using Some st b' by (intro ss_inv_buf [OF i1, of b]) auto
    have "open_state (ss_state s2) = open_state (ss_state s)"
      using Some st(1) by (auto simp: s2_def open_state_def elim!: tx_bufE)
    then show ?thesis
      using fin [OF send_blocked_inv [OF i2, of cfc 0]] b'(1) st(2) Some unfolding st(1) [symmetric] ss_mark_as_sent_def Let_def s1_def [symmetric] s2_def
      by (simp add: case_prod_beta)
  qed
qed

lemma covers_more [simp]: "covers A x \<Longrightarrow> covers (A @ A') x"
  by (auto simp: covers_def)

lemma ss_inv_more_acked:
  assumes "ss_inv d F A s" "t \<in> set (stream_tokens F)"
  shows "ss_inv d F (A @ [t]) s"
proof -
  have "state_inv d (A @ [t]) (ss_state s)" "state_acked (A @ [t]) (ss_state s)"
    using ss_inv_st [OF assms(1)] by (cases "ss_state s"; auto simp: buf_acked_def)+
  then show ?thesis
    using assms by (simp add: ss_inv_def)
qed

lemma tx_acked_ok:
  assumes "tx_ok d b" "buf_acked A b" "rt_offset t + rt_length t \<le> length d"
  shows "\<exists>b'. tx_mark_as_acked b (rt_offset t) (rt_length t) = Ok b' \<and> tx_ok d b' \<and> buf_acked (A @ [t]) b' \<and> tx_retired b \<le> tx_retired b'"
  using tx_op_ok [of d b "Op_Acked (rt_offset t) (rt_length t)"] assms by (auto simp: buf_acked_def) (auto simp: covers_def)

lemma ss_inv_frame: "ss_inv d F A s \<Longrightarrow> t \<in> set (stream_tokens F) \<Longrightarrow> rt_offset t + rt_length t \<le> length d"
  by (fastforce simp: ss_inv_def frame_inv_def list_all_iff)

lemma mark_as_acked_ok:
  assumes inv: "ss_inv d F A s" and t: "t \<in> set (stream_tokens F)"
  shows "\<exists>s' q'. ss_mark_as_acked s cfc q (rt_offset t) (rt_length t) (rt_fin t) = Ok (s', q') \<and> ss_id s' = ss_id s
    \<and> ss_inv d F (A @ [t]) s'"
proof -
  note i = ss_inv_more_acked [OF inv t]
  note tl = ss_inv_frame [OF inv t]
  show ?thesis
  proof (cases "tx_buf (ss_state s)")
    case None
    then show ?thesis
      using i by (cases "ss_state s") (auto simp: ss_mark_as_acked_def)
  next
    case (Some b)
    have b: "tx_ok d b" "buf_acked A b"
      using ss_inv_bufD [OF inv Some] by simp_all
    obtain b' where b': "tx_mark_as_acked b (rt_offset t) (rt_length t) = Ok b'" "tx_ok d b'" "buf_acked (A @ [t]) b'"
        "tx_retired b \<le> tx_retired b'"
      using tx_acked_ok [OF b tl] by blast
    have r: "tx_retired b' + tx_buffered b' = length d" and cov: "\<forall>x<tx_retired b'. covers (A @ [t]) x"
      using tx_retired_bound(2) [OF b'(2)] retired_covered [OF b'(2,3)] by (simp_all add: tx_used_def)
    show ?thesis
      using Some
    proof (cases rule: tx_bufE)
      case (1 fc c)
      then show ?thesis
        using b' ss_inv_st [OF i] by (auto simp: ss_mark_as_acked_def Let_def open_state_def intro!: ss_inv_state [OF i])
    next
      case (2 f g c)
      then show ?thesis
        using b' r cov ss_inv_st [OF i] by (auto simp: ss_mark_as_acked_def Let_def open_state_def intro!: ss_inv_state [OF i])
    next
      case (3 e fs rs p a)
      then show ?thesis
        using b' r cov ss_inv_st [OF i] by (auto simp: ss_mark_as_acked_def Let_def open_state_def intro!: ss_inv_state [OF i])
    qed
  qed
qed

lemma mark_as_lost_ok:
  assumes inv: "ss_inv d F A s"
  shows "\<exists>s'. ss_mark_as_lost s off len fin = Ok s' \<and> ss_id s' = ss_id s \<and> ss_inv d F A s'"
proof -
  define s1 where "s1 = s\<lparr>retransmission_offset := max (retransmission_offset s) (off + len)\<rparr>"
  have i1: "ss_inv d F A s1" and st: "ss_state s1 = ss_state s" "ss_id s1 = ss_id s"
    using inv by (simp_all add: s1_def)
  show ?thesis
  proof (cases "tx_buf (ss_state s)")
    case None
    then show ?thesis
      using i1 st by (simp add: ss_mark_as_lost_def Let_def s1_def [symmetric] set_fin_sent_inv)
  next
    case (Some b)
    have ok: "tx_ok d b"
      using ss_inv_bufD [OF inv Some] by simp
    then obtain b' where b': "tx_mark_as_lost b off len = Ok b'" "tx_ok d b'" "tx_status b' = spec_op (Op_Lost off len) (tx_status b)"
      using tx_op_ok [of d b "Op_Lost off len"] by auto
    have "ss_inv d F A (s1\<lparr>ss_state := set_tx_buf (ss_state s1) b'\<rparr>)"
      using Some st b' by (intro ss_inv_buf [OF i1, of b]) auto
    then show ?thesis
      using b'(1) Some st by (simp add: ss_mark_as_lost_def Let_def s1_def [symmetric] set_fin_sent_inv)
  qed
qed

subsection \<open>Frames written\<close>

text \<open>What \<open>next_bytes\<close> of the stream offers: bytes of the stream at their offset, or the end of the stream.\<close>

definition stream_bytes :: "bytes \<Rightarrow> send_state \<Rightarrow> (nat \<times> bytes) option \<Rightarrow> bool" where
  "stream_bytes d st r = (case r of
       None \<Rightarrow> True
     | Some (off, bs) \<Rightarrow> off + length bs \<le> length d \<and> bs = take (length bs) (drop off d)
         \<and> (bs = [] \<longrightarrow> off = length d \<and> (\<exists>b g c. st = SS_DataSent b False g c)))"

lemma offered_stream_bytes: "offered d f r \<Longrightarrow> stream_bytes d st r"
  by (auto simp: offered_def stream_bytes_def split: option.split)

lemma min_eq_0: "min m n = (0 :: nat) \<longleftrightarrow> m = 0 \<or> n = 0"
  by (auto simp: min_def)

lemma cut_stream_bytes:
  assumes "offered d f r"
  shows "stream_bytes d st (cut_bytes limit r)"
proof (cases r)
  case (Some e)
  obtain off bs where e: "e = (off, bs)" by force
  have bs: "bs \<noteq> []" "off + length bs \<le> length d" "bs = take (length bs) (drop off d)"
    using assms by (auto simp: offered_def Some e)
  have "take n bs = take (length (take n bs)) (drop off d)" for n
    using bs(2) by (subst (1) bs(3)) (simp add: min.commute)
  then show ?thesis
    using bs(1,2) by (auto simp: cut_bytes_def stream_bytes_def Some e min_eq_0)
qed (simp add: cut_bytes_def stream_bytes_def)

lemma ss_next_bytes_ok:
  assumes inv: "ss_inv d F A s"
  shows "\<exists>r s'. ss_next_bytes k s ro = Ok (r, s') \<and> ss_inv d F A s' \<and> ss_id s' = ss_id s
    \<and> open_state (ss_state s') = open_state (ss_state s) \<and> stream_bytes d (ss_state s) r"
proof (cases "tx_buf (ss_state s)")
  case None
  then show ?thesis
    using inv by (cases "ss_state s") (auto simp: ss_next_bytes_def stream_bytes_def)
next
  case (Some b)
  have ok: "tx_ok d b"
    using ss_inv_bufD [OF inv Some] by simp
  then obtain r b' where b': "tx_next_bytes k b = Ok (r, b')" "tx_ok d b'" "tx_status b' = tx_status b" "offered d (tx_status b) r"
    using tx_next_bytes_ok [OF ok, of k] by blast
  have i: "ss_inv d F A (s\<lparr>ss_state := set_tx_buf (ss_state s) b'\<rparr>)"
    using b' by (intro ss_inv_buf [OF inv Some]) auto
  have "tx_used b = length d"
    using tx_retired_bound(2) [OF ok] .
  then have e: "stream_bytes d (SS_DataSent b f g c) (if r \<noteq> None then r else if f then None else Some (tx_used b, []))" for f g c
    using offered_stream_bytes [OF b'(4)] by (auto simp: stream_bytes_def)
  show ?thesis
    using Some
  proof (cases rule: tx_bufE)
    case (1 fc c)
    then show ?thesis
      using b'(1) i offered_stream_bytes [OF b'(4)] cut_stream_bytes [OF b'(4)] by (simp add: ss_next_bytes_def open_state_def)
  next
    case (2 f g c)
    then show ?thesis
      using b'(1) i e by (simp add: ss_next_bytes_def open_state_def)
  next
    case (3 e fs rs p a)
    then show ?thesis
      using b'(1) i cut_stream_bytes [OF b'(4)] by (simp add: ss_next_bytes_def open_state_def)
  qed
qed

lemma length_and_fill_ok:
  assumes "n < 2 ^ 62"
  obtains len fill where "length_and_fill n space = Ok (len, fill)" "len \<le> n" "len \<le> space"
    "fill \<or> len = n \<and> n + varint_size n \<le> space"
proof (cases "space \<le> n")
  case True
  then show ?thesis
    using that [of space True] by (simp add: length_and_fill_def)
next
  case False
  then have "min (space - 1) n = n" "varint_size n \<le> space"
      "space < n + varint_size n + MINIMUM_FRAME_SIZE \<or> n + varint_size n \<le> space"
    by (auto simp: varint_size_def)
  then show ?thesis
    using that [of n "space < n + varint_size n + MINIMUM_FRAME_SIZE"] assms False
    by (simp add: length_and_fill_def varint_len_size assert_res_def)
qed

lemma length_and_fill_le: "length_and_fill n space = Ok (len, full) \<Longrightarrow> len \<le> n"
  by (auto simp: length_and_fill_def bind_res_Ok_iff split: if_splits)

text \<open>What writing a \<open>STREAM\<close> frame does to the stream: nothing, or what the token says.\<close>

lemma write_stream_frame_inv:
  assumes inv: "ss_inv d F A s" and w: "write_stream_frame B k s cfc p b ts = Ok (s', cfc', b', ts')"
  shows "\<exists>new. ts' = ts @ new \<and> ss_inv d (F @ new) A s' \<and> ss_id s' = ss_id s"
proof (cases "stream_priority s p")
  case None
  then show ?thesis
    using inv w by (simp add: write_stream_frame_def)
next
  case (Some ro)
  obtain r s1 where n: "ss_next_bytes k s ro = Ok (r, s1)" "ss_inv d F A s1" "ss_id s1 = ss_id s"
      "open_state (ss_state s1) = open_state (ss_state s)" "stream_bytes d (ss_state s) r"
    using ss_next_bytes_ok [OF inv] by blast
  show ?thesis
  proof (cases "s' = s1 \<and> ts' = ts")
    case True
    then show ?thesis
      using n by auto
  next
    case False
    then obtain off data len where r: "r = Some (off, data)" and len: "len \<le> length data"
      and t: "ts' = ts @ [Tok_Stream (SRT_Stream \<lparr>rt_id = ss_id s, rt_offset = off, rt_length = len,
            rt_fin = ((case ss_state s of SS_DataSent tb _ _ _ \<Rightarrow> Some (tx_used tb) | _ \<Rightarrow> None) = Some (off + len))\<rparr>)]"
        "ss_mark_as_sent s1 cfc off len ((case ss_state s of SS_DataSent tb _ _ _ \<Rightarrow> Some (tx_used tb) | _ \<Rightarrow> None) = Some (off + len))
          = Ok (s', cfc')"
      using w Some n(1) unfolding write_stream_frame_def
      by (auto simp: bind_res_Ok_iff Let_def split: option.splits if_splits prod.splits dest!: length_and_fill_le)
    have "off + len \<le> length d"
      using n(5) len by (simp add: r stream_bytes_def)
    moreover have "\<not> open_state (ss_state s) \<and> off + len = length d"
      if "(case ss_state s of SS_DataSent tb _ _ _ \<Rightarrow> Some (tx_used tb) | _ \<Rightarrow> None) = Some (off + len)"
      using that ss_inv_st [OF inv] tx_retired_bound(2) [of d] by (auto simp: open_state_def split: send_state.splits)
    ultimately show ?thesis
      using mark_as_sent_ok [OF n(2), of "\<lparr>rt_id = ss_id s, rt_offset = off, rt_length = len,
          rt_fin = ((case ss_state s of SS_DataSent tb _ _ _ \<Rightarrow> Some (tx_used tb) | _ \<Rightarrow> None) = Some (off + len))\<rparr>" cfc] t n(3,4)
      by auto
  qed
qed

lemma write_reset_frame_inv:
  assumes inv: "ss_inv d F A s" and w: "write_reset_frame B s p b ts = Ok (r, s', b', ts')"
  shows "\<exists>new. ts' = ts @ new \<and> ss_inv d (F @ new) A s' \<and> ss_id s' = ss_id s"
proof -
  have reset: "ss_inv d (F @ [Tok_Stream (SRT_ResetStream (ss_id s))]) A (s\<lparr>ss_state := st\<rparr>)"
    if "state_inv d A st" "state_acked A st" "\<not> open_state st" "is_reset st" for st
    using inv that by (auto simp: ss_inv_def frame_inv_def list_all_iff)
  show ?thesis
    using w inv ss_inv_st [OF inv]
    by (cases "ss_state s") (auto simp: write_reset_frame_def bind_res_Ok_iff open_state_def split: if_splits prod.splits intro!: reset)
qed

lemma write_blocked_frame_inv:
  assumes inv: "ss_inv d F A s" and w: "write_blocked_frame B s p b ts = Ok (s', b', ts')"
  shows "\<exists>new. ts' = ts @ new \<and> ss_inv d (F @ new) A s' \<and> ss_id s' = ss_id s"
proof (cases "state_fc (ss_state s)")
  case None
  then show ?thesis
    using assms by (simp add: write_blocked_frame_def)
next
  case (Some fc)
  have tok: "ss_inv d (F @ [Tok_Stream (SRT_StreamDataBlocked i l)]) A s'" if "ss_inv d F A s'" for i l s'
    using that by (auto simp: ss_inv_def)
  show ?thesis
    using assms Some ss_inv_fc [OF inv Some, of "blocked_sent fc"] ss_inv_fc [OF inv Some, of fc] tok
    by (auto simp: write_blocked_frame_def stream_sfc_write_frames_def sfc_write_def bind_res_Ok_iff blocked_sent_def sfc_ok_def
        split: if_splits option.splits)
qed

lemma write_frames_inv:
  assumes inv: "ss_inv d F A s" and w: "ss_write_frames B k s cfc p b ts = Ok (r, s', cfc', b', ts')"
  shows "\<exists>new. ts' = ts @ new \<and> ss_inv d (F @ new) A s' \<and> ss_id s' = ss_id s"
proof -
  obtain fin s1 b1 ts1 where 1: "write_reset_frame B s p b ts = Ok (fin, s1, b1, ts1)"
    using w by (auto simp: ss_write_frames_def bind_res_Ok_iff)
  then obtain n1 where n1: "ts1 = ts @ n1" "ss_inv d (F @ n1) A s1" "ss_id s1 = ss_id s"
    using write_reset_frame_inv [OF inv] by blast
  show ?thesis
  proof (cases fin)
    case True
    then show ?thesis
      using w 1 n1 by (auto simp: ss_write_frames_def)
  next
    case False
    then obtain s2 b2 ts2 where 2: "write_blocked_frame B s1 p b1 ts1 = Ok (s2, b2, ts2)"
        "s' = s2 \<and> ts' = ts2 \<or> (\<exists>cfc3 b3. write_stream_frame B k s2 cfc p b2 ts2 = Ok (s', cfc3, b3, ts'))"
      using w 1 by (auto simp: ss_write_frames_def bind_res_Ok_iff split: if_splits)
    then obtain n2 where n2: "ts2 = ts1 @ n2" "ss_inv d (F @ n1 @ n2) A s2" "ss_id s2 = ss_id s"
      using write_blocked_frame_inv [OF n1(2)] n1(3) by fastforce
    then show ?thesis
      using 2(2) n1(1) write_stream_frame_inv [OF n2(2)] by fastforce
  qed
qed

end
