(* ===== verification/Send_Run.thy ===== *)
theory Send_Run
  imports Send_Delivery
begin

text \<open>
  The life of a send stream: everything that the application, the peer's frames and the loss recovery do to it, in any order. The
  recovery only reports on frames that were written; the limits of the peer are varints.
\<close>

lemma tx_first_unmarked_inv:
  assumes "ss_inv d F A s" "tx_buf (ss_state s) = Some b" "b' = snd (tx_first_unmarked b)"
  shows "ss_inv d F A (s\<lparr>ss_state := set_tx_buf (ss_state s) b'\<rparr>)"
proof -
  have "tx_ok d b"
    using ss_inv_bufD [OF assms(1,2)] by simp
  then have "tx_ok d b'" "tx_status b' = tx_status b"
    using assms(3) by (auto intro: tx_first_unmarked_ok [of d b])
  then show ?thesis
    using ss_inv_buf [OF assms(1,2)] by simp
qed

lemma has_data_at_inv:
  assumes inv: "ss_inv d F A s"
  shows "ss_inv d F A (snd (has_data_at s p))" "ss_id (snd (has_data_at s p)) = ss_id s"
proof -
  have "ss_inv d F A (snd (ss_has_next_bytes s r)) \<and> ss_id (snd (ss_has_next_bytes s r)) = ss_id s" for r
    using inv tx_first_unmarked_inv [OF inv, of _ "snd (tx_first_unmarked _)"]
    by (cases "ss_state s")
      (auto simp: ss_has_next_bytes_def has_next_bytes_before_def tx_has_next_bytes_def tx_is_empty_def Let_def case_prod_beta)
  then show "ss_inv d F A (snd (has_data_at s p))" "ss_id (snd (has_data_at s p)) = ss_id s"
    using inv by (auto simp: has_data_at_def split: send_state.split option.split)
qed

inductive ss_run :: "'b Buffer \<Rightarrow> ('t, 'a) events itself \<Rightarrow> stream_id \<Rightarrow> bytes \<Rightarrow> tokens \<Rightarrow> stream_token list \<Rightarrow> send_stream \<Rightarrow> bool"
  for B :: "'b Buffer" and E :: "('t, 'a) events itself" and i :: stream_id where
  run_new: "m \<le> MAX_VARINT \<Longrightarrow> send_stream_new i m cfc (q :: ('t, 'a) events) = (s, q') \<Longrightarrow> ss_run B E i [] [] [] s"
| run_send: "ss_run B E i d F A s \<Longrightarrow> sfc_ok m cfc \<Longrightarrow> send_internal s cfc buf atomic = Ok (n, s', cfc')
    \<Longrightarrow> ss_run B E i (d @ take n buf) F A s'"
| run_max: "ss_run B E i d F A s \<Longrightarrow> l \<le> MAX_VARINT \<Longrightarrow> set_max_stream_data s cfc (q :: ('t, 'a) events) l = (s', q')
    \<Longrightarrow> ss_run B E i d F A s'"
| run_close: "ss_run B E i d F A s \<Longrightarrow> ss_run B E i d F A (ss_close s)"
| run_commit: "ss_run B E i d F A s \<Longrightarrow> commit s = Ok s' \<Longrightarrow> ss_run B E i d F A s'"
| run_reset: "ss_run B E i d F A s \<Longrightarrow> ss_run B E i d F A (ss_reset s err)"
| run_drop_commitment: "ss_run B E i d F A s \<Longrightarrow> ss_run B E i d F A (drop_commitment s)"
| run_priority: "ss_run B E i d F A s \<Longrightarrow> ss_run B E i d F A (set_priority s t r)"
| run_watermark: "ss_run B E i d F A s \<Longrightarrow> ss_run B E i d F A (set_writable_event_low_watermark s w)"
| run_has_data: "ss_run B E i d F A s \<Longrightarrow> has_data_at s p = (r, s') \<Longrightarrow> ss_run B E i d F A s'"
| run_frames: "ss_run B E i d F A s \<Longrightarrow> ss_write_frames B k s cfc p b ts = Ok (r, s', cfc', b', ts @ new)
    \<Longrightarrow> ss_run B E i d (F @ new) A s'"
| run_acked: "ss_run B E i d F A s \<Longrightarrow> t \<in> set (stream_tokens F)
    \<Longrightarrow> ss_mark_as_acked s cfc (q :: ('t, 'a) events) (rt_offset t) (rt_length t) (rt_fin t) = Ok (s', q')
    \<Longrightarrow> ss_run B E i d F (A @ [t]) s'"
| run_lost: "ss_run B E i d F A s \<Longrightarrow> t \<in> set (stream_tokens F)
    \<Longrightarrow> ss_mark_as_lost s (rt_offset t) (rt_length t) (rt_fin t) = Ok s' \<Longrightarrow> ss_run B E i d F A s'"
| run_reset_acked: "ss_run B E i d F A s \<Longrightarrow> Tok_Stream (SRT_ResetStream i) \<in> set F \<Longrightarrow> ss_run B E i d F A (reset_acked s)"
| run_reset_lost: "ss_run B E i d F A s \<Longrightarrow> Tok_Stream (SRT_ResetStream i) \<in> set F \<Longrightarrow> reset_lost s = Ok s' \<Longrightarrow> ss_run B E i d F A s'"
| run_blocked_lost: "ss_run B E i d F A s \<Longrightarrow> ss_run B E i d F A (blocked_lost s l)"

lemma same_id [simp]:
  "ss_id (ss_close s) = ss_id s" "ss_id (ss_reset s err) = ss_id s" "ss_id (drop_commitment s) = ss_id s" "ss_id (set_priority s t r) = ss_id s"
  "ss_id (set_writable_event_low_watermark s w) = ss_id s" "ss_id (reset_acked s) = ss_id s" "ss_id (blocked_lost s l) = ss_id s"
  "ss_id (fst (set_max_stream_data s cfc q l)) = ss_id s"
  by (auto simp: ss_close_def ss_reset_def drop_commitment_def set_priority_def set_writable_event_low_watermark_def reset_acked_def
      blocked_lost_def set_max_stream_data_def Let_def case_prod_beta split: send_state.split option.split)

lemma same_id_Ok:
  "commit s = Ok s' \<Longrightarrow> ss_id s' = ss_id s" "reset_lost s = Ok s' \<Longrightarrow> ss_id s' = ss_id s"
  by (auto simp: commit_def reset_lost_def split: send_state.splits)

lemma ss_run_inv: "ss_run B E i d F A s \<Longrightarrow> ss_inv d F A s \<and> ss_id s = i"
proof (induction rule: ss_run.induct)
  case (run_new m cfc q s q')
  then show ?case
    using send_stream_new_inv [of m i cfc q] by (auto simp: send_stream_new_def Let_def)
next
  case (run_send d F A s m cfc buf atomic n s' cfc')
  then show ?case
    using send_internal_ok [of d F A s m cfc buf atomic] by simp
next
  case (run_max d F A s l cfc q s' q')
  then show ?case
    using set_max_stream_data_inv [of d F A s l cfc q] same_id(8) [of s cfc q l] by simp
next
  case (run_commit d F A s s')
  then show ?case
    using commit_inv(2) same_id_Ok(1) by blast
next
  case (run_has_data d F A s p r s')
  then show ?case
    using has_data_at_inv [of d F A s p] by simp
next
  case (run_frames d F A s k cfc p b ts r s' cfc' b' new)
  then show ?case
    using write_frames_inv [of d F A s B k cfc p b ts] by fastforce
next
  case (run_acked d F A s t cfc q s' q')
  then show ?case
    using mark_as_acked_ok [of d F A s t cfc q] by auto
next
  case (run_lost d F A s t s')
  then show ?case
    using mark_as_lost_ok [of d F A s "rt_offset t" "rt_length t" "rt_fin t"] by auto
next
  case (run_reset_lost d F A s s')
  then have "is_reset (ss_state s)"
    by (auto simp: ss_inv_def)
  then show ?case
    using run_reset_lost reset_lost_inv [of d F A s] same_id_Ok(2) by fastforce
qed (auto simp: ss_close_inv ss_reset_inv drop_commitment_inv reset_acked_inv blocked_lost_inv set_priority_def set_writable_event_low_watermark_def)

subsection \<open>Properties\<close>

lemma bytes_acked_covered: "ss_inv d F A s \<Longrightarrow> x < bytes_acked s \<Longrightarrow> covers A x"
  using ss_inv_st [of d F A s] retired_covered [of d _ A x] by (cases "ss_state s") (auto simp: bytes_acked_def)

lemma bytes_written_eq: "ss_inv d F A s \<Longrightarrow> bytes_written s = length d"
  using ss_inv_st [of d F A s] tx_retired_bound(2) [of d] by (cases "ss_state s") (auto simp: bytes_written_def tx_used_def)

lemma bytes_acked_sent:
  assumes "ss_inv d F A s"
  shows "bytes_acked s \<le> bytes_sent s"
proof (cases "bytes_acked s")
  case (Suc n)
  then obtain t where "t \<in> set A" "n < rt_offset t + rt_length t"
    using bytes_acked_covered [OF assms, of n] by (auto simp: covers_def)
  moreover from this have "rt_offset t + rt_length t \<le> bytes_sent s"
    using assms by (auto simp: ss_inv_def frame_inv_def list_all_iff)
  ultimately show ?thesis
    using Suc by simp
qed simp

text \<open>What a state says of the stream: how much may be written, or what the peer is known to have.\<close>

definition state_promise :: "bytes \<Rightarrow> stream_token list \<Rightarrow> send_state \<Rightarrow> bool" where
  "state_promise d A st =
     (case st of
        SS_Ready fc \<Rightarrow> d = []
      | SS_Send fc b c \<Rightarrow> length d \<le> sfc_limit fc \<and> c \<le> length d
      | SS_DataSent b _ _ c \<Rightarrow> tx_used b = length d \<and> c \<le> length d
      | SS_DataRecvd _ _ \<Rightarrow> list_all (covers A) [0..<length d] \<and> list_ex rt_fin A
      | SS_ResetSent _ fs rs _ _ _ \<Rightarrow> fs = length d \<and> rs \<le> fs \<and> list_all (covers A) [0..<rs]
      | SS_ResetSentReliable b _ fs rs _ _ \<Rightarrow> fs = length d \<and> rs \<le> fs \<and> send_buf b = drop (tx_retired b) d \<and> tx_retired b < rs
      | SS_ResetRecvd _ _ \<Rightarrow> True)"

lemma state_promise_ok: "ss_inv d F A s \<Longrightarrow> state_promise d A (ss_state s)"
  using ss_inv_st [of d F A s] tx_retired_bound(2) [of d]
  by (cases "ss_state s") (auto simp: state_promise_def sfc_ok_def list_all_iff list_ex_iff tx_ok_def)


text \<open>A stream with three bytes written to it, then closed.\<close>

definition sample_conn_fc :: conn_sfc where
  "sample_conn_fc = sender_fc_new () 100"

definition sample_stream :: send_stream where
  "sample_stream = ss_close (snd (case send_internal (fst (send_stream_new 4 50 sample_conn_fc ([] :: (unit, unit) events))) sample_conn_fc [1, 2, 3] False
     of Ok (n, s, _) \<Rightarrow> (n, s) | _ \<Rightarrow> (0, fst (send_stream_new 4 50 sample_conn_fc ([] :: (unit, unit) events)))))"

lemma sample_send:
  "\<exists>s cfc. send_internal (fst (send_stream_new 4 50 sample_conn_fc ([] :: (unit, unit) events))) sample_conn_fc [1, 2, 3] False = Ok (3, s, cfc)
    \<and> ss_close s = sample_stream"
  by (simp add: sample_stream_def send_stream_new_def Let_def send_internal_def ss_avail_def sfc_available_def sample_conn_fc_def sender_fc_new_def
      state_tx_avail_def tx_avail_def tx_buffer_new_def tx_buffered_def TX_MAX_SIZE_def MAX_LOCAL_MAX_STREAM_DATA_def u64_sub_eq u64_add_eq
      tx_send_def assert_res_def sfc_consume_def)

lemma sample_stream_run: "ss_run B (TYPE((unit, unit) events)) 4 [1, 2, 3] [] [] sample_stream"
proof -
  obtain s cfc where s: "send_internal (fst (send_stream_new 4 50 sample_conn_fc ([] :: (unit, unit) events))) sample_conn_fc [1, 2, 3] False
      = Ok (3, s, cfc)" "ss_close s = sample_stream"
    using sample_send by blast
  have "ss_run B (TYPE((unit, unit) events)) 4 [] [] [] (fst (send_stream_new 4 50 sample_conn_fc ([] :: (unit, unit) events)))"
    by (rule run_new [of 50 4 sample_conn_fc "[] :: (unit, unit) events", OF _ prod.collapse [symmetric]]) (simp add: MAX_VARINT_def)
  moreover have "sfc_ok 0 sample_conn_fc"
    by (simp add: sfc_ok_def sample_conn_fc_def sender_fc_new_def MAX_VARINT_def)
  ultimately have "ss_run B (TYPE((unit, unit) events)) 4 ([] @ take 3 [1, 2, 3]) [] [] s"
    using s(1) by (rule run_send)
  then show ?thesis
    using run_close s(2) by fastforce
qed


end
