(* ===== verification/Spec2Isabelle.thy ===== *)
theory Spec2Isabelle
  imports Incr_Decoder Ack_Replay Packet_Protection Packet_Decode Recv_Run Close_Frame Send_Run
begin

text \<open>
  A verification library for neqo, an implementation of QUIC in Rust. It follows the data path of the transport: the codec
  of \<open>neqo-common\<close>, and of \<open>neqo-transport\<close> the frames, packets and their protection, flow control, acknowledgments, receive
  streams, send streams, and the closing of a connection.

  \<^bold>\<open>How the parts interact.\<close> A datagram is cut into packets (\<open>packet/mod.rs\<close>), whose header protection is removed and whose payload is
  opened with the keys of \<open>crypto.rs\<close>; the payload is a sequence of frames (\<open>frame.rs\<close>) written in the varints of
  \<open>neqo-common/src/codec.rs\<close>. The packet number is recorded in \<open>tracking.rs\<close>, which later writes the ACK frames. STREAM frames go to
  the receive streams (\<open>recv_stream.rs\<close>), which reassemble the data, hand it to the application and return flow control credit
  (\<open>fc.rs\<close>). In the other direction the application writes to send streams (\<open>send_stream.rs\<close>), which are limited by the credit of
  the peer and write STREAM frames into the packet that is being built; the recovery tokens (\<open>recovery/token.rs\<close>) of a packet tell the
  stream later what was acknowledged or lost.

  \<^bold>\<open>Conventions.\<close> A Rust struct is a record, an enum a datatype, a function a definition over them that returns the changed state.
  A result is \<open>Ok\<close>, \<open>Err\<close> or \<open>Panic\<close> (theory \<open>Neqo_Prelude\<close>); \<open>Panic\<close> stands for every \<open>panic!\<close>, failed \<open>unwrap\<close>, slice index out of
  range and also for \<open>debug_assert!\<close>. Code that works on bits uses machine words. Counters of type \<open>u64\<close> are natural numbers, with
  \<open>u64_add\<close>, \<open>u64_sub\<close> and \<open>u64_mul\<close> where the code could wrap around. Values behind an \<open>Rc<RefCell<..>>\<close>, such as the flow
  controller of the connection and the event queue, are passed through the operations. Code outside the repository is a
  parameter: the AEAD and header protection of NSS, the expansion of the Retry tag, random bytes. Logging and frame statistics are left out.

  \<^bold>\<open>Theories.\<close>

  \<^item> \<open>Neqo_Prelude\<close>: results, wrapping arithmetic, big-endian numbers, the error enums. \<open>BTree_Map\<close>: the ordered map of the standard
    library as a sorted association list, with the locale \<open>ordered_map\<close> of its laws.
  \<^item> \<open>Codec\<close>, \<open>Incr_Decoder\<close>: \<open>Decoder\<close>, \<open>Encoder\<close> and the trait \<open>Buffer\<close>. The locale \<open>lawful_buffer\<close> is the contract of the trait; it is
    interpreted for growing vectors (\<open>vec\<close>) and for cursors over a fixed slice (\<open>cur\<close>), and everything that writes is proved in it.
    Shown: varints round-trip and agree with the definition of RFC 9000, length prefixes written after the fact equal those
    written before, reading a value in pieces equals reading it at once.
  \<^item> \<open>Stream_Id\<close>, \<open>Packet_Types\<close>: stream identifiers, versions, packet types, epochs, the SCONE signal.
  \<^item> \<open>Frame\<close>, \<open>Frame_Codec\<close>, \<open>Ack_Frame\<close>, \<open>Frame_Writer\<close>: all frame types, the parser and what it accepts. Shown: a frame that is written in
    the wire format is parsed back, whatever is parsed is a valid frame and no input makes the parser panic or stand still, the ranges
    of an ACK frame are those of RFC 9000 with one exception, which is a finding.
  \<^item> \<open>Crypto\<close>, \<open>Key_Update\<close>: keys, their use counts and the key update protocol as a transition system, with its invariant.
  \<^item> \<open>Packet\<close>, \<open>Packet_Protection\<close>, \<open>Packet_Decode\<close>: the packet builder and the parser of protected packets. Shown: what is built and protected
    is parsed and opened to what was put in, for short and long headers; packet numbers are recovered within half a
    window; no datagram makes the parser panic, and what it returns lies within the datagram.
  \<^item> \<open>Recovery_Token\<close>, \<open>Events\<close>, \<open>Close_Frame\<close>: tokens, events, connection states, and the CONNECTION_CLOSE frame.
  \<^item> \<open>Flow_Control\<close>, \<open>Flow_Credit\<close>: both sides of flow control and the limits on streams. The locale \<open>growing_credit\<close> states what a peer
    relies on; it is interpreted for the controllers of a stream and of the connection.
  \<^item> \<open>Ack_Tracking\<close>, \<open>Ack_Replay\<close>: received packet numbers as a set; replays are rejected for ever, and an ACK frame
    decodes to the ranges that need one.
  \<^item> \<open>Recv_Buffer\<close>, \<open>Recv_Order\<close>, \<open>Recv_Stream\<close>, \<open>Recv_Delivery\<close>, \<open>Recv_Run\<close>: reassembly, the states of a receive stream, the set of all streams.
    The runs of \<open>Recv_Run\<close> interleave arriving frames, reads, resets, stops, acknowledgments and losses in any order. Shown for every
    run: in-order delivery, conservation of credit, absence of panics.
  \<^item> \<open>Range_Tracker\<close>, \<open>Range_Spec\<close>, \<open>Range_Sent\<close>, \<open>Send_Buffer\<close>: what of a stream was sent, acknowledged and lost, refined to a function from
    offsets to states, and the buffer that offers the bytes to send.
  \<^item> \<open>Send_Stream\<close>, \<open>Send_Delivery\<close>, \<open>Send_Run\<close>: the states of a send stream, its operations and frames, and their runs.

  \<^bold>\<open>Bounds.\<close> No definition uses fuel: loops are structural recursions over the list they consume, and the loop of the packet parser
  runs at most twice. Where a theorem needs a bound, it is one that the wire format enforces (varints are below \<open>2^62\<close>), or
  that \<open>u64\<close> does.

  \<^bold>\<open>Not modelled.\<close> The connection itself, which drives all parts and is tied to the TLS handshake of NSS at nearly every step,
  with streams, paths, the server and the transport parameters; loss detection, congestion control and pacing, which
  compute with times and floating point numbers; \<open>SendStreams\<close>, the order in which streams are served; datagram queues; QPACK
  and HTTP/3, which are protocols of their own on top; sockets, programs, logging and statistics.
\<close>

end
